(* ===== verification/Prelude.thy ===== *)
theory Prelude
  imports Main "HOL-Library.Word" "HOL-Library.Signed_Division" "HOL-Library.Multiset"
begin

text \<open>
  Shared vocabulary of the development: addresses and the null pointer, the error numbers the
  sources return, the memory faults a C program can run into, C integer arithmetic on
  unbounded \<^typ>\<open>int\<close> (truncating division, two's complement narrowing) and the generic
  list, option and map lemmas the component theories use.
\<close>

section \<open>Addresses, error numbers, faults\<close>

type_synonym addr = nat

abbreviation (input) NULL :: addr where
  "NULL \<equiv> 0"

text \<open>The error numbers of \<^verbatim>\<open><errno.h>\<close> that the sources name.\<close>

abbreviation (input) EPERM :: int where "EPERM \<equiv> 1"
abbreviation (input) ENOENT :: int where "ENOENT \<equiv> 2"
abbreviation (input) EINTR :: int where "EINTR \<equiv> 4"
abbreviation (input) EBADF :: int where "EBADF \<equiv> 9"
abbreviation (input) ECHILD :: int where "ECHILD \<equiv> 10"
abbreviation (input) ENXIO :: int where "ENXIO \<equiv> 6"
abbreviation (input) ENOMEM :: int where "ENOMEM \<equiv> 12"
abbreviation (input) EFAULT :: int where "EFAULT \<equiv> 14"
abbreviation (input) EINVAL :: int where "EINVAL \<equiv> 22"
abbreviation (input) ENOSYS :: int where "ENOSYS \<equiv> 38"
abbreviation (input) ETIME :: int where "ETIME \<equiv> 62"

text \<open>
  What can go wrong in memory or in locking. An operation that would have undefined behaviour
  at some point returns the fault instead of a value.
\<close>

datatype fault =
    NullDeref
  | UseAfterFree addr
  | DoubleFree addr
  | OutOfBounds nat
  | Underrun
  | SelfDeadlock
  | Unbalanced
  | SleepInAtomic
  | SignedOverflow
  | DivideByZero
  | BadFormat

section \<open>C integers over int\<close>

text \<open>Range of the 32-bit \<^verbatim>\<open>int\<close> and the 64-bit \<^verbatim>\<open>long\<close>.\<close>

definition INT_MIN :: int where "INT_MIN = - (2 ^ 31)"
definition INT_MAX :: int where "INT_MAX = 2 ^ 31 - 1"
definition LONG_MIN :: int where "LONG_MIN = - (2 ^ 63)"
definition LONG_MAX :: int where "LONG_MAX = 2 ^ 63 - 1"

definition is_int :: "int \<Rightarrow> bool" where
  "is_int x \<longleftrightarrow> INT_MIN \<le> x \<and> x \<le> INT_MAX"

definition is_long :: "int \<Rightarrow> bool" where
  "is_long x \<longleftrightarrow> LONG_MIN \<le> x \<and> x \<le> LONG_MAX"

text \<open>Narrowing to \<^verbatim>\<open>int\<close> keeps the low 32 bits, read as two's complement.\<close>

definition to_int32 :: "int \<Rightarrow> int" where
  "to_int32 x = (x + 2 ^ 31) mod 2 ^ 32 - 2 ^ 31"

lemmas int_limits = INT_MIN_def INT_MAX_def LONG_MIN_def LONG_MAX_def

section \<open>Shared facts\<close>

named_theorems libc \<open>rewriting rules for the C run-time library model\<close>

lemma to_int32_range: "is_int (to_int32 x)"
  unfolding is_int_def to_int32_def int_limits
  using pos_mod_bound [of "2 ^ 32" "x + 2 ^ 31"] pos_mod_sign [of "2 ^ 32" "x + 2 ^ 31"]
  by simp

lemma to_int32_id: "is_int x \<Longrightarrow> to_int32 x = x"
  unfolding is_int_def to_int32_def int_limits by simp

lemma map_replace_notin [simp]: "x \<notin> set xs \<Longrightarrow> map (\<lambda>z. if z = x then y else z) xs = xs"
  by (induction xs) auto

lemma set_map_replace:
  "x \<in> set xs \<Longrightarrow> set (map (\<lambda>z. if z = x then y else z) xs) = insert y (set xs - {x})"
  by auto

lemma distinct_map_replace:
  "distinct xs \<Longrightarrow> y \<notin> set xs \<Longrightarrow> distinct (map (\<lambda>z. if z = x then y else z) xs)"
  by (induction xs) auto

lemma snoc_update: "n = length xs \<Longrightarrow> (xs @ [y])[n := z] = xs @ [z]"
  by (simp add: list_update_append)

lemma mset_swap_upd:
  "i < length xs \<Longrightarrow> j < length xs \<Longrightarrow> mset (xs[i := xs ! j, j := xs ! i]) = mset xs"
  by (cases "i = j") (simp_all add: mset_update add_mset_commute)

end
