(* ===== verification/Transitions.thy ===== *)
theory Transitions
  imports Prelude
begin

text \<open>
  Systems that move in labelled steps: runs, their scripted counterpart for evaluation, and the
  arguments the components with a step relation share, as locales. An inductive invariant holds in
  every state that is reached; a level that each event raises is raised by the sum of the events;
  what can happen once more from every good state can happen any number of times.
\<close>

section \<open>Runs\<close>

inductive run :: "('s \<Rightarrow> 'e \<Rightarrow> 's \<Rightarrow> bool) \<Rightarrow> 's \<Rightarrow> 'e list \<Rightarrow> 's \<Rightarrow> bool" for step where
  run_nil: "run step s [] s"
| run_cons: "step s e s1 \<Longrightarrow> run step s1 es s2 \<Longrightarrow> run step s (e # es) s2"

inductive_simps run_simps [simp]: "run step s [] s'" "run step s (e # es) s'"

lemma run_append: "run step s (es @ es') s' \<longleftrightarrow> (\<exists>s1. run step s es s1 \<and> run step s1 es' s')"
  by (induction es arbitrary: s) auto

lemma run_trans: "run step s es s1 \<Longrightarrow> run step s1 es' s' \<Longrightarrow> run step s (es @ es') s'"
  by (auto simp: run_append)

lemma run_snoc: "run step s es s1 \<Longrightarrow> step s1 e s' \<Longrightarrow> run step s (es @ [e]) s'"
  by (auto simp: run_append)

text \<open>The steps as a function, where there is one, and a whole script of them.\<close>

primrec play :: "('s \<Rightarrow> 'e \<Rightarrow> 's option) \<Rightarrow> 's \<Rightarrow> 'e list \<Rightarrow> 's option" where
  "play next s [] = Some s"
| "play next s (e # es) = Option.bind (next s e) (\<lambda>s1. play next s1 es)"

locale playable =
  fixes step :: "'s \<Rightarrow> 'e \<Rightarrow> 's \<Rightarrow> bool" and "next" :: "'s \<Rightarrow> 'e \<Rightarrow> 's option"
  assumes next_iff: "next s e = Some s' \<longleftrightarrow> step s e s'"
begin

lemma play_iff: "play next s es = Some s' \<longleftrightarrow> run step s es s'"
  by (induction es arbitrary: s) (auto simp: bind_eq_Some_conv next_iff)

end

section \<open>Arguments about runs\<close>

locale inductive_invariant =
  fixes start :: "'s \<Rightarrow> bool" and inv :: "'s \<Rightarrow> bool" and step :: "'s \<Rightarrow> 'e \<Rightarrow> 's \<Rightarrow> bool"
  assumes start_inv: "start s \<Longrightarrow> inv s"
    and step_inv: "step s e s' \<Longrightarrow> inv s \<Longrightarrow> inv s'"
begin

lemma run_inv: "run step s es s' \<Longrightarrow> inv s \<Longrightarrow> inv s'"
  by (induction rule: run.induct) (auto intro: step_inv)

lemma reached_inv: "start s \<Longrightarrow> run step s es s' \<Longrightarrow> inv s'"
  using run_inv start_inv by blast

end

text \<open>A level that no allowed step lowers and each event raises by what it costs.\<close>

locale rising_level =
  fixes step :: "'s \<Rightarrow> 'e \<Rightarrow> 's \<Rightarrow> bool" and good :: "'s \<Rightarrow> bool" and allowed :: "'e \<Rightarrow> bool"
    and cost :: "'e \<Rightarrow> nat" and level :: "'s \<Rightarrow> nat"
  assumes step_rises: "step s e s' \<Longrightarrow> good s \<Longrightarrow> allowed e \<Longrightarrow> good s' \<and> level s + cost e \<le> level s'"
begin

lemma run_rises: "run step s es s' \<Longrightarrow> good s \<Longrightarrow> list_all allowed es \<Longrightarrow> good s' \<and> level s + sum_list (map cost es) \<le> level s'"
proof (induction rule: run.induct)
  case (run_cons s e s1 es s2)
  with step_rises [of s e s1] show ?case by auto
qed simp

end

text \<open>From every good state some run of allowed events leads to a good state and has an event of the kind \<open>wanted\<close>.\<close>

locale recurring =
  fixes step :: "'s \<Rightarrow> 'e \<Rightarrow> 's \<Rightarrow> bool" and good :: "'s \<Rightarrow> bool" and allowed :: "'e \<Rightarrow> bool" and wanted :: 'e
  assumes once_more: "good s \<Longrightarrow> \<exists>es s'. run step s es s' \<and> good s' \<and> list_all allowed es \<and> count_list es wanted = 1"
begin

lemma any_number: "good s \<Longrightarrow> \<exists>es s'. run step s es s' \<and> good s' \<and> list_all allowed es \<and> count_list es wanted = n"
proof (induction n arbitrary: s)
  case 0
  then show ?case by (intro exI [of _ "[]"]) auto
next
  case (Suc n)
  from once_more [OF Suc.prems] obtain es s1 where 1: "run step s es s1" "good s1" "list_all allowed es" "count_list es wanted = 1"
    by blast
  from Suc.IH [OF 1(2)] obtain es' s' where "run step s1 es' s'" "good s'" "list_all allowed es'" "count_list es' wanted = n"
    by blast
  with 1 show ?case by (intro exI [of _ "es @ es'"] exI [of _ s']) (auto simp: run_append)
qed

end

end
