(* ===== verification/C_Format.thy ===== *)
theory C_Format
  imports Prelude
begin

text \<open>
  The part of the C run-time library that formats text, as the sources use it:
  numerals in base 10 and 16, padding, and an interpreter for the format strings of
  \<^verbatim>\<open>printf\<close>, \<^verbatim>\<open>snprintf\<close> and \<^verbatim>\<open>printk\<close>
  (flags \<^verbatim>\<open>-\<close> and \<^verbatim>\<open>0\<close>, a field width, a precision, length modifiers, and the
  conversions d, u, x, s, c and p). The interpreter fails when a conversion has no argument
  or an argument of the wrong kind, which is undefined behaviour in C, so format strings are
  written in the model exactly as they stand in the sources.
\<close>

section \<open>Numerals\<close>

fun radix :: "nat \<Rightarrow> nat \<Rightarrow> nat list" where
  "radix b n = (if b < 2 \<or> n < b then [n] else radix b (n div b) @ [n mod b])"

declare radix.simps [simp del]

definition of_radix :: "nat \<Rightarrow> nat list \<Rightarrow> nat" where
  "of_radix b ds = foldl (\<lambda>acc d. acc * b + d) 0 ds"

definition digit :: "nat \<Rightarrow> char" where
  "digit d = (if d < 10 then char_of (48 + d) else char_of (87 + d))"

definition undigit :: "char \<Rightarrow> nat" where
  "undigit c = (if of_char c < (58::nat) then of_char c - 48 else of_char c - 87)"

definition dec :: "nat \<Rightarrow> string" where
  "dec n = map digit (radix 10 n)"

definition hex :: "nat \<Rightarrow> string" where
  "hex n = map digit (radix 16 n)"

definition dec_int :: "int \<Rightarrow> string" where
  "dec_int i = (if i < 0 then CHR ''-'' # dec (nat (- i)) else dec (nat i))"

definition pad_left :: "char \<Rightarrow> nat \<Rightarrow> string \<Rightarrow> string" where
  "pad_left c w s = replicate (w - length s) c @ s"

definition pad_right :: "nat \<Rightarrow> string \<Rightarrow> string" where
  "pad_right w s = s @ replicate (w - length s) (CHR '' '')"

section \<open>Format strings\<close>

datatype farg = FInt int | FUInt nat | FStr string | FChar char

text \<open>A conversion: left-justify flag, zero flag, width, precision, conversion letter.\<close>

datatype fitem = Lit char | Conv bool bool nat "nat option" char

datatype fscan = Text | InConv bool bool nat "nat option" | AfterPtr bool bool nat

definition is_digit :: "char \<Rightarrow> bool" where
  "is_digit c \<longleftrightarrow> c \<in> set ''0123456789''"

text \<open>One character of the format, in each scanning state.\<close>

definition conv_char :: "char \<Rightarrow> bool \<Rightarrow> bool \<Rightarrow> nat \<Rightarrow> nat option \<Rightarrow> fitem list \<times> fscan" where
  "conv_char c m z w p =
     (if c = CHR ''%'' then ([Lit c], Text)
      else if c = CHR ''-'' then ([], InConv True z w p)
      else if c = CHR ''.'' then ([], InConv m z w (Some 0))
      else if c = CHR ''0'' \<and> w = 0 \<and> p = None then ([], InConv m True w p)
      else if is_digit c then
        ([], case p of None \<Rightarrow> InConv m z (w * 10 + undigit c) None
                     | Some q \<Rightarrow> InConv m z w (Some (q * 10 + undigit c)))
      else if c \<in> set ''lhz'' then ([], InConv m z w p)
      else if c = CHR ''p'' then ([], AfterPtr m z w)
      else ([Conv m z w p c], Text))"

definition text_char :: "char \<Rightarrow> fitem list \<times> fscan" where
  "text_char c = (if c = CHR ''%'' then ([], InConv False False 0 None) else ([Lit c], Text))"

primrec scan_char :: "char \<Rightarrow> fscan \<Rightarrow> fitem list \<times> fscan" where
  "scan_char c Text = text_char c"
| "scan_char c (InConv m z w p) = conv_char c m z w p"
| "scan_char c (AfterPtr m z w) =
     (if c \<in> set ''Kx'' then ([Conv m z w None (CHR ''p'')], Text)
      else (Conv m z w None (CHR ''p'') # fst (text_char c), snd (text_char c)))"

primrec scan_end :: "fscan \<Rightarrow> fitem list" where
  "scan_end Text = []"
| "scan_end (InConv m z w p) = []"
| "scan_end (AfterPtr m z w) = [Conv m z w None (CHR ''p'')]"

primrec fmt_scan :: "string \<Rightarrow> fscan \<Rightarrow> fitem list" where
  "fmt_scan [] st = scan_end st"
| "fmt_scan (c # cs) st = fst (scan_char c st) @ fmt_scan cs (snd (scan_char c st))"

definition fmt_items :: "string \<Rightarrow> fitem list" where
  "fmt_items f = fmt_scan f Text"

definition justify :: "bool \<Rightarrow> bool \<Rightarrow> nat \<Rightarrow> string \<Rightarrow> string" where
  "justify m z w s =
     (if m then pad_right w s
      else if z then
        (case s of c # cs \<Rightarrow>
           if c = CHR ''-'' then c # pad_left (CHR ''0'') (w - 1) cs else pad_left (CHR ''0'') w s
         | [] \<Rightarrow> pad_left (CHR ''0'') w s)
      else pad_left (CHR '' '') w s)"

text \<open>A precision on an integer is a minimum number of digits.\<close>

definition with_prec :: "nat option \<Rightarrow> string \<Rightarrow> string" where
  "with_prec p s = (case p of None \<Rightarrow> s | Some q \<Rightarrow> pad_left (CHR ''0'') q s)"

fun conv_arg :: "nat option \<Rightarrow> char \<Rightarrow> farg \<Rightarrow> string option" where
  "conv_arg p k (FInt i) = (if k = CHR ''d'' then Some (dec_int i) else None)"
| "conv_arg p k (FUInt n) =
     (if k = CHR ''u'' then Some (dec n)
      else if k = CHR ''x'' then Some (with_prec p (hex n))
      else if k = CHR ''p'' then Some (''0x'' @ hex n) else None)"
| "conv_arg p k (FStr s) =
     (if k = CHR ''s'' then Some (case p of None \<Rightarrow> s | Some q \<Rightarrow> take q s) else None)"
| "conv_arg p k (FChar c) = (if k = CHR ''c'' then Some [c] else None)"

fun render :: "fitem list \<Rightarrow> farg list \<Rightarrow> string option" where
  "render [] as = Some []"
| "render (Lit c # is) as = map_option (Cons c) (render is as)"
| "render (Conv m z w p k # is) [] = None"
| "render (Conv m z w p k # is) (a # as) =
     (case conv_arg p k a of None \<Rightarrow> None
      | Some s \<Rightarrow> map_option ((@) (justify m z w s)) (render is as))"

text \<open>The text a format produces, and how many arguments it consumes.\<close>

definition printf :: "string \<Rightarrow> farg list \<Rightarrow> string option" where
  "printf f as = render (fmt_items f) as"

text \<open>What reaches the terminal or the kernel log; a malformed call is marked as such.\<close>

definition emit :: "string \<Rightarrow> farg list \<Rightarrow> string" where
  "emit f as = (case printf f as of Some s \<Rightarrow> s | None \<Rightarrow> ''<malformed format>'')"

definition is_conv :: "fitem \<Rightarrow> bool" where
  "is_conv i = (case i of Lit c \<Rightarrow> False | Conv m z w p k \<Rightarrow> True)"

definition n_convs :: "string \<Rightarrow> nat" where
  "n_convs f = length (filter is_conv (fmt_items f))"

text \<open>
  \<^verbatim>\<open>snprintf(buf, n, ...)\<close> stores at most \<^term>\<open>n - 1\<close> characters and returns the length the
  whole text would have had.
\<close>

definition snprintf :: "nat \<Rightarrow> string \<Rightarrow> farg list \<Rightarrow> (string \<times> nat) option" where
  "snprintf n f as = map_option (\<lambda>s. (take (n - 1) s, length s)) (printf f as)"

text \<open>
  \<^verbatim>\<open>strncat(dst, src, n)\<close> into an array of \<open>cap\<close> bytes: the text and its terminating NUL must fit.
\<close>

definition strncat :: "nat \<Rightarrow> string \<Rightarrow> string \<Rightarrow> nat \<Rightarrow> fault + string" where
  "strncat cap dst src n =
     (let r = dst @ take n src in if length r < cap then Inr r else Inl (OutOfBounds cap))"

text \<open>
  \<^verbatim>\<open>atol\<close> and \<^verbatim>\<open>atoi\<close>: leading white space, a sign, the digits up to the first other character. A
  number beyond the range of \<^verbatim>\<open>long\<close> gives the nearest bound; \<^verbatim>\<open>atoi\<close> narrows the \<^verbatim>\<open>long\<close> to \<^verbatim>\<open>int\<close>.
\<close>

definition is_space :: "char \<Rightarrow> bool" where
  "is_space c \<longleftrightarrow> c \<in> {CHR '' '', CHR 0x09, CHR 0x0A, CHR 0x0B, CHR 0x0C, CHR 0x0D}"

definition digits_value :: "string \<Rightarrow> int" where
  "digits_value s = int (of_radix 10 (map undigit (takeWhile is_digit s)))"

definition signed_value :: "string \<Rightarrow> int" where
  "signed_value s = (case dropWhile is_space s of
       [] \<Rightarrow> 0
     | c # cs \<Rightarrow> if c = CHR ''-'' then - digits_value cs
                 else if c = CHR ''+'' then digits_value cs else digits_value (c # cs))"

definition atol :: "string \<Rightarrow> int" where
  "atol s = max LONG_MIN (min LONG_MAX (signed_value s))"

definition atoi :: "string \<Rightarrow> int" where
  "atoi s = to_int32 (atol s)"

section \<open>What a run shows\<close>

text \<open>What a process leaves on its output streams, and how it ends.\<close>

datatype message = Stdout string | Stderr string | Perror string

datatype ending = Exit int | Paused | Sigbus | Killed | Undefined fault

section \<open>Facts about numerals and padding\<close>

lemma radix_nonempty [simp]: "radix b n \<noteq> []"
  by (subst radix.simps) simp

lemma of_radix_snoc [simp]: "of_radix b (ds @ [d]) = of_radix b ds * b + d"
  by (simp add: of_radix_def)

lemma of_radix_single [simp]: "of_radix b [d] = d"
  by (simp add: of_radix_def)

lemma of_radix_radix [libc]: "of_radix b (radix b n) = n"
proof (induction b n rule: radix.induct)
  case (1 b n)
  show ?case
  proof (cases "b < 2 \<or> n < b")
    case True
    then show ?thesis by (simp add: radix.simps [of b n])
  next
    case False
    with "1.IH" show ?thesis by (simp add: radix.simps [of b n])
  qed
qed

lemma radix_digits: "2 \<le> b \<Longrightarrow> d \<in> set (radix b n) \<Longrightarrow> d < b"
proof (induction b n rule: radix.induct)
  case (1 b n)
  show ?case
  proof (cases "n < b")
    case True
    with "1.prems" show ?thesis by (simp add: radix.simps [of b n])
  next
    case False
    with "1.prems" "1.IH" show ?thesis by (auto simp: radix.simps [of b n])
  qed
qed

lemma length_radix_le:
  assumes "2 \<le> b" and "n < b ^ k" and "0 < k"
  shows "length (radix b n) \<le> k"
  using assms
proof (induction k arbitrary: n)
  case 0
  then show ?case by simp
next
  case (Suc k)
  show ?case
  proof (cases "n < b")
    case True
    then show ?thesis by (simp add: radix.simps [of b n])
  next
    case False
    with Suc.prems have "0 < k" by (cases k) auto
    moreover have "n div b < b ^ k"
      using Suc.prems by (simp add: less_mult_imp_div_less mult.commute)
    ultimately have "length (radix b (n div b)) \<le> k"
      using Suc.IH Suc.prems(1) by blast
    with False Suc.prems(1) show ?thesis by (simp add: radix.simps [of b n])
  qed
qed

lemma undigit_digit: "d < 16 \<Longrightarrow> undigit (digit d) = d"
  by (auto simp: digit_def undigit_def of_char_of)

lemma undigit_hex [libc]: "map undigit (hex n) = radix 16 n"
  by (simp add: hex_def comp_def undigit_digit radix_digits [of 16 _ n] cong: map_cong)

lemma undigit_dec [libc]: "map undigit (dec n) = radix 10 n"
proof -
  have "\<forall>d \<in> set (radix 10 n). undigit (digit d) = d"
    using radix_digits [of 10 _ n] by (fastforce simp: undigit_digit)
  then show ?thesis by (simp add: dec_def map_idI)
qed

lemma length_hex_le: "n < 16 ^ k \<Longrightarrow> 0 < k \<Longrightarrow> length (hex n) \<le> k"
  by (simp add: hex_def length_radix_le)

lemma length_dec_le: "n < 10 ^ k \<Longrightarrow> 0 < k \<Longrightarrow> length (dec n) \<le> k"
  by (simp add: dec_def length_radix_le)

lemma length_pad_left [simp]: "length (pad_left c w s) = max w (length s)"
  by (simp add: pad_left_def)

lemma length_pad_right [simp]: "length (pad_right w s) = max w (length s)"
  by (simp add: pad_right_def)

lemma length_dec_int_le:
  "\<bar>i\<bar> < 10 ^ k \<Longrightarrow> 0 < k \<Longrightarrow> length (dec_int i) \<le> Suc k"
  using length_dec_le [of "nat \<bar>i\<bar>" k]
  by (auto simp: dec_int_def nat_less_iff)

lemma atol_range: "is_long (atol s)"
  by (auto simp: atol_def is_long_def int_limits)

lemma atoi_range: "is_int (atoi s)"
  by (simp add: atoi_def to_int32_range)

section \<open>Facts about formats\<close>

text \<open>A format that renders consumed exactly as many arguments as it has conversions.\<close>

lemma render_args: "render is as = Some s \<Longrightarrow> length (filter is_conv is) \<le> length as"
  by (induction "is" as arbitrary: s rule: render.induct)
    (auto simp: is_conv_def split: option.splits)

lemma printf_args: "printf f as = Some s \<Longrightarrow> n_convs f \<le> length as"
  by (simp add: printf_def n_convs_def render_args)

lemma snprintf_bound: "snprintf n f as = Some (s, k) \<Longrightarrow> length s \<le> n - 1 \<and> length s \<le> k"
  by (auto simp: snprintf_def)

text \<open>How long a conversion comes out.\<close>

lemma length_justify: "length (justify m z w s) = max w (length s)"
  by (cases s) (auto simp: justify_def)

lemma length_dec_pos: "0 < length (dec n)"
  by (simp add: dec_def)

lemma length_dec_int32: "is_int i \<Longrightarrow> length (dec_int i) \<le> 11"
  using length_dec_int_le [of i 10] by (auto simp: is_int_def int_limits)

lemma length_dec_u32: "n < 2 ^ 32 \<Longrightarrow> length (dec n) \<le> 10"
  using length_dec_le [of n 10] by simp

text \<open>Numerals consist of digits, so they contain neither a sign nor a NUL.\<close>

lemma digit_ord: "d < 16 \<Longrightarrow> 48 \<le> (of_char (digit d) :: nat)"
  by (auto simp: digit_def of_char_of)

lemma hex_chars: "c \<in> set (hex n) \<Longrightarrow> 48 \<le> (of_char c :: nat)"
  using radix_digits [of 16 _ n] by (auto simp: hex_def digit_ord)

lemma dec_chars: "c \<in> set (dec n) \<Longrightarrow> 48 \<le> (of_char c :: nat)"
  using radix_digits [of 10 _ n] by (fastforce simp: dec_def digit_ord)

lemma not_nul: "48 \<le> (of_char c :: nat) \<Longrightarrow> c \<noteq> CHR 0x00"
  by auto

lemma justify_zeros: "CHR ''-'' \<notin> set s \<Longrightarrow> justify False True w s = pad_left (CHR ''0'') w s"
  by (cases s) (auto simp: justify_def)

lemma of_radix_bound: "(\<And>d. d \<in> set ds \<Longrightarrow> d < b) \<Longrightarrow> of_radix b ds < b ^ length ds"
proof (induction ds rule: rev_induct)
  case Nil
  then show ?case by (simp add: of_radix_def)
next
  case (snoc d ds)
  then have "of_radix b ds < b ^ length ds" "d < b" by auto
  then have "of_radix b ds * b + d < (of_radix b ds + 1) * b" by (simp add: algebra_simps)
  also have "\<dots> \<le> b ^ length ds * b"
    using \<open>of_radix b ds < b ^ length ds\<close> by (intro mult_le_mono1) simp
  finally show ?case by (simp add: mult.commute)
qed

section \<open>Checking a call without its values\<close>

text \<open>Whether a format renders depends on the kinds of its arguments only.\<close>

datatype kind = KInt | KUInt | KStr | KChar

fun kind_of :: "farg \<Rightarrow> kind" where
  "kind_of (FInt i) = KInt"
| "kind_of (FUInt n) = KUInt"
| "kind_of (FStr s) = KStr"
| "kind_of (FChar c) = KChar"

definition accepts :: "char \<Rightarrow> kind \<Rightarrow> bool" where
  "accepts c k = (case k of KInt \<Rightarrow> c = CHR ''d'' | KUInt \<Rightarrow> c \<in> set ''uxp'' | KStr \<Rightarrow> c = CHR ''s'' | KChar \<Rightarrow> c = CHR ''c'')"

fun fits :: "fitem list \<Rightarrow> kind list \<Rightarrow> bool" where
  "fits [] ks = (ks = [])"
| "fits (Lit c # is) ks = fits is ks"
| "fits (Conv m z w p c # is) [] = False"
| "fits (Conv m z w p c # is) (k # ks) = (accepts c k \<and> fits is ks)"

lemma fits_renders: "fits is (map kind_of as) \<Longrightarrow> \<exists>s. render is as = Some s"
proof (induction "is" as rule: render.induct)
  case (4 m z w p k "is" a as)
  then show ?case by (cases a) (auto simp: accepts_def)
qed auto

lemma fits_prints: "fits (fmt_items f) (map kind_of as) \<Longrightarrow> \<exists>s. printf f as = Some s"
  unfolding printf_def by (rule fits_renders)

end
