(* ===== verification/Convenient.thy ===== *)
theory Convenient
  imports C_Format
begin

text \<open>
  The two copies of the convenience header: \<^verbatim>\<open>convenient.h\<close> at the top of the repository
  (\<^verbatim>\<open>SHOW_DELTA_*\<close>, \<^verbatim>\<open>PRINT_CTX\<close>, \<^verbatim>\<open>assert\<close>, \<^verbatim>\<open>beep\<close>, \<^verbatim>\<open>DELAY_LOOP\<close>, \<^verbatim>\<open>SHOW_DELTA\<close>) and the older
  \<^verbatim>\<open>mm/vm_show_kernel_seg/convenient.h\<close> (\<^verbatim>\<open>timeval_subtract\<close>, \<^verbatim>\<open>dec2bin\<close>, its own \<^verbatim>\<open>PRINT_CTX\<close>,
  \<^verbatim>\<open>DELAY_LOOP\<close> and \<^verbatim>\<open>err_exit\<close>).
\<close>

section \<open>Sizes: SHOW_DELTA\_b, \_K, \_M, \_G, \_MG, \_MGT\<close>

definition SHOW_DELTA_b :: "64 word \<Rightarrow> 64 word \<Rightarrow> 64 word list" where
  "SHOW_DELTA_b low hi = [low, hi, hi - low]"

definition SHOW_DELTA_K :: "64 word \<Rightarrow> 64 word \<Rightarrow> 64 word list" where
  "SHOW_DELTA_K low hi = [low, hi, drop_bit 10 (hi - low)]"

definition SHOW_DELTA_M :: "64 word \<Rightarrow> 64 word \<Rightarrow> 64 word list" where
  "SHOW_DELTA_M low hi = [low, hi, drop_bit 20 (hi - low)]"

definition SHOW_DELTA_G :: "64 word \<Rightarrow> 64 word \<Rightarrow> 64 word list" where
  "SHOW_DELTA_G low hi = [low, hi, drop_bit 30 (hi - low)]"

definition SHOW_DELTA_MG :: "64 word \<Rightarrow> 64 word \<Rightarrow> 64 word list" where
  "SHOW_DELTA_MG low hi = [low, hi, drop_bit 20 (hi - low), drop_bit 30 (hi - low)]"

text \<open>The 64-bit version; the 32-bit one stops before the last element.\<close>

definition SHOW_DELTA_MGT :: "nat \<Rightarrow> 64 word \<Rightarrow> 64 word \<Rightarrow> 64 word list" where
  "SHOW_DELTA_MGT bits_per_long low hi =
     [low, hi, drop_bit 20 (hi - low), drop_bit 30 (hi - low)] @
     (if bits_per_long = 64 then [drop_bit 40 (hi - low)] else [])"

section \<open>PRINT\_CTX\<close>

text \<open>What the macro asks of the kernel about the context it runs in.\<close>

record kctx =
  in_task :: bool
  in_hardirq :: bool
  in_serving_softirq :: bool
  in_interrupt :: bool
  in_softirq :: bool
  irqs_disabled :: bool
  need_resched :: bool
  preempt_count :: nat
  cpu_id :: nat
  cur_has_mm :: bool
  cur_comm :: string
  cur_pid :: int

definition ctx_intr :: "kctx \<Rightarrow> char" where
  "ctx_intr k =
     (if \<not> in_task k then
        (if in_hardirq k \<and> in_serving_softirq k then CHR ''H''
         else if in_hardirq k then CHR ''h''
         else if in_serving_softirq k then CHR ''s''
         else CHR ''.'')
      else CHR ''.'')"

text \<open>The last column is \<^verbatim>\<open>(preempt_count() && 0xff)\<close>, a truth value.\<close>

definition ctx_depth :: "kctx \<Rightarrow> nat" where
  "ctx_depth k = (if preempt_count k \<noteq> 0 \<and> (255::nat) \<noteq> 0 then 1 else 0)"

definition ctx_columns :: "char \<Rightarrow> kctx \<Rightarrow> farg list" where
  "ctx_columns intr k =
     [FChar (if irqs_disabled k then CHR ''d'' else CHR ''.''),
      FChar (if need_resched k then CHR ''N'' else CHR ''.''),
      FChar intr, FUInt (ctx_depth k)]"

definition ctx_task :: "kctx \<Rightarrow> farg list" where
  "ctx_task k =
     [FChar (if \<not> cur_has_mm k then CHR ''['' else CHR '' ''), FStr (cur_comm k),
      FChar (if \<not> cur_has_mm k then CHR '']'' else CHR '' ''), FInt (cur_pid k)]"

text \<open>The text given to \<^verbatim>\<open>pr_debug\<close>, which the kernel prints where debug messages are enabled.\<close>

definition PRINT_CTX :: "kctx \<Rightarrow> string \<Rightarrow> string" where
  "PRINT_CTX k func =
     emit ''%03d) %c%s%c:%d   |  %c%c%c%u   /* %s() */\<newline>''
       ([FInt (int (cpu_id k))] @ ctx_task k @ ctx_columns (ctx_intr k) k @ [FStr func])"

text \<open>The older header decides on \<^verbatim>\<open>in_interrupt()\<close>, \<^verbatim>\<open>in_irq()\<close> and \<^verbatim>\<open>in_softirq()\<close>.\<close>

definition old_ctx_intr :: "kctx \<Rightarrow> char" where
  "old_ctx_intr k =
     (if in_interrupt k then
        (if in_hardirq k \<and> in_softirq k then CHR ''H''
         else if in_hardirq k then CHR ''h''
         else if in_softirq k then CHR ''s''
         else CHR ''.'')
      else CHR ''.'')"

definition old_PRINT_CTX :: "kctx \<Rightarrow> string" where
  "old_PRINT_CTX k =
     emit ''PRINT_CTX:: [%03d]%c%s%c:%d   %c %c%c%c%u \<newline>''
       ([FInt (int (cpu_id k))] @ ctx_task k @ [FChar (CHR ''|'')] @ ctx_columns (old_ctx_intr k) k)"

section \<open>assert, beep, DELAY\_LOOP, SHOW\_DELTA\<close>

definition assert_msg :: "bool \<Rightarrow> string \<Rightarrow> string \<Rightarrow> string \<Rightarrow> nat \<Rightarrow> string" where
  "assert_msg expr txt file func line =
     (if \<not> expr then
        emit ''********** Assertion [%s] failed! : %s:%s:%d **********\<newline>''
          [FStr txt, FStr file, FStr func, FInt (int line)]
      else [])"

definition beep :: "int \<Rightarrow> string" where
  "beep what = [char_of (nat (what mod 256))]"

text \<open>
  The loop on \<^verbatim>\<open>for_index\<close>: output so far and the counter \<^verbatim>\<open>c\<close>; the inner loops only burn time.
\<close>

function DELAY_LOOP_from :: "nat \<Rightarrow> int \<Rightarrow> nat \<Rightarrow> string \<Rightarrow> nat \<Rightarrow> string \<times> nat" where
  "DELAY_LOOP_from for_index val loop_count out c =
     (if for_index < loop_count
      then DELAY_LOOP_from (Suc for_index) val loop_count (out @ beep val) (Suc c)
      else (out, c))"
  by pat_completeness auto
termination
  by (relation "measure (\<lambda>(i, v, n, out, c). n - i)") auto

declare DELAY_LOOP_from.simps [simp del]

definition DELAY_LOOP :: "int \<Rightarrow> nat \<Rightarrow> string \<times> nat" where
  "DELAY_LOOP val loop_count = DELAY_LOOP_from 0 val loop_count [] 0"

text \<open>
  \<^verbatim>\<open>SHOW_DELTA\<close> on a 64-bit kernel; \<^term>\<open>time_after\<close> is the kernel's comparison of two times, and
  the difference is the signed \<^verbatim>\<open>ktime_sub\<close>.
\<close>

definition SHOW_DELTA :: "(int \<Rightarrow> int \<Rightarrow> bool) \<Rightarrow> int \<Rightarrow> int \<Rightarrow> string" where
  "SHOW_DELTA time_after later earlier =
     (if time_after later earlier then
        (let delta_ns = later - earlier in
           emit ''delta: %lld ns'' [FInt delta_ns] @
           (if delta_ns sdiv 1000 \<ge> 1 then emit '' (~ %lld us'' [FInt (delta_ns sdiv 1000)] else []) @
           (if delta_ns sdiv 1000000 \<ge> 1 then emit '' ~ %lld ms'' [FInt (delta_ns sdiv 1000000)] else []) @
           (if delta_ns sdiv 1000 \<ge> 1 then emit '')\<newline>'' [] else []))
      else emit ''SHOW_DELTA(): *invalid* earlier > later? (check order of params)\<newline>'' [])"

text \<open>The header's choice by word size: a 32-bit kernel compares nothing and prints a warning.\<close>

definition header_SHOW_DELTA :: "nat \<Rightarrow> (int \<Rightarrow> int \<Rightarrow> bool) \<Rightarrow> int \<Rightarrow> int \<Rightarrow> string" where
  "header_SHOW_DELTA bits_per_long time_after later earlier =
     (if bits_per_long = 64 then SHOW_DELTA time_after later earlier
      else emit ''SHOW_DELTA(): ktime_sub() not supported on 32-bit\<newline>'' [])"

section \<open>timeval\_subtract\<close>

record timeval =
  tv_sec :: int
  tv_usec :: int

text \<open>
  The two carries update \<^verbatim>\<open>*y\<close>; \<^verbatim>\<open>nsec\<close> is an \<^verbatim>\<open>int\<close>. The result is the difference, the
  updated \<^verbatim>\<open>*y\<close> and the returned flag.
\<close>

definition carry_up :: "timeval \<Rightarrow> timeval \<Rightarrow> timeval" where
  "carry_up x y =
     (if tv_usec x < tv_usec y then
        (let nsec = to_int32 ((tv_usec y - tv_usec x) sdiv 1000000 + 1)
         in y\<lparr>tv_usec := tv_usec y - 1000000 * nsec, tv_sec := tv_sec y + nsec\<rparr>)
      else y)"

definition carry_down :: "timeval \<Rightarrow> timeval \<Rightarrow> timeval" where
  "carry_down x y =
     (if tv_usec x - tv_usec y > 1000000 then
        (let nsec = to_int32 ((tv_usec x - tv_usec y) sdiv 1000000)
         in y\<lparr>tv_usec := tv_usec y + 1000000 * nsec, tv_sec := tv_sec y - nsec\<rparr>)
      else y)"

definition timeval_subtract :: "timeval \<Rightarrow> timeval \<Rightarrow> timeval \<times> timeval \<times> int" where
  "timeval_subtract x y =
     (let y' = carry_down x (carry_up x y)
      in (\<lparr>tv_sec = tv_sec x - tv_sec y', tv_usec = tv_usec x - tv_usec y'\<rparr>, y',
          if tv_sec x < tv_sec y' then 1 else 0))"

text \<open>A time in microseconds, and the normal form the system calls deliver.\<close>

definition usecs :: "timeval \<Rightarrow> int" where
  "usecs t = tv_sec t * 1000000 + tv_usec t"

definition tv_norm :: "timeval \<Rightarrow> bool" where
  "tv_norm t \<longleftrightarrow> 0 \<le> tv_usec t \<and> tv_usec t < 1000000"

section \<open>dec2bin\<close>

text \<open>
  The \<^verbatim>\<open>do ... while (decimal > 0)\<close> loop, which appends the remainder digits to \<^verbatim>\<open>temp\<close>;
  \<^verbatim>\<open>temp\<close> has 80 bytes, and storing past them is a fault.
\<close>

definition TEMP_SIZE :: nat where "TEMP_SIZE = 80"

definition put_temp :: "char \<Rightarrow> string \<Rightarrow> fault + string" where
  "put_temp c temp = (if length temp < TEMP_SIZE then Inr (temp @ [c]) else Inl (OutOfBounds (length temp)))"

function bin_digits :: "nat \<Rightarrow> string \<Rightarrow> fault + string" where
  "bin_digits decimal temp =
     (case put_temp (char_of (decimal mod 2 + 48)) temp of
        Inl e \<Rightarrow> Inl e
      | Inr temp' \<Rightarrow> if decimal div 2 > 0 then bin_digits (decimal div 2) temp' else Inr temp')"
  by pat_completeness auto
termination
  by (relation "measure fst") auto

declare bin_digits.simps [simp del]

text \<open>
  The reversing loop \<^verbatim>\<open>while (k >= 0) binary[n++] = temp[--k]\<close> goes on when no character is left, and reads
  \<^verbatim>\<open>temp[-1]\<close>. The result is how the function ends, and what it has stored in \<^verbatim>\<open>binary\<close>.
\<close>

definition temp_at :: "string \<Rightarrow> int \<Rightarrow> fault + char" where
  "temp_at temp i = (if i < 0 then Inl Underrun else if nat i < length temp then Inr (temp ! nat i) else Inl (OutOfBounds (nat i)))"

function copy_back :: "string \<Rightarrow> int \<Rightarrow> string \<Rightarrow> (fault + unit) \<times> string" where
  "copy_back temp k binary =
     (if k \<ge> 0 then
        (case temp_at temp (k - 1) of
           Inl e \<Rightarrow> (Inl e, binary)
         | Inr c \<Rightarrow> copy_back temp (k - 1) (binary @ [c]))
      else (Inr (), binary))"
  by pat_completeness auto
termination
  by (relation "measure (\<lambda>(t, k, out). nat (k + 1))") auto

declare copy_back.simps [simp del]

definition dec2bin :: "int \<Rightarrow> (fault + unit) \<times> string" where
  "dec2bin decimal =
     (if decimal = LONG_MIN then (Inl SignedOverflow, [])
      else
        (let neg_flag = decimal < 0 in
         case bin_digits (nat \<bar>decimal\<bar>) [] of
           Inl e \<Rightarrow> (Inl e, [])
         | Inr temp \<Rightarrow>
             (case put_temp (if neg_flag then CHR ''-'' else CHR '' '') temp of
                Inl e \<Rightarrow> (Inl e, [])
              | Inr temp' \<Rightarrow>
                  (case copy_back temp' (int (length temp')) [] of
                     (Inl e, binary) \<Rightarrow> (Inl e, binary)
                   | (Inr _, binary) \<Rightarrow> (Inr (), binary[length binary - 1 := CHR 0x00])))))"

text \<open>\<^verbatim>\<open>err_exit\<close>: the message handed to \<^verbatim>\<open>perror\<close>, cut to the 511 bytes given to \<^verbatim>\<open>snprintf\<close>.\<close>

definition err_exit :: "string \<Rightarrow> string \<Rightarrow> int \<Rightarrow> string \<times> int" where
  "err_exit prg err exitcode =
     (case snprintf 511 ''%s: %s'' [FStr prg, FStr err] of
        Some (s, k) \<Rightarrow> (s, exitcode) | None \<Rightarrow> ([], exitcode))"

section \<open>Facts about the carries\<close>

lemma to_int32_small: "0 \<le> d \<Longrightarrow> d < 2 ^ 31 \<Longrightarrow> to_int32 d = d"
  by (rule to_int32_id) (simp add: is_int_def int_limits)

lemma sdiv_nonneg: "0 \<le> (a::int) \<Longrightarrow> 0 < b \<Longrightarrow> a sdiv b = a div b"
  by (simp add: signed_divide_int_def sgn_if)

lemma usecs_carry_up: "usecs (carry_up x y) = usecs y"
  by (simp add: carry_up_def usecs_def Let_def)

lemma usecs_carry_down: "usecs (carry_down x y) = usecs y"
  by (simp add: carry_down_def usecs_def Let_def)

lemma carry_norm:
  assumes "tv_norm x" and "tv_norm y"
  shows "carry_down x (carry_up x y) = carry_up x y"
    and "0 \<le> tv_usec x - tv_usec (carry_up x y)"
    and "tv_usec x - tv_usec (carry_up x y) < 1000000"
proof -
  have "(tv_usec y - tv_usec x) sdiv 1000000 = 0" if "tv_usec x < tv_usec y"
    using that assms by (simp add: sdiv_nonneg tv_norm_def)
  then have "0 \<le> tv_usec x - tv_usec (carry_up x y) \<and> tv_usec x - tv_usec (carry_up x y) < 1000000"
    using assms by (auto simp: carry_up_def tv_norm_def Let_def to_int32_small)
  then show "0 \<le> tv_usec x - tv_usec (carry_up x y)"
    and "tv_usec x - tv_usec (carry_up x y) < 1000000"
    and "carry_down x (carry_up x y) = carry_up x y"
    by (auto simp: carry_down_def)
qed

section \<open>Facts about dec2bin\<close>

lemma bin_digit: "char_of (n mod 2 + 48) = digit (n mod (2::nat))"
  by (simp add: digit_def add.commute)

lemma bin_digit_last: "n < 2 \<Longrightarrow> char_of (n + 48) = digit n"
  by (simp add: digit_def add.commute)

lemma code_digits: "digit 0 = CHR ''0'' \<and> digit 1 = CHR ''1''"
  by code_simp

lemma bin_digit_chars: "d < 2 \<Longrightarrow> digit d = CHR ''0'' \<or> digit d = CHR ''1''"
  using code_digits by (auto simp: less_2_cases_iff)

lemma radix2_unfold: "radix 2 n = (if n < 2 then [n] else radix 2 (n div 2) @ [n mod 2])"
  by (subst radix.simps) simp

lemma bin_digits_eq:
  "length temp + length (radix 2 n) \<le> TEMP_SIZE \<Longrightarrow>
   bin_digits n temp = Inr (temp @ rev (map digit (radix 2 n)))"
proof (induction n temp rule: bin_digits.induct)
  case (1 n temp)
  have len: "length temp < TEMP_SIZE"
    using "1.prems" by (cases "radix 2 n") auto
  show ?case
  proof (cases "n < 2")
    case True
    then show ?thesis
      using len by (simp add: bin_digits.simps [of n] put_temp_def radix2_unfold [of n] bin_digit_last)
  next
    case False
    then have "n div 2 > 0" by simp
    with False "1.prems" len "1.IH" [of "temp @ [char_of (n mod 2 + 48)]"] show ?thesis
      by (simp add: bin_digits.simps [of n] put_temp_def radix2_unfold [of n] bin_digit)
  qed
qed

lemma copy_back_eq:
  "k \<le> length temp \<Longrightarrow> copy_back temp (int k) out = (Inl Underrun, out @ rev (take k temp))"
proof (induction k arbitrary: out)
  case 0
  then show ?case by (simp add: copy_back.simps [of temp 0] temp_at_def)
next
  case (Suc k)
  then show ?case
    by (simp add: copy_back.simps [of temp "int (Suc k)"] copy_back.simps [of temp "1 + int k"] temp_at_def take_Suc_conv_app_nth)
qed

lemma long_bits: "is_long d \<Longrightarrow> d \<noteq> LONG_MIN \<Longrightarrow> length (radix 2 (nat \<bar>d\<bar>)) \<le> 63"
  by (rule length_radix_le) (auto simp: is_long_def int_limits nat_less_iff)

section \<open>Facts about the size macros and the delay loop\<close>

lemma unat_shift: "unat (drop_bit n (w :: 64 word)) = unat w div 2 ^ n"
  unfolding unat_drop_bit_eq by (rule drop_bit_eq_div)

lemma DELAY_LOOP_from_eq:
  "DELAY_LOOP_from i v n out c = (out @ concat (replicate (n - i) (beep v)), c + (n - i))"
proof (induction i v n out c rule: DELAY_LOOP_from.induct)
  case (1 i v n out c)
  show ?case
  proof (cases "i < n")
    case True
    then have "n - i = Suc (n - Suc i)" by simp
    with True "1.IH" show ?thesis
      by (simp add: DELAY_LOOP_from.simps [of i])
  next
    case False
    then show ?thesis by (simp add: DELAY_LOOP_from.simps [of i])
  qed
qed

section \<open>Properties\<close>

text \<open>
  On times in the normal form the system calls deliver, \<^verbatim>\<open>timeval_subtract\<close> returns the exact
  difference, itself in normal form, and its flag is 1 exactly when the difference is negative.
\<close>

theorem timeval_subtract_correct:
  assumes "tv_norm x" and "tv_norm y"
  shows "case timeval_subtract x y of (r, y', neg) \<Rightarrow>
           usecs r = usecs x - usecs y \<and> tv_norm r \<and> usecs y' = usecs y \<and>
           neg = (if usecs x < usecs y then 1 else 0)"
proof -
  let ?y = "carry_up x y"
  have y: "usecs ?y = usecs y" by (rule usecs_carry_up)
  note c = carry_norm [OF assms]
  have "tv_sec x < tv_sec ?y \<longleftrightarrow> usecs x < usecs ?y"
    using c(2,3) by (auto simp: usecs_def)
  with y c show ?thesis
    by (auto simp: timeval_subtract_def Let_def tv_norm_def usecs_def algebra_simps)
qed

theorem timeval_subtract_correct_witness:
  "case timeval_subtract \<lparr>tv_sec = 3, tv_usec = 100\<rparr> \<lparr>tv_sec = 1, tv_usec = 200\<rparr> of (r, y', neg) \<Rightarrow>
     usecs r = 1999900 \<and> tv_norm r \<and> usecs y' = 1000200 \<and> neg = (0::int)"
  using timeval_subtract_correct [of "\<lparr>tv_sec = 3, tv_usec = 100\<rparr>" "\<lparr>tv_sec = 1, tv_usec = 200\<rparr>"]
  by (simp add: tv_norm_def usecs_def)

text \<open>
  C29: no call of \<^verbatim>\<open>dec2bin\<close> ends well. For the smallest \<^verbatim>\<open>long\<close> the negation overflows. For every other one the
  function fits the digits into its 80-byte buffer and stores the sign character and the binary digits of the
  magnitude, most significant first, which read back as the magnitude; but then, with no character left, it reads the
  byte in front of the buffer.
\<close>

theorem dec2bin_underruns:
  assumes "is_long d"
  shows "if d = LONG_MIN then dec2bin d = (Inl SignedOverflow, [])
         else \<exists>bits. dec2bin d = (Inl Underrun, (if d < 0 then CHR ''-'' else CHR '' '') # bits) \<and>
           int (of_radix 2 (map undigit bits)) = \<bar>d\<bar> \<and> set bits \<subseteq> {CHR ''0'', CHR ''1''} \<and> length bits \<le> 63"
proof (cases "d = LONG_MIN")
  case True
  then show ?thesis by (simp add: dec2bin_def)
next
  case False
  let ?ds = "radix 2 (nat \<bar>d\<bar>)"
  let ?sign = "if d < 0 then CHR ''-'' else CHR '' ''"
  have len: "length ?ds \<le> 63" using assms False by (rule long_bits)
  then have digits: "bin_digits (nat \<bar>d\<bar>) [] = Inr (rev (map digit ?ds))"
    by (simp add: bin_digits_eq TEMP_SIZE_def)
  have sign: "put_temp ?sign (rev (map digit ?ds)) = Inr (rev (?sign # map digit ?ds))"
    using len by (simp add: put_temp_def TEMP_SIZE_def)
  have "copy_back (rev (?sign # map digit ?ds)) (int (Suc (length ?ds))) [] = (Inl Underrun, ?sign # map digit ?ds)"
    by (subst copy_back_eq) simp_all
  then have "dec2bin d = (Inl Underrun, ?sign # map digit ?ds)"
    using False digits sign by (simp add: dec2bin_def Let_def)
  moreover have "map undigit (map digit ?ds) = ?ds"
    using radix_digits [of 2 _ "nat \<bar>d\<bar>"] by (fastforce simp: undigit_digit intro: map_idI)
  moreover have "set (map digit ?ds) \<subseteq> {CHR ''0'', CHR ''1''}"
    using radix_digits [of 2 _ "nat \<bar>d\<bar>"] bin_digit_chars by auto
  ultimately show ?thesis using len False
    by (simp only: if_False) (intro exI [of _ "map digit ?ds"], simp add: of_radix_radix)
qed

theorem dec2bin_underruns_witness:
  "\<exists>bits. dec2bin (- 6) = (Inl Underrun, CHR ''-'' # bits) \<and>
     int (of_radix 2 (map undigit bits)) = 6 \<and> set bits \<subseteq> {CHR ''0'', CHR ''1''} \<and> length bits \<le> 63"
  using dec2bin_underruns [of "- 6"] by (simp add: is_long_def int_limits)

text \<open>
  The column \<^verbatim>\<open>PRINT_CTX\<close> documents as the preemption depth carries no depth: the lines printed
  at any two nonzero preemption counts are the same, in both versions of the macro.
\<close>

theorem print_ctx_hides_depth:
  "PRINT_CTX (k\<lparr>preempt_count := Suc m\<rparr>) f = PRINT_CTX (k\<lparr>preempt_count := Suc n\<rparr>) f \<and>
   old_PRINT_CTX (k\<lparr>preempt_count := Suc m\<rparr>) = old_PRINT_CTX (k\<lparr>preempt_count := Suc n\<rparr>)"
  by (simp add: PRINT_CTX_def old_PRINT_CTX_def ctx_columns_def ctx_task_def ctx_depth_def
      ctx_intr_def old_ctx_intr_def)

text \<open>
  The size macros show the difference in whole KiB, MiB, GiB and TiB, rounded down, whenever
  the high address is not below the low one.
\<close>

theorem show_delta_units:
  assumes "low \<le> hi"
  shows "map unat (SHOW_DELTA_b low hi) = [unat low, unat hi, unat hi - unat low] \<and>
         map unat (SHOW_DELTA_K low hi) = [unat low, unat hi, (unat hi - unat low) div 1024] \<and>
         map unat (SHOW_DELTA_MGT 64 low hi) =
           [unat low, unat hi, (unat hi - unat low) div 1024 ^ 2,
            (unat hi - unat low) div 1024 ^ 3, (unat hi - unat low) div 1024 ^ 4]"
proof -
  have "unat (hi - low) = unat hi - unat low" using assms by (rule unat_sub)
  then show ?thesis
    by (simp add: SHOW_DELTA_b_def SHOW_DELTA_K_def SHOW_DELTA_MGT_def unat_shift)
qed

theorem show_delta_units_witness:
  "map unat (SHOW_DELTA_K 4096 8192) = [4096, 8192, 4]"
  using show_delta_units [of 4096 8192] by simp

lemma show_delta_items:
  "fmt_items ''delta: %lld ns'' = map Lit ''delta: '' @ [Conv False False 0 None (CHR ''d'')] @ map Lit '' ns''"
  "fmt_items '' (~ %lld us'' = map Lit '' (~ '' @ [Conv False False 0 None (CHR ''d'')] @ map Lit '' us''"
  "fmt_items '' ~ %lld ms'' = map Lit '' ~ '' @ [Conv False False 0 None (CHR ''d'')] @ map Lit '' ms''"
  "fmt_items '')\<newline>'' = map Lit '')\<newline>''"
  by code_simp+

lemma show_delta_emits:
  "emit ''delta: %lld ns'' [FInt i] = ''delta: '' @ dec_int i @ '' ns''"
  "emit '' (~ %lld us'' [FInt i] = '' (~ '' @ dec_int i @ '' us''"
  "emit '' ~ %lld ms'' [FInt i] = '' ~ '' @ dec_int i @ '' ms''"
  "emit '')\<newline>'' [] = '')\<newline>''"
  by (simp_all only: emit_def printf_def show_delta_items) (simp_all add: justify_def pad_left_def)

text \<open>
  What \<^verbatim>\<open>SHOW_DELTA\<close> prints of a later and an earlier time: the nanoseconds, from one microsecond on the
  whole microseconds, from one millisecond on the milliseconds too. Below a microsecond the line is not
  ended.
\<close>

theorem show_delta_output:
  assumes "earlier \<le> later" and "time_after later earlier"
  shows "header_SHOW_DELTA 64 time_after later earlier =
    (let d = later - earlier in
     ''delta: '' @ dec_int d @ '' ns'' @
     (if d < 1000 then []
      else '' (~ '' @ dec_int (d div 1000) @ '' us'' @
        (if d < 1000000 then [] else '' ~ '' @ dec_int (d div 1000000) @ '' ms'') @ '')\<newline>''))"
proof -
  have "1 \<le> d div 1000 \<longleftrightarrow> \<not> d < 1000" "1 \<le> d div 1000000 \<longleftrightarrow> \<not> d < 1000000" for d :: int by auto
  then show ?thesis using assms
    by (simp add: header_SHOW_DELTA_def SHOW_DELTA_def Let_def show_delta_emits sdiv_nonneg)
qed

text \<open>
  \<^verbatim>\<open>DELAY_LOOP(val, n)\<close> terminates after exactly \<^term>\<open>n\<close> beeps.
\<close>

theorem delay_loop_beeps:
  "DELAY_LOOP v n = (concat (replicate n (beep v)), n)"
  by (simp add: DELAY_LOOP_def DELAY_LOOP_from_eq)

end
