(* ===== verification/Debug_Print.thy ===== *)
theory Debug_Print
  imports Convenient
begin

text \<open>
  The printing macros of the two \<^verbatim>\<open>convenient.h\<close> headers (\<^verbatim>\<open>DBGPRINT\<close>, \<^verbatim>\<open>MSG\<close>, \<^verbatim>\<open>MSG_SHORT\<close>, \<^verbatim>\<open>QP\<close>, \<^verbatim>\<open>QPDS\<close>, \<^verbatim>\<open>HexDump\<close>,
  \<^verbatim>\<open>VP\<close>) and the rest of the older header (\<^verbatim>\<open>assert\<close>, \<^verbatim>\<open>beep\<close>, \<^verbatim>\<open>DELAY_LOOP\<close>, \<^verbatim>\<open>DELAY_SEC\<close>). The symbols that a Makefile defines are
  a set; the conditional directives are evaluated in the order of the header, the \<^verbatim>\<open>#undef\<close> lines
  included, and a macro yields the list of effects its expansion has.
\<close>

section \<open>Effects\<close>

type_synonym symbols = "string set"

datatype effect =
    Trace_printk string
  | Printk string
  | Printk_ratelimited string
  | Fprintf_stderr string
  | To_stdout string
  | Dump_stack
  | Trace_dump_stack
  | Hex_dump_bytes string addr nat
  | Set_task_interruptible
  | Schedule_timeout int

section \<open>The header of the repository\<close>

text \<open>Line 61 of the header.\<close>

definition after_undef :: "symbols \<Rightarrow> symbols" where
  "after_undef defs = defs - {''USE_FTRACE_BUFFER''}"

definition DBGPRINT :: "symbols \<Rightarrow> string \<Rightarrow> farg list \<Rightarrow> effect list" where
  "DBGPRINT defs fmt args =
     (if ''USE_FTRACE_BUFFER'' \<in> after_undef defs then [Trace_printk (emit fmt args)]
      else (let USE_RATELIMITING = (1::int) in
            if USE_RATELIMITING \<noteq> 0 then [Printk_ratelimited (emit fmt args)] else [Printk (emit fmt args)]))"

text \<open>Where a macro is used: the function and the line.\<close>

record place =
  p_func :: string
  p_line :: nat

definition MSG :: "symbols \<Rightarrow> place \<Rightarrow> string \<Rightarrow> farg list \<Rightarrow> effect list" where
  "MSG defs p fmt args =
     (if ''DEBUG'' \<in> defs then
        (if ''__KERNEL__'' \<in> defs then DBGPRINT defs (''%s:%d : '' @ fmt) (FStr (p_func p) # FInt (int (p_line p)) # args)
         else [Fprintf_stderr (emit (''%s:%d : '' @ fmt) (FStr (p_func p) # FInt (int (p_line p)) # args))])
      else [])"

definition MSG_SHORT :: "symbols \<Rightarrow> string \<Rightarrow> farg list \<Rightarrow> effect list" where
  "MSG_SHORT defs fmt args =
     (if ''DEBUG'' \<in> defs then
        (if ''__KERNEL__'' \<in> defs then DBGPRINT defs fmt args else [Fprintf_stderr (emit fmt args)])
      else [])"

definition QP :: "symbols \<Rightarrow> place \<Rightarrow> effect list" where
  "QP defs p = MSG defs p ''\<newline>'' []"

text \<open>
  \<^verbatim>\<open>QPDS\<close> and \<^verbatim>\<open>HexDump\<close> are not defined in all configurations; \<^term>\<open>None\<close> is a use that does not compile.
\<close>

definition QPDS :: "symbols \<Rightarrow> place \<Rightarrow> effect list option" where
  "QPDS defs p =
     (if ''DEBUG'' \<in> defs then
        (if ''__KERNEL__'' \<in> defs then
           Some (MSG defs p ''\<newline>'' [] @ [if ''USE_FTRACE_BUFFER'' \<notin> after_undef defs then Dump_stack else Trace_dump_stack])
         else None)
      else Some [])"

definition HexDump :: "symbols \<Rightarrow> addr \<Rightarrow> nat \<Rightarrow> effect list option" where
  "HexDump defs from_addr len =
     (if ''DEBUG'' \<in> defs \<and> ''__KERNEL__'' \<in> defs then Some [Hex_dump_bytes '' '' from_addr len] else None)"

section \<open>The older header\<close>

definition old_after_undef :: "symbols \<Rightarrow> symbols" where
  "old_after_undef defs = (if ''__KERNEL__'' \<in> defs then defs - {''USE_FTRACE_PRINT''} else defs)"

definition old_DBGPRINT :: "symbols \<Rightarrow> string \<Rightarrow> farg list \<Rightarrow> effect list" where
  "old_DBGPRINT defs fmt args =
     (if ''USE_FTRACE_PRINT'' \<in> old_after_undef defs then [Trace_printk (emit fmt args)]
      else (let USE_RATELIMITING = (1::int) in
            if USE_RATELIMITING \<noteq> 0 then [Printk_ratelimited (emit fmt args)] else [Printk (emit fmt args)]))"

text \<open>
  The whole block of the header, from line 18 to the \<^verbatim>\<open>#endif\<close> of line 170, is for the kernel only; the
  macros of a program in user space are those defined at its end, where \<^verbatim>\<open>DEBUG\<close> is not asked for.
\<close>

definition user_MSG :: "place \<Rightarrow> string \<Rightarrow> farg list \<Rightarrow> effect list" where
  "user_MSG p fmt args = [Fprintf_stderr (emit (''%s:%d : '' @ fmt) (FStr (p_func p) # FInt (int (p_line p)) # args))]"

definition user_MSG_SHORT :: "string \<Rightarrow> farg list \<Rightarrow> effect list" where
  "user_MSG_SHORT fmt args = [Fprintf_stderr (emit fmt args)]"

definition old_MSG :: "symbols \<Rightarrow> place \<Rightarrow> string \<Rightarrow> farg list \<Rightarrow> effect list" where
  "old_MSG defs p fmt args =
     (if ''__KERNEL__'' \<in> defs then
        (if ''DEBUG'' \<in> defs then old_DBGPRINT defs (''%s:%d : '' @ fmt) (FStr (p_func p) # FInt (int (p_line p)) # args) else [])
      else user_MSG p fmt args)"

definition old_MSG_SHORT :: "symbols \<Rightarrow> string \<Rightarrow> farg list \<Rightarrow> effect list" where
  "old_MSG_SHORT defs fmt args =
     (if ''__KERNEL__'' \<in> defs then (if ''DEBUG'' \<in> defs then old_DBGPRINT defs fmt args else [])
      else user_MSG_SHORT fmt args)"

definition old_QP :: "symbols \<Rightarrow> place \<Rightarrow> effect list" where
  "old_QP defs p = old_MSG defs p ''\<newline>'' []"

definition old_QPDS :: "symbols \<Rightarrow> place \<Rightarrow> effect list option" where
  "old_QPDS defs p =
     (if ''__KERNEL__'' \<in> defs then Some (if ''DEBUG'' \<in> defs then old_MSG defs p ''\<newline>'' [] @ [Dump_stack] else []) else None)"

definition old_HexDump :: "symbols \<Rightarrow> addr \<Rightarrow> nat \<Rightarrow> effect list option" where
  "old_HexDump defs from_addr len =
     (if ''__KERNEL__'' \<in> defs \<and> ''DEBUG'' \<in> defs then Some [Hex_dump_bytes '' '' from_addr len] else None)"

definition VP :: "bool \<Rightarrow> string \<Rightarrow> farg list \<Rightarrow> effect list" where
  "VP verbose str args = (if verbose then [To_stdout (emit str args)] else [])"

definition old_assert :: "symbols \<Rightarrow> bool \<Rightarrow> string \<Rightarrow> string \<Rightarrow> place \<Rightarrow> effect list" where
  "old_assert defs expr shown file p =
     (if \<not> expr then
        old_DBGPRINT defs ''********** Assertion [%s] failed! : %s:%s:%d **********\<newline>''
          [FStr shown, FStr file, FStr (p_func p), FInt (int (p_line p))]
      else [])"

definition old_beep :: "symbols \<Rightarrow> int \<Rightarrow> effect list" where
  "old_beep defs what =
     (let c = [FChar (char_of (nat (what mod 256)))] in
      if ''__KERNEL__'' \<in> defs then old_DBGPRINT defs ''%c'' c else [To_stdout (emit ''%c'' c)])"

text \<open>The variant of \<^verbatim>\<open>PRINT_CTX\<close> for \<^verbatim>\<open>trace_printk\<close>, and the choice between the two.\<close>

definition yes_no_arg :: "bool \<Rightarrow> farg" where
  "yes_no_arg b = FStr (if b then ''yes'' else ''no'')"

definition ftrace_PRINT_CTX :: "symbols \<Rightarrow> kctx \<Rightarrow> string \<Rightarrow> effect list" where
  "ftrace_PRINT_CTX defs k func =
     old_DBGPRINT defs ''PRINT_CTX:: [cpu %02d]%s:%d\<newline>'' [FInt (int (cpu_id k)), FStr func, FInt (cur_pid k)] @
     (if \<not> in_interrupt k then old_DBGPRINT defs '' in process context:%c%s%c:%d\<newline>'' (ctx_task k)
      else old_DBGPRINT defs ('' in interrupt context: in_interrupt:%3s. in_irq:%3s. in_softirq:%3s. '' @
             ''in_serving_softirq:%3s. preempt_count=0x%x\<newline>'')
             [yes_no_arg (in_interrupt k), yes_no_arg (in_hardirq k), yes_no_arg (in_softirq k), yes_no_arg (in_serving_softirq k), FUInt (ctx_depth k)])"

definition header_PRINT_CTX :: "symbols \<Rightarrow> kctx \<Rightarrow> string \<Rightarrow> effect list" where
  "header_PRINT_CTX defs k func =
     (if ''USE_FTRACE_PRINT'' \<notin> old_after_undef defs then [Printk_ratelimited (old_PRINT_CTX k)]
      else ftrace_PRINT_CTX defs k func)"

text \<open>The counter is unsigned, so the count is compared as an unsigned number; the inner loops only burn time.\<close>

primrec old_delay :: "nat \<Rightarrow> symbols \<Rightarrow> int \<Rightarrow> effect list \<Rightarrow> effect list" where
  "old_delay 0 defs val out = out"
| "old_delay (Suc n) defs val out = old_delay n defs val (out @ old_beep defs val)"

definition old_DELAY_LOOP :: "symbols \<Rightarrow> int \<Rightarrow> int \<Rightarrow> effect list" where
  "old_DELAY_LOOP defs val loop_count = old_delay (nat (loop_count mod 2 ^ 32)) defs val []"

definition DELAY_SEC :: "kctx \<Rightarrow> int \<Rightarrow> int \<Rightarrow> effect list" where
  "DELAY_SEC k HZ val =
     (if \<not> in_interrupt k then [Set_task_interruptible, Schedule_timeout (val * HZ)] else [])"

section \<open>Properties\<close>

text \<open>
  The documentation of both headers tells module authors to define \<^verbatim>\<open>USE_FTRACE_PRINT\<close> in the
  Makefile to get \<^verbatim>\<open>trace_printk\<close>. It has no effect: whatever symbols are defined, in a kernel module
  \<^verbatim>\<open>DBGPRINT\<close> of both headers is a rate-limited \<^verbatim>\<open>printk\<close>, and \<^verbatim>\<open>MSG\<close>, \<^verbatim>\<open>QPDS\<close> and \<^verbatim>\<open>PRINT_CTX\<close> follow it.
\<close>

theorem tracing_never_selected:
  "DBGPRINT (insert ''__KERNEL__'' defs) fmt args = [Printk_ratelimited (emit fmt args)] \<and>
   old_DBGPRINT (insert ''__KERNEL__'' defs) fmt args = [Printk_ratelimited (emit fmt args)] \<and>
   header_PRINT_CTX (insert ''__KERNEL__'' defs) k func = [Printk_ratelimited (old_PRINT_CTX k)] \<and>
   QPDS (insert ''DEBUG'' (insert ''__KERNEL__'' defs)) p =
     Some [Printk_ratelimited (emit ''%s:%d : \<newline>'' [FStr (p_func p), FInt (int (p_line p))]), Dump_stack]"
  by (simp add: DBGPRINT_def old_DBGPRINT_def QPDS_def MSG_def header_PRINT_CTX_def after_undef_def old_after_undef_def)

text \<open>
  Without \<^verbatim>\<open>DEBUG\<close> the macros of the first header print nothing, in the kernel and in user space; those
  of the older header print nothing in the kernel but are always on in user space, where they are
  defined without asking for \<^verbatim>\<open>DEBUG\<close>.
\<close>

theorem debug_switch:
  assumes "''DEBUG'' \<notin> defs"
  shows "MSG defs p fmt args = [] \<and> MSG_SHORT defs fmt args = [] \<and> QP defs p = [] \<and> QPDS defs p = Some [] \<and>
    (if ''__KERNEL__'' \<in> defs
     then old_MSG defs p fmt args = [] \<and> old_MSG_SHORT defs fmt args = [] \<and> old_QPDS defs p = Some []
     else old_MSG_SHORT defs fmt args = [Fprintf_stderr (emit fmt args)] \<and> old_QPDS defs p = None)"
  using assms by (simp add: MSG_def MSG_SHORT_def QP_def QPDS_def old_MSG_def old_MSG_SHORT_def user_MSG_SHORT_def old_QPDS_def)

theorem debug_switch_witness:
  "MSG {''__KERNEL__''} \<lparr>p_func = ''f'', p_line = 3\<rparr> ''x'' [] = [] \<and> old_MSG_SHORT {} ''x'' [] = [Fprintf_stderr (emit ''x'' [])]"
  using debug_switch [of "{''__KERNEL__''}" "\<lparr>p_func = ''f'', p_line = 3\<rparr>" "''x''" "[]"]
    debug_switch [of "{}" "\<lparr>p_func = ''f'', p_line = 3\<rparr>" "''x''" "[]"]
  by simp

lemma old_delay_eq: "old_delay n defs val out = out @ concat (replicate n (old_beep defs val))"
  by (induction n arbitrary: out) simp_all

text \<open>\<^verbatim>\<open>DELAY_SEC\<close> must not sleep in interrupt context, and does not.\<close>

lemma DELAY_SEC_atomic: "in_interrupt k \<Longrightarrow> DELAY_SEC k HZ val = []"
  by (simp add: DELAY_SEC_def)

end
