(* ===== verification/Mem_Sequence.thy ===== *)
theory Mem_Sequence
  imports C_Format
begin

text \<open>
  \<^verbatim>\<open>mm/vm_usermode/mem_sequence.c\<close>: the table of five memory areas, the exchange routine, the
  bubble sort of \<^verbatim>\<open>print_sorted\<close> and the program's \<^verbatim>\<open>main\<close>. Pointers are 64-bit words, so the
  round trip of a code address through \<^verbatim>\<open>int\<close> that the program makes is the truncation and sign
  extension of the machine.
\<close>

section \<open>Data and operations\<close>

type_synonym ptr64 = "64 word"

record memtype_ptr =
  ptr :: ptr64
  str :: string

definition MEM_TYPES :: nat where "MEM_TYPES = 5"

definition STR_STACK :: string where "STR_STACK = ''stack''"
definition STR_HEAP :: string where "STR_HEAP = ''heap''"
definition STR_BSS :: string where "STR_BSS = ''bss''"
definition STR_CONST :: string where "STR_CONST = ''const's''"
definition STR_CODE :: string where "STR_CODE = ''code''"

text \<open>\<^verbatim>\<open>mem_xchg(&t[i], &t[k])\<close>, field by field through the temporary.\<close>

definition mem_xchg :: "memtype_ptr list \<Rightarrow> nat \<Rightarrow> nat \<Rightarrow> memtype_ptr list" where
  "mem_xchg t i k =
     (let tmp = \<lparr>ptr = ptr (t ! i), str = str (t ! i)\<rparr>;
          t1 = t[i := (t ! i)\<lparr>str := str (t ! k), ptr := ptr (t ! k)\<rparr>];
          t2 = t1[k := (t1 ! k)\<lparr>str := str tmp, ptr := ptr tmp\<rparr>]
      in t2)"

text \<open>The inner \<^verbatim>\<open>for\<close> loop from index \<^term>\<open>i\<close> and the outer \<^verbatim>\<open>while (j--)\<close> loop.\<close>

function sort_pass :: "nat \<Rightarrow> nat \<Rightarrow> memtype_ptr list \<Rightarrow> memtype_ptr list" where
  "sort_pass i j t =
     (if i < j
      then sort_pass (Suc i) j
             (if ptr (t ! i) < ptr (t ! (i + 1)) then mem_xchg t i (i + 1) else t)
      else t)"
  by pat_completeness auto
termination
  by (relation "measure (\<lambda>(i, j, t). j - i)") auto

declare sort_pass.simps [simp del]

primrec sort_table :: "nat \<Rightarrow> memtype_ptr list \<Rightarrow> memtype_ptr list" where
  "sort_table 0 t = t"
| "sort_table (Suc j) t = sort_table j (sort_pass 0 j t)"

text \<open>Where the example objects live: what the linker, the loader and the stack decide.\<close>

record layout =
  at_bss :: ptr64
  at_const :: ptr64
  at_main :: ptr64
  at_stack :: ptr64

text \<open>
  The table as \<^verbatim>\<open>print_sorted\<close> fills it. The code row is \<^verbatim>\<open>(int *)stack_example\<close>: the
  parameter is an \<^verbatim>\<open>int\<close>, and converting it to a pointer sign-extends it.
\<close>

definition fill_table :: "layout \<Rightarrow> ptr64 \<Rightarrow> 32 word \<Rightarrow> memtype_ptr list" where
  "fill_table l heap_example stack_example =
     [\<lparr>ptr = heap_example, str = STR_HEAP\<rparr>,
      \<lparr>ptr = at_bss l, str = STR_BSS\<rparr>,
      \<lparr>ptr = at_stack l, str = STR_STACK\<rparr>,
      \<lparr>ptr = scast stack_example, str = STR_CODE\<rparr>,
      \<lparr>ptr = at_const l, str = STR_CONST\<rparr>]"

text \<open>One printed row: \<^verbatim>\<open>(int)ptr\<close> keeps the low 32 bits.\<close>

definition row :: "nat \<Rightarrow> memtype_ptr \<Rightarrow> string option" where
  "row i m =
     printf ''%d.(0x%.8x) %s\<newline>''
       [FInt (int i + 1), FUInt (unat (ucast (ptr m) :: 32 word)), FStr (str m)]"

definition print_sorted :: "layout \<Rightarrow> ptr64 \<Rightarrow> 32 word \<Rightarrow> memtype_ptr list \<times> string option list" where
  "print_sorted l heap_example stack_example =
     (let t = sort_table MEM_TYPES (fill_table l heap_example stack_example)
      in (t, map (\<lambda>i. row i (t ! i)) [0..<MEM_TYPES]))"

definition mem_sequence_main :: "layout \<Rightarrow> ptr64 \<Rightarrow> memtype_ptr list \<times> string option list" where
  "mem_sequence_main l dyn_allocated =
     print_sorted l dyn_allocated (ucast (at_main l))"

section \<open>The exchange and one pass\<close>

lemma overwrite_entry [simp]: "(x::memtype_ptr)\<lparr>str := str y, ptr := ptr y\<rparr> = y"
  by simp

lemma rebuild_entry [simp]: "\<lparr>ptr = ptr x, str = str x\<rparr> = (x::memtype_ptr)"
  by simp

lemma mem_xchg_eq: "mem_xchg t i k = t[i := t ! k, k := t ! i]"
  by (cases "i = k"; cases "i < length t"; cases "k < length t")
    (simp_all add: mem_xchg_def list_update_beyond)

lemma length_mem_xchg [simp]: "length (mem_xchg t i k) = length t"
  by (simp add: mem_xchg_eq)

lemma mset_mem_xchg [simp]: "i < length t \<Longrightarrow> k < length t \<Longrightarrow> mset (mem_xchg t i k) = mset t"
  by (simp add: mem_xchg_eq mset_swap_upd)

lemma length_sort_pass [simp]: "length (sort_pass i j t) = length t"
  by (induction i j t rule: sort_pass.induct) (subst sort_pass.simps, auto)

lemma mset_sort_pass: "j < length t \<Longrightarrow> mset (sort_pass i j t) = mset t"
  by (induction i j t rule: sort_pass.induct) (subst sort_pass.simps, auto)

lemma sort_pass_above: "j < n \<Longrightarrow> sort_pass i j t ! n = t ! n"
  by (induction i j t rule: sort_pass.induct) (subst sort_pass.simps, auto simp: mem_xchg_eq)

text \<open>
  A pass carries the smallest pointer of the prefix to position \<^term>\<open>j\<close>: every entry before the
  current index is at least the current one.
\<close>

lemma sort_pass_min:
  assumes "j < length t" and "i \<le> j" and "\<And>k. k < i \<Longrightarrow> ptr (t ! i) \<le> ptr (t ! k)"
  shows "\<forall>k \<le> j. ptr (sort_pass i j t ! j) \<le> ptr (sort_pass i j t ! k)"
  using assms
proof (induction i j t rule: sort_pass.induct)
  case (1 i j t)
  show ?case
  proof (cases "i < j")
    case True
    let ?t = "if ptr (t ! i) < ptr (t ! (i + 1)) then mem_xchg t i (i + 1) else t"
    have "ptr (?t ! Suc i) \<le> ptr (?t ! k)" if "k < Suc i" for k
      using that "1.prems" True
      by (cases "k = i") (auto simp: mem_xchg_eq not_less intro: order.trans)
    then show ?thesis
      using "1.IH" [OF True] "1.prems" True by (simp add: sort_pass.simps [of i j t])
  next
    case False
    then have "sort_pass i j t = t" by (subst sort_pass.simps) simp
    with False "1.prems" show ?thesis
      by (metis le_neq_implies_less not_less order_refl)
  qed
qed

section \<open>The whole sort\<close>

definition sorted_from :: "nat \<Rightarrow> memtype_ptr list \<Rightarrow> bool" where
  "sorted_from j t \<longleftrightarrow>
     (\<forall>m n. j \<le> n \<and> m \<le> n \<and> n < length t \<longrightarrow> ptr (t ! n) \<le> ptr (t ! m))"

lemma length_sort_table [simp]: "length (sort_table j t) = length t"
  by (induction j arbitrary: t) auto

lemma mset_sort_table: "j \<le> length t \<Longrightarrow> mset (sort_table j t) = mset t"
  by (induction j arbitrary: t) (auto simp: mset_sort_pass)

text \<open>A pass up to \<^term>\<open>j\<close> permutes the prefix only, so entries above stay below it.\<close>

lemma sort_pass_prefix:
  "m \<le> j \<Longrightarrow> j < length t \<Longrightarrow> \<exists>m' \<le> j. sort_pass i j t ! m = t ! m'"
proof (induction i j t arbitrary: m rule: sort_pass.induct)
  case (1 i j t)
  show ?case
  proof (cases "i < j")
    case True
    let ?t = "if ptr (t ! i) < ptr (t ! (i + 1)) then mem_xchg t i (i + 1) else t"
    have "j < length ?t" using "1.prems" by simp
    from "1.IH" [OF True "1.prems"(1) this] obtain m'
      where m': "m' \<le> j" "sort_pass (Suc i) j ?t ! m = ?t ! m'"
      by blast
    have "\<exists>m'' \<le> j. ?t ! m' = t ! m''"
      using m'(1) True "1.prems"
      by (cases "m' = i"; cases "m' = Suc i") (auto simp: mem_xchg_eq intro: exI [of _ i] exI [of _ "Suc i"])
    with m' True show ?thesis by (simp add: sort_pass.simps [of i j t])
  next
    case False
    then show ?thesis using "1.prems" by (auto simp: sort_pass.simps [of i j t])
  qed
qed

lemma sorted_from_pass:
  assumes "sorted_from (Suc j) t" and "j < length t"
  shows "sorted_from j (sort_pass 0 j t)"
  unfolding sorted_from_def
proof (intro allI impI)
  fix m n
  assume mn: "j \<le> n \<and> m \<le> n \<and> n < length (sort_pass 0 j t)"
  show "ptr (sort_pass 0 j t ! n) \<le> ptr (sort_pass 0 j t ! m)"
  proof (cases "n = j")
    case True
    with mn assms(2) sort_pass_min [of j t 0] show ?thesis by simp
  next
    case False
    with mn have n: "sort_pass 0 j t ! n = t ! n" "Suc j \<le> n" "n < length t"
      by (simp_all add: sort_pass_above)
    obtain m' where "m' \<le> n" and "sort_pass 0 j t ! m = t ! m'"
      using sort_pass_prefix [of m j t 0] sort_pass_above [of j m 0 t] mn assms(2)
      by (metis False le_less_linear le_trans)
    with n assms(1) show ?thesis by (auto simp: sorted_from_def)
  qed
qed

lemma sorted_from_table:
  "j \<le> length t \<Longrightarrow> sorted_from j t \<Longrightarrow> sorted_from 0 (sort_table j t)"
  by (induction j arbitrary: t) (auto simp: sorted_from_pass)

lemma sort_table_sorted: "sorted_from 0 (sort_table (length t) t)"
  by (rule sorted_from_table) (auto simp: sorted_from_def)

lemma length_fill_table: "length (fill_table l h c) = MEM_TYPES"
  by (simp add: fill_table_def MEM_TYPES_def)

lemma narrow_roundtrip:
  "sint (scast (ucast (w :: 64 word) :: 32 word) :: 64 word) = signed_take_bit 31 (sint w)"
  by (rule bit_eqI)
    (auto simp: bit_sint_iff bit_signed_iff bit_unsigned_iff bit_signed_take_bit_iff min_def
      not_less dest: le_antisym)

section \<open>Properties\<close>

text \<open>The text of a row: its number, the low 32 bits of the address with eight digits, the name.\<close>

lemma row_items: "fmt_items ''%d.(0x%.8x) %s\<newline>'' =
    Conv False False 0 None (CHR ''d'') # map Lit ''.(0x'' @ Conv False False 0 (Some 8) (CHR ''x'') # map Lit '') '' @
    [Conv False False 0 None (CHR ''s''), Lit (CHR 0x0A)]"
  by code_simp

lemma row_text:
  "row i m = Some (dec (Suc i) @ ''.(0x'' @ pad_left (CHR ''0'') 8 (hex (unat (ptr m) mod 2 ^ 32)) @ '') '' @ str m @ ''\<newline>'')"
proof -
  have "unat (ucast (ptr m) :: 32 word) = unat (ptr m) mod 2 ^ 32" by (simp add: unsigned_ucast_eq take_bit_eq_mod)
  moreover have "dec_int (int i + 1) = dec (Suc i)" by (simp add: dec_int_def nat_add_distrib)
  ultimately show ?thesis by (simp add: row_def printf_def row_items justify_def with_prec_def pad_left_def)
qed

text \<open>
  C23: \<^verbatim>\<open>print_sorted\<close> leaves the table a permutation of the five areas it stored, in
  descending order of address, whatever the addresses are, and prints exactly one row per entry of that table, in its
  order: the number of the row, the low 32 bits of the address and the name of the area.
\<close>

theorem print_sorted_correct:
  "\<exists>t. mset t = mset (fill_table l h c) \<and> sorted_wrt (\<lambda>a b. ptr b \<le> ptr a) t \<and>
     print_sorted l h c = (t, map (\<lambda>(i, m). Some (dec (Suc i) @ ''.(0x'' @
       pad_left (CHR ''0'') 8 (hex (unat (ptr m) mod 2 ^ 32)) @ '') '' @ str m @ ''\<newline>'')) (zip [0, 1, 2, 3, 4] t))"
proof -
  let ?t = "sort_table MEM_TYPES (fill_table l h c)"
  have "sorted_from 0 ?t"
    using sort_table_sorted [of "fill_table l h c"] by (simp only: length_fill_table)
  then have "sorted_wrt (\<lambda>a b. ptr b \<le> ptr a) ?t"
    by (auto simp: sorted_from_def sorted_wrt_iff_nth_less)
  moreover have "mset ?t = mset (fill_table l h c)"
    by (rule mset_sort_table) (simp add: length_fill_table)
  moreover have len: "length ?t = 5" by (simp add: length_fill_table MEM_TYPES_def)
  have "\<exists>t0 t1 t2 t3 t4. t = [t0, t1, t2, t3, t4]" if "length t = 5" for t :: "memtype_ptr list"
    using that by (auto simp: numeral_eq_Suc length_Suc_conv)
  with len obtain t0 t1 t2 t3 t4 where "?t = [t0, t1, t2, t3, t4]" by blast
  then have "map (\<lambda>i. row i (?t ! i)) [0..<MEM_TYPES] = map (\<lambda>(i, m). row i m) (zip [0, 1, 2, 3, 4] ?t)"
    by (simp add: MEM_TYPES_def numeral_eq_Suc upt_rec)
  ultimately show ?thesis
    unfolding print_sorted_def Let_def row_text by (intro exI [of _ ?t]) simp
qed

text \<open>
  The code row holds the address of \<^verbatim>\<open>main\<close> exactly when that address survives the round
  trip through a 32-bit \<^verbatim>\<open>int\<close>, that is, when it is below 2 GiB or in the top 2 GiB.
\<close>

theorem code_row_faithful:
  "(ptr (fill_table l h (ucast (at_main l)) ! 3) = at_main l) \<longleftrightarrow>
   (- (2 ^ 31) \<le> sint (at_main l) \<and> sint (at_main l) < 2 ^ 31)"
proof -
  have "(ptr (fill_table l h (ucast (at_main l)) ! 3) = at_main l) \<longleftrightarrow>
      sint (scast (ucast (at_main l) :: 32 word) :: 64 word) = sint (at_main l)"
    by (auto simp: fill_table_def dest: arg_cong [where f = "word_of_int :: int \<Rightarrow> 64 word"])
  also have "\<dots> \<longleftrightarrow> signed_take_bit 31 (sint (at_main l)) = sint (at_main l)"
    by (simp add: narrow_roundtrip)
  also have "\<dots> \<longleftrightarrow> - (2 ^ 31) \<le> sint (at_main l) \<and> sint (at_main l) < 2 ^ 31"
    by (simp add: signed_take_bit_int_eq_self_iff)
  finally show ?thesis .
qed

end
