(* ===== verification/Restart_Lib.thy ===== *)
theory Restart_Lib
  imports Convenient "HOL-Library.Monad_Syntax"
begin

text \<open>
  The restart library \<^verbatim>\<open>restart_lib.h\<close>: wrappers that repeat a system call while a signal
  interrupts it, and the block, line, copy and timed routines built on them.

  The kernel is a parameter: a record \<open>os\<close> of system calls over an abstract world. A call
  returns the C result, the value of \<^verbatim>\<open>errno\<close> it leaves and, for \<^verbatim>\<open>read\<close>, the bytes stored in
  the buffer. A loop that a hostile kernel could keep running for ever is a
  \<^theory_text>\<open>partial_function (option)\<close>: not returning is \<^const>\<open>None\<close>.
\<close>

section \<open>System calls\<close>

type_synonym ('w, 'd) call = "'w \<Rightarrow> (int \<times> int \<times> 'd) \<times> 'w"

record 'w os =
  sys_close :: "int \<Rightarrow> ('w, unit) call"
  sys_dup2 :: "int \<Rightarrow> int \<Rightarrow> ('w, unit) call"
  sys_open2 :: "string \<Rightarrow> int \<Rightarrow> ('w, unit) call"
  sys_open3 :: "string \<Rightarrow> int \<Rightarrow> int \<Rightarrow> ('w, unit) call"
  sys_read :: "int \<Rightarrow> nat \<Rightarrow> ('w, string) call"
  sys_write :: "int \<Rightarrow> string \<Rightarrow> ('w, unit) call"
  sys_wait :: "('w, int) call"
  sys_waitpid :: "int \<Rightarrow> int \<Rightarrow> ('w, int) call"
  sys_gettimeofday :: "'w \<Rightarrow> timeval \<times> 'w"
  sys_select :: "int \<Rightarrow> timeval \<Rightarrow> ('w, unit) call"

abbreviation ret :: "int \<times> int \<times> 'd \<Rightarrow> int" where "ret r \<equiv> fst r"
abbreviation err :: "int \<times> int \<times> 'd \<Rightarrow> int" where "err r \<equiv> fst (snd r)"
abbreviation dat :: "int \<times> int \<times> 'd \<Rightarrow> 'd" where "dat r \<equiv> snd (snd r)"

definition interrupted :: "int \<times> int \<times> 'd \<Rightarrow> bool" where
  "interrupted r \<longleftrightarrow> ret r = -1 \<and> err r = EINTR"

definition hard_error :: "int \<times> int \<times> 'd \<Rightarrow> bool" where
  "hard_error r \<longleftrightarrow> ret r = -1 \<and> err r \<noteq> EINTR"

definition BLKSIZE :: nat where "BLKSIZE = 4096"
definition MILLION :: int where "MILLION = 1000000"
definition FD_SETSIZE :: int where "FD_SETSIZE = 1024"

section \<open>Restarted calls\<close>

text \<open>The loop \<^verbatim>\<open>while (retval = f(), retval == -1 && errno == EINTR) ;\<close>\<close>

partial_function (option) restart :: "('w, 'd) call \<Rightarrow> 'w \<Rightarrow> ((int \<times> int \<times> 'd) \<times> 'w) option" where
  "restart f w = (if interrupted (fst (f w)) then restart f (snd (f w)) else Some (f w))"

definition r_close :: "'w os \<Rightarrow> int \<Rightarrow> 'w \<Rightarrow> ((int \<times> int \<times> unit) \<times> 'w) option" where
  "r_close os fildes = restart (sys_close os fildes)"

definition r_dup2 :: "'w os \<Rightarrow> int \<Rightarrow> int \<Rightarrow> 'w \<Rightarrow> ((int \<times> int \<times> unit) \<times> 'w) option" where
  "r_dup2 os fildes fildes2 = restart (sys_dup2 os fildes fildes2)"

definition r_open2 :: "'w os \<Rightarrow> string \<Rightarrow> int \<Rightarrow> 'w \<Rightarrow> ((int \<times> int \<times> unit) \<times> 'w) option" where
  "r_open2 os path oflag = restart (sys_open2 os path oflag)"

definition r_open3 :: "'w os \<Rightarrow> string \<Rightarrow> int \<Rightarrow> int \<Rightarrow> 'w \<Rightarrow> ((int \<times> int \<times> unit) \<times> 'w) option" where
  "r_open3 os path oflag mode = restart (sys_open3 os path oflag mode)"

definition r_read :: "'w os \<Rightarrow> int \<Rightarrow> nat \<Rightarrow> 'w \<Rightarrow> ((int \<times> int \<times> string) \<times> 'w) option" where
  "r_read os fd sz = restart (sys_read os fd sz)"

definition r_wait :: "'w os \<Rightarrow> 'w \<Rightarrow> ((int \<times> int \<times> int) \<times> 'w) option" where
  "r_wait os = restart (sys_wait os)"

definition r_waitpid :: "'w os \<Rightarrow> int \<Rightarrow> int \<Rightarrow> 'w \<Rightarrow> ((int \<times> int \<times> int) \<times> 'w) option" where
  "r_waitpid os pid options = restart (sys_waitpid os pid options)"

text \<open>
  \<^verbatim>\<open>r_write\<close>: the \<^verbatim>\<open>for\<close> loop, whose remaining buffer is the \<^verbatim>\<open>bytestowrite\<close> bytes from \<^verbatim>\<open>bufp\<close> on.
\<close>

partial_function (option) r_write_loop ::
  "'w os \<Rightarrow> int \<Rightarrow> string \<Rightarrow> int \<Rightarrow> 'w \<Rightarrow> ((int \<times> int) \<times> 'w) option" where
  "r_write_loop os fd bufp totalbytes w =
     (if length bufp > 0 then
        (let r = fst (sys_write os fd bufp w); w' = snd (sys_write os fd bufp w) in
         if ret r = -1 \<and> err r \<noteq> EINTR then Some ((-1, err r), w')
         else (let byteswritten = (if ret r = -1 then 0 else ret r) in
               r_write_loop os fd (drop (nat byteswritten) bufp) (totalbytes + byteswritten) w'))
      else Some ((totalbytes, 0), w))"

definition r_write :: "'w os \<Rightarrow> int \<Rightarrow> string \<Rightarrow> 'w \<Rightarrow> ((int \<times> int) \<times> 'w) option" where
  "r_write os fd buf w = r_write_loop os fd buf 0 w"

section \<open>Block and line input, copying\<close>

text \<open>
  \<^verbatim>\<open>readblock\<close>: the bytes stored so far are \<^term>\<open>buf\<close>, so \<^verbatim>\<open>totalbytes\<close> is their number and
  \<^verbatim>\<open>bytestoread\<close> is what is missing to \<^term>\<open>sz\<close>.
\<close>

partial_function (option) readblock_loop ::
  "'w os \<Rightarrow> int \<Rightarrow> nat \<Rightarrow> string \<Rightarrow> 'w \<Rightarrow> ((int \<times> int \<times> string) \<times> 'w) option" where
  "readblock_loop os fd sz buf w =
     (if sz - length buf > 0 then
        (let r = fst (sys_read os fd (sz - length buf) w);
             w' = snd (sys_read os fd (sz - length buf) w) in
         if ret r = 0 \<and> length buf = 0 then Some ((0, err r, buf), w')
         else if ret r = 0 then Some ((-1, EINVAL, buf), w')
         else if ret r = -1 \<and> err r \<noteq> EINTR then Some ((-1, err r, buf), w')
         else readblock_loop os fd sz (if ret r = -1 then buf else buf @ dat r) w')
      else Some ((int (length buf), 0, buf), w))"

definition readblock :: "'w os \<Rightarrow> int \<Rightarrow> nat \<Rightarrow> 'w \<Rightarrow> ((int \<times> int \<times> string) \<times> 'w) option" where
  "readblock os fd sz w = readblock_loop os fd sz [] w"

text \<open>
  \<^verbatim>\<open>readline\<close>: \<^verbatim>\<open>numread\<close> bytes are in the buffer; the guard \<^verbatim>\<open>numread < nbytes - 1\<close> is on
  \<^verbatim>\<open>int\<close>s. The third component of the result is the buffer, with the NUL on success.
\<close>

partial_function (option) readline_loop ::
  "'w os \<Rightarrow> int \<Rightarrow> int \<Rightarrow> string \<Rightarrow> 'w \<Rightarrow> ((int \<times> int \<times> string) \<times> 'w) option" where
  "readline_loop os fd nbytes buf w =
     (if int (length buf) < nbytes - 1 then
        (let r = fst (sys_read os fd 1 w); w' = snd (sys_read os fd 1 w) in
         if ret r = -1 \<and> err r = EINTR then readline_loop os fd nbytes buf w'
         else if ret r = 0 \<and> length buf = 0 then Some ((0, err r, buf), w')
         else if ret r = 0 then Some ((-1, EINVAL, buf), w')
         else if ret r = -1 then Some ((-1, err r, buf), w')
         else if last (buf @ dat r) = CHR 0x0A
           then Some ((int (length (buf @ dat r)), err r, buf @ dat r @ [CHR 0x00]), w')
           else readline_loop os fd nbytes (buf @ dat r) w')
      else Some ((-1, EINVAL, buf), w))"

definition readline :: "'w os \<Rightarrow> int \<Rightarrow> int \<Rightarrow> 'w \<Rightarrow> ((int \<times> int \<times> string) \<times> 'w) option" where
  "readline os fd nbytes w = readline_loop os fd nbytes [] w"

definition readwrite :: "'w os \<Rightarrow> int \<Rightarrow> int \<Rightarrow> 'w \<Rightarrow> ((int \<times> int) \<times> 'w) option" where
  "readwrite os fromfd tofd w =
     do { (r, w1) \<leftarrow> r_read os fromfd BLKSIZE w;
          if ret r < 0 then Some ((-1, err r), w1)
          else if ret r = 0 then Some ((0, err r), w1)
          else do { (s, w2) \<leftarrow> r_write os tofd (dat r) w1;
                    if fst s < 0 then Some ((-1, snd s), w2) else Some ((ret r, snd s), w2) } }"

text \<open>
  \<^verbatim>\<open>totalbytes\<close> is an \<^verbatim>\<open>int\<close>, and a sum that does not fit is a signed overflow. The result
  drops the error that ended the loop.
\<close>

partial_function (option) copyfile_loop ::
  "'w os \<Rightarrow> int \<Rightarrow> int \<Rightarrow> int \<Rightarrow> 'w \<Rightarrow> ((fault + int) \<times> 'w) option" where
  "copyfile_loop os fromfd tofd totalbytes w =
     Option.bind (readwrite os fromfd tofd w) (\<lambda>x.
       if fst (fst x) > 0 then
         (if is_int (totalbytes + fst (fst x))
          then copyfile_loop os fromfd tofd (totalbytes + fst (fst x)) (snd x)
          else Some (Inl SignedOverflow, snd x))
       else Some (Inr totalbytes, snd x))"

definition copyfile :: "'w os \<Rightarrow> int \<Rightarrow> int \<Rightarrow> 'w \<Rightarrow> ((fault + int) \<times> 'w) option" where
  "copyfile os fromfd tofd w = copyfile_loop os fromfd tofd 0 w"

definition readwriteblock :: "'w os \<Rightarrow> int \<Rightarrow> int \<Rightarrow> nat \<Rightarrow> 'w \<Rightarrow> ((int \<times> int) \<times> 'w) option" where
  "readwriteblock os fromfd tofd sz w =
     do { (r, w1) \<leftarrow> readblock os fromfd sz w;
          if ret r \<noteq> int sz then Some ((ret r, err r), w1)
          else r_write os tofd (dat r) w1 }"

section \<open>Time limits\<close>

text \<open>
  \<^verbatim>\<open>gettimeout\<close>: the time left until \<^term>\<open>end_t\<close>, or ETIME; the result carries the timeout.
\<close>

definition time_left :: "timeval \<Rightarrow> timeval \<Rightarrow> timeval" where
  "time_left end_t now =
     (let s0 = tv_sec end_t - tv_sec now; u0 = tv_usec end_t - tv_usec now;
          s1 = (if u0 \<ge> MILLION then s0 + 1 else s0); u1 = (if u0 \<ge> MILLION then u0 - MILLION else u0);
          s2 = (if u1 < 0 then s1 - 1 else s1); u2 = (if u1 < 0 then u1 + MILLION else u1)
      in \<lparr>tv_sec = s2, tv_usec = u2\<rparr>)"

definition gettimeout :: "'w os \<Rightarrow> timeval \<Rightarrow> 'w \<Rightarrow> (int \<times> int \<times> timeval) \<times> 'w" where
  "gettimeout os end_t w =
     (let now = fst (sys_gettimeofday os w); w' = snd (sys_gettimeofday os w);
          t = time_left end_t now
      in if tv_sec t < 0 \<or> (tv_sec t = 0 \<and> tv_usec t = 0) then ((-1, ETIME, t), w')
         else ((0, 0, t), w'))"

text \<open>
  \<^verbatim>\<open>add2currenttime(seconds)\<close>: \<^term>\<open>whole\<close> is \<^verbatim>\<open>(int)seconds\<close> and \<^term>\<open>micro\<close> the rounded microseconds
  of the rest; the floating-point conversions themselves are arguments.
\<close>

definition add2currenttime :: "'w os \<Rightarrow> int \<Rightarrow> int \<Rightarrow> 'w \<Rightarrow> timeval \<times> 'w" where
  "add2currenttime os whole micro w =
     (let now = fst (sys_gettimeofday os w); w' = snd (sys_gettimeofday os w);
          s0 = tv_sec now + whole; u0 = tv_usec now + micro
      in (if u0 \<ge> MILLION then \<lparr>tv_sec = s0 + 1, tv_usec = u0 - MILLION\<rparr>
          else \<lparr>tv_sec = s0, tv_usec = u0\<rparr>, w'))"

partial_function (option) select_loop ::
  "'w os \<Rightarrow> int \<Rightarrow> timeval \<Rightarrow> timeval \<Rightarrow> 'w \<Rightarrow> ((int \<times> int) \<times> 'w) option" where
  "select_loop os fd end_t timeout w =
     (let r = fst (sys_select os (fd + 1) timeout w); w1 = snd (sys_select os (fd + 1) timeout w) in
      if ret r = -1 \<and> err r = EINTR then
        (let g = fst (gettimeout os end_t w1); w2 = snd (gettimeout os end_t w1) in
         if ret g = -1 then Some ((-1, err g), w2) else select_loop os fd end_t (dat g) w2)
      else if ret r = 0 then Some ((-1, ETIME), w1)
      else if ret r = -1 then Some ((-1, err r), w1)
      else Some ((0, 0), w1))"

definition waitfdtimed :: "'w os \<Rightarrow> int \<Rightarrow> timeval \<Rightarrow> 'w \<Rightarrow> ((int \<times> int) \<times> 'w) option" where
  "waitfdtimed os fd end_t w =
     (if fd < 0 \<or> fd \<ge> FD_SETSIZE then Some ((-1, EINVAL), w)
      else
        (let g = fst (gettimeout os end_t w); w1 = snd (gettimeout os end_t w) in
         if ret g = -1 then Some ((-1, err g), w1) else select_loop os fd end_t (dat g) w1))"

definition readtimed ::
  "'w os \<Rightarrow> int \<Rightarrow> nat \<Rightarrow> int \<Rightarrow> int \<Rightarrow> 'w \<Rightarrow> ((int \<times> int \<times> string) \<times> 'w) option" where
  "readtimed os fd nbyte whole micro w =
     (let timedone = fst (add2currenttime os whole micro w); w1 = snd (add2currenttime os whole micro w) in
      do { (s, w2) \<leftarrow> waitfdtimed os fd timedone w1;
           if fst s = -1 then Some ((-1, snd s, []), w2) else r_read os fd nbyte w2 })"

section \<open>What the kernel documents about reading and writing\<close>

text \<open>The error that a \<^verbatim>\<open>read\<close> or a \<^verbatim>\<open>write\<close> of \<open>fd\<close> can report in some good state.\<close>

definition read_error :: "'w os \<Rightarrow> ('w \<Rightarrow> bool) \<Rightarrow> int \<Rightarrow> int \<Rightarrow> bool" where
  "read_error os ok fd e \<longleftrightarrow> (\<exists>n v. ok v \<and> hard_error (fst (sys_read os fd n v)) \<and> e = err (fst (sys_read os fd n v)))"

definition write_error :: "'w os \<Rightarrow> ('w \<Rightarrow> bool) \<Rightarrow> int \<Rightarrow> int \<Rightarrow> bool" where
  "write_error os ok fd e \<longleftrightarrow> (\<exists>bs v. ok v \<and> hard_error (fst (sys_write os fd bs v)) \<and> e = err (fst (sys_write os fd bs v)))"

text \<open>
  The contract of \<^verbatim>\<open>read(2)\<close> and \<^verbatim>\<open>write(2)\<close> on the descriptors \<open>rd\<close> open for reading and \<open>wr\<close> open for
  writing, in the states \<open>ok\<close>, which the calls keep: \<^term>\<open>unread\<close> is what a descriptor will still
  deliver, \<^term>\<open>written\<close> what it has accepted, and \<^term>\<open>signals\<close> how many more signals arrive. A
  successful \<^verbatim>\<open>read\<close> of \<open>n > 0\<close> bytes returns 0 only at end of file; a \<^verbatim>\<open>write\<close> of a nonempty buffer
  that does not fail makes progress; a failed call transfers nothing. What is written to one
  descriptor is not what another still delivers, so the states \<open>ok\<close> exclude aliased files.
\<close>

locale fd_streams =
  fixes os :: "'w os"
    and ok :: "'w \<Rightarrow> bool"
    and rd wr :: "int set"
    and unread :: "'w \<Rightarrow> int \<Rightarrow> string"
    and written :: "'w \<Rightarrow> int \<Rightarrow> string"
    and signals :: "'w \<Rightarrow> nat"
  assumes read_ok: "ok w \<Longrightarrow> fd \<in> rd \<Longrightarrow> ok (snd (sys_read os fd n w))"
    and read_some: "ok w \<Longrightarrow> fd \<in> rd \<Longrightarrow> ret (fst (sys_read os fd n w)) \<noteq> -1 \<Longrightarrow>
      \<exists>k. ret (fst (sys_read os fd n w)) = int k \<and> k \<le> n \<and> k \<le> length (unread w fd) \<and>
          (k = 0 \<longrightarrow> n = 0 \<or> unread w fd = []) \<and>
          dat (fst (sys_read os fd n w)) = take k (unread w fd) \<and>
          unread (snd (sys_read os fd n w)) = (unread w)(fd := drop k (unread w fd))"
    and read_fails: "ok w \<Longrightarrow> fd \<in> rd \<Longrightarrow> ret (fst (sys_read os fd n w)) = -1 \<Longrightarrow>
      unread (snd (sys_read os fd n w)) = unread w"
    and read_frame: "ok w \<Longrightarrow> fd \<in> rd \<Longrightarrow> written (snd (sys_read os fd n w)) = written w"
    and read_signals: "ok w \<Longrightarrow> fd \<in> rd \<Longrightarrow> signals (snd (sys_read os fd n w)) \<le> signals w"
    and read_intr: "ok w \<Longrightarrow> fd \<in> rd \<Longrightarrow> interrupted (fst (sys_read os fd n w)) \<Longrightarrow>
      signals (snd (sys_read os fd n w)) < signals w"
    and write_ok: "ok w \<Longrightarrow> fd \<in> wr \<Longrightarrow> ok (snd (sys_write os fd bs w))"
    and write_some: "ok w \<Longrightarrow> fd \<in> wr \<Longrightarrow> ret (fst (sys_write os fd bs w)) \<noteq> -1 \<Longrightarrow>
      \<exists>k. ret (fst (sys_write os fd bs w)) = int k \<and> k \<le> length bs \<and> (bs \<noteq> [] \<longrightarrow> 0 < k) \<and>
          written (snd (sys_write os fd bs w)) = (written w)(fd := written w fd @ take k bs)"
    and write_fails: "ok w \<Longrightarrow> fd \<in> wr \<Longrightarrow> ret (fst (sys_write os fd bs w)) = -1 \<Longrightarrow>
      written (snd (sys_write os fd bs w)) = written w"
    and write_frame: "ok w \<Longrightarrow> fd \<in> wr \<Longrightarrow> unread (snd (sys_write os fd bs w)) = unread w"
    and write_signals: "ok w \<Longrightarrow> fd \<in> wr \<Longrightarrow> signals (snd (sys_write os fd bs w)) \<le> signals w"
    and write_intr: "ok w \<Longrightarrow> fd \<in> wr \<Longrightarrow> interrupted (fst (sys_write os fd bs w)) \<Longrightarrow>
      signals (snd (sys_write os fd bs w)) < signals w"

text \<open>Devices that never report an error other than an interruption.\<close>

locale reliable_fds = fd_streams +
  assumes no_read_error: "ok w \<Longrightarrow> fd \<in> rd \<Longrightarrow> \<not> hard_error (fst (sys_read os fd n w))"
    and no_write_error: "ok w \<Longrightarrow> fd \<in> wr \<Longrightarrow> \<not> hard_error (fst (sys_write os fd bs w))"

text \<open>
  The contract of \<^verbatim>\<open>gettimeofday(2)\<close>: readings are in normal form, and only finitely many of them,
  bounded by \<^term>\<open>budget\<close>, come before any given deadline; \<^verbatim>\<open>select(2)\<close> does not set the clock back.
\<close>

locale advancing_clock =
  fixes os :: "'w os" and budget :: "timeval \<Rightarrow> 'w \<Rightarrow> nat"
  assumes clock_norm: "tv_norm (fst (sys_gettimeofday os w))"
    and clock_advances: "usecs (fst (sys_gettimeofday os w)) < usecs end_t \<Longrightarrow>
      budget end_t (snd (sys_gettimeofday os w)) < budget end_t w"
    and select_keeps_clock: "budget end_t (snd (sys_select os n t w)) \<le> budget end_t w"

text \<open>
  A kernel to run the library on: two files per descriptor and a script that says what each
  call meets (a signal, an error, a short transfer); with \<^term>\<open>faulty\<close> off, errors do not happen.
\<close>

datatype event = Intr | Fail int | Serve nat

record sworld =
  s_unread :: "int \<Rightarrow> string"
  s_written :: "int \<Rightarrow> string"
  s_script :: "event list"

definition intrs :: "event list \<Rightarrow> nat" where
  "intrs es = length (filter (\<lambda>e. e = Intr) es)"

definition s_signals :: "sworld \<Rightarrow> nat" where
  "s_signals w = intrs (s_script w)"

definition next_event :: "bool \<Rightarrow> event list \<Rightarrow> event" where
  "next_event faulty script =
     (case script of [] \<Rightarrow> Serve 4095
      | Fail e # es \<Rightarrow> if faulty \<and> e \<noteq> EINTR then Fail e else Serve 0
      | ev # es \<Rightarrow> ev)"

definition script_read :: "bool \<Rightarrow> int \<Rightarrow> nat \<Rightarrow> (sworld, string) call" where
  "script_read faulty fd n w =
     (let w' = w\<lparr>s_script := tl (s_script w)\<rparr> in
      case next_event faulty (s_script w) of
        Intr \<Rightarrow> ((-1, EINTR, []), w')
      | Fail e \<Rightarrow> ((-1, e, []), w')
      | Serve m \<Rightarrow>
          (let k = min (min n (Suc m)) (length (s_unread w fd)) in
           ((int k, 0, take k (s_unread w fd)),
            w'\<lparr>s_unread := (s_unread w)(fd := drop k (s_unread w fd))\<rparr>)))"

definition script_write :: "bool \<Rightarrow> int \<Rightarrow> string \<Rightarrow> (sworld, unit) call" where
  "script_write faulty fd bs w =
     (let w' = w\<lparr>s_script := tl (s_script w)\<rparr> in
      case next_event faulty (s_script w) of
        Intr \<Rightarrow> ((-1, EINTR, ()), w')
      | Fail e \<Rightarrow> ((-1, e, ()), w')
      | Serve m \<Rightarrow>
          (let k = min (length bs) (Suc m) in
           ((int k, 0, ()), w'\<lparr>s_written := (s_written w)(fd := s_written w fd @ take k bs)\<rparr>)))"

definition script_os :: "bool \<Rightarrow> sworld os" where
  "script_os faulty =
     \<lparr>sys_close = (\<lambda>fd w. ((0, 0, ()), w)),
      sys_dup2 = (\<lambda>a b w. ((b, 0, ()), w)),
      sys_open2 = (\<lambda>p fl w. ((3, 0, ()), w)),
      sys_open3 = (\<lambda>p fl m w. ((4, 0, ()), w)),
      sys_read = script_read faulty,
      sys_write = script_write faulty,
      sys_wait = (\<lambda>w. ((-1, 10, 0), w)),
      sys_waitpid = (\<lambda>p opts w. ((-1, 10, 0), w)),
      sys_gettimeofday = (\<lambda>w. (\<lparr>tv_sec = 0, tv_usec = 0\<rparr>, w)),
      sys_select = (\<lambda>n t w. ((1, 0, ()), w))\<rparr>"

text \<open>A kernel whose clock ticks once per reading and whose \<^verbatim>\<open>select\<close> is always interrupted.\<close>

definition ticking_os :: "nat os" where
  "ticking_os =
     \<lparr>sys_close = (\<lambda>fd w. ((0, 0, ()), w)),
      sys_dup2 = (\<lambda>a b w. ((b, 0, ()), w)),
      sys_open2 = (\<lambda>p fl w. ((3, 0, ()), w)),
      sys_open3 = (\<lambda>p fl m w. ((4, 0, ()), w)),
      sys_read = (\<lambda>fd n w. ((0, 0, []), w)),
      sys_write = (\<lambda>fd bs w. ((int (length bs), 0, ()), w)),
      sys_wait = (\<lambda>w. ((-1, 10, 0), w)),
      sys_waitpid = (\<lambda>p opts w. ((-1, 10, 0), w)),
      sys_gettimeofday = (\<lambda>w. (\<lparr>tv_sec = int w, tv_usec = 0\<rparr>, Suc w)),
      sys_select = (\<lambda>n t w. ((-1, EINTR, ()), w))\<rparr>"

definition ticks_left :: "timeval \<Rightarrow> nat \<Rightarrow> nat" where
  "ticks_left end_t w = nat (usecs end_t - int w * 1000000)"

section \<open>Restarting\<close>

definition after :: "('w, 'd) call \<Rightarrow> nat \<Rightarrow> 'w \<Rightarrow> 'w" where
  "after f n w = ((\<lambda>v. snd (f v)) ^^ n) w"

lemma after_0 [simp]: "after f 0 w = w"
  by (simp add: after_def)

lemma after_Suc: "after f (Suc n) w = after f n (snd (f w))"
  by (simp add: after_def funpow_Suc_right del: funpow.simps)

lemma restart_from:
  "\<forall>i < n. interrupted (fst (f (after f i w))) \<Longrightarrow> restart f w = restart f (after f n w)"
proof (induction n arbitrary: w)
  case 0
  then show ?case by simp
next
  case (Suc n)
  have "interrupted (fst (f w))"
    using Suc.prems by (metis after_0 zero_less_Suc)
  then have "restart f w = restart f (snd (f w))"
    by (subst restart.simps) simp
  also have "\<dots> = restart f (after f n (snd (f w)))"
    using Suc.prems by (intro Suc.IH) (metis after_Suc Suc_mono)
  finally show ?case by (simp add: after_Suc)
qed

lemma restart_Some_ex:
  assumes "restart f w = Some r"
  shows "\<exists>n. (\<forall>i < n. interrupted (fst (f (after f i w)))) \<and>
             \<not> interrupted (fst (f (after f n w))) \<and> r = f (after f n w)"
proof (rule restart.raw_induct [where P = "\<lambda>f w r. \<exists>n. (\<forall>i < n. interrupted (fst (f (after f i w)))) \<and>
      \<not> interrupted (fst (f (after f n w))) \<and> r = f (after f n w)", OF _ assms])
  fix rec :: "('w, 'd) call \<Rightarrow> 'w \<Rightarrow> ((int \<times> int \<times> 'd) \<times> 'w) option"
    and g :: "('w, 'd) call" and v :: 'w and y
  let ?ok = "\<lambda>v n. (\<forall>i < n. interrupted (fst (g (after g i v)))) \<and>
      \<not> interrupted (fst (g (after g n v))) \<and> y = g (after g n v)"
  assume IH: "\<And>f w r. rec f w = Some r \<Longrightarrow> \<exists>n. (\<forall>i < n. interrupted (fst (f (after f i w)))) \<and>
      \<not> interrupted (fst (f (after f n w))) \<and> r = f (after f n w)"
    and eq: "(if interrupted (fst (g v)) then rec g (snd (g v)) else Some (g v)) = Some y"
  show "\<exists>n. ?ok v n"
  proof (cases "interrupted (fst (g v))")
    case True
    with eq IH obtain n where n: "?ok (snd (g v)) n" by (metis (no_types, lifting))
    have "?ok v (Suc n)"
      using n True by (auto simp: after_Suc less_Suc_eq_0_disj)
    then show ?thesis ..
  next
    case False
    with eq have "?ok v 0" by simp
    then show ?thesis ..
  qed
qed

lemma restart_iff:
  "restart f w = Some r \<longleftrightarrow>
   (\<exists>n. (\<forall>i < n. interrupted (fst (f (after f i w)))) \<and>
        \<not> interrupted (fst (f (after f n w))) \<and> r = f (after f n w))"
  using restart_Some_ex restart_from by (metis restart.simps)

text \<open>
  A call whose interruptions use up a measure and keep a relation to the start returns, with an
  outcome of the call itself.
\<close>

lemma restart_terminates:
  assumes dec: "\<And>v. I v \<Longrightarrow> interrupted (fst (f v)) \<Longrightarrow> m (snd (f v)) < (m v :: nat)"
    and inv: "\<And>v. I v \<Longrightarrow> interrupted (fst (f v)) \<Longrightarrow> I (snd (f v))"
    and "I w"
  shows "\<exists>v. restart f w = Some (f v) \<and> \<not> interrupted (fst (f v)) \<and> I v"
  using \<open>I w\<close>
proof (induction "m w" arbitrary: w rule: less_induct)
  case less
  show ?case
  proof (cases "interrupted (fst (f w))")
    case True
    with less dec inv obtain v where "restart f (snd (f w)) = Some (f v)" "\<not> interrupted (fst (f v))" "I v"
      by blast
    with True show ?thesis by (subst restart.simps) auto
  next
    case False
    with less.prems show ?thesis by (subst restart.simps) auto
  qed
qed

section \<open>The library over the documented kernel\<close>

text \<open>One turn of each loop.\<close>

lemma r_write_loop_turn:
  assumes "bs \<noteq> []"
  shows "ret (fst (sys_write os fd bs w)) = -1 \<Longrightarrow> err (fst (sys_write os fd bs w)) \<noteq> EINTR \<Longrightarrow>
      r_write_loop os fd bs tot w = Some ((-1, err (fst (sys_write os fd bs w))), snd (sys_write os fd bs w))"
    and "ret (fst (sys_write os fd bs w)) = -1 \<Longrightarrow> err (fst (sys_write os fd bs w)) = EINTR \<Longrightarrow>
      r_write_loop os fd bs tot w = r_write_loop os fd bs tot (snd (sys_write os fd bs w))"
    and "ret (fst (sys_write os fd bs w)) = int k \<Longrightarrow>
      r_write_loop os fd bs tot w = r_write_loop os fd (drop k bs) (tot + int k) (snd (sys_write os fd bs w))"
  using assms by (subst r_write_loop.simps, simp add: Let_def)+

lemma readblock_loop_turn:
  assumes "length buf < sz"
  defines "n \<equiv> sz - length buf"
  shows "ret (fst (sys_read os fd n w)) = -1 \<Longrightarrow> err (fst (sys_read os fd n w)) \<noteq> EINTR \<Longrightarrow>
      readblock_loop os fd sz buf w = Some ((-1, err (fst (sys_read os fd n w)), buf), snd (sys_read os fd n w))"
    and "ret (fst (sys_read os fd n w)) = -1 \<Longrightarrow> err (fst (sys_read os fd n w)) = EINTR \<Longrightarrow>
      readblock_loop os fd sz buf w = readblock_loop os fd sz buf (snd (sys_read os fd n w))"
    and "ret (fst (sys_read os fd n w)) = 0 \<Longrightarrow> readblock_loop os fd sz buf w =
      Some (if buf = [] then (0, err (fst (sys_read os fd n w)), buf) else (-1, EINVAL, buf), snd (sys_read os fd n w))"
    and "ret (fst (sys_read os fd n w)) = int k \<Longrightarrow> 0 < k \<Longrightarrow> readblock_loop os fd sz buf w =
      readblock_loop os fd sz (buf @ dat (fst (sys_read os fd n w))) (snd (sys_read os fd n w))"
  using assms by (subst readblock_loop.simps, simp add: Let_def n_def)+

lemma readline_loop_turn:
  assumes "int (length buf) < nbytes - 1"
  shows "ret (fst (sys_read os fd 1 w)) = -1 \<Longrightarrow> err (fst (sys_read os fd 1 w)) \<noteq> EINTR \<Longrightarrow>
      readline_loop os fd nbytes buf w = Some ((-1, err (fst (sys_read os fd 1 w)), buf), snd (sys_read os fd 1 w))"
    and "ret (fst (sys_read os fd 1 w)) = -1 \<Longrightarrow> err (fst (sys_read os fd 1 w)) = EINTR \<Longrightarrow>
      readline_loop os fd nbytes buf w = readline_loop os fd nbytes buf (snd (sys_read os fd 1 w))"
    and "ret (fst (sys_read os fd 1 w)) = 0 \<Longrightarrow> readline_loop os fd nbytes buf w =
      Some (if buf = [] then (0, err (fst (sys_read os fd 1 w)), buf) else (-1, EINVAL, buf), snd (sys_read os fd 1 w))"
    and "ret (fst (sys_read os fd 1 w)) = 1 \<Longrightarrow> dat (fst (sys_read os fd 1 w)) = [c] \<Longrightarrow> readline_loop os fd nbytes buf w =
      (if c = CHR 0x0A
       then Some ((int (length buf) + 1, err (fst (sys_read os fd 1 w)), buf @ [c, CHR 0x00]), snd (sys_read os fd 1 w))
       else readline_loop os fd nbytes (buf @ [c]) (snd (sys_read os fd 1 w)))"
  using assms by (subst readline_loop.simps, simp add: Let_def)+

text \<open>
  What a copy from the count \<open>tot\<close> on, which moved \<open>m\<close> bytes of a source of \<open>len\<close> bytes, may return; \<open>failed\<close>
  says that a call may have failed.
\<close>

definition copy_result :: "bool \<Rightarrow> int \<Rightarrow> nat \<Rightarrow> nat \<Rightarrow> fault + int \<Rightarrow> bool" where
  "copy_result failed tot len m res \<longleftrightarrow>
     (case res of
        Inl f \<Rightarrow> f = SignedOverflow \<and> INT_MAX < tot + int m \<and> tot + int m \<le> INT_MAX + int BLKSIZE
      | Inr n \<Rightarrow> tot \<le> n \<and> n \<le> tot + int m \<and> n \<le> INT_MAX \<and> (failed \<or> m = len \<and> n = tot + int len))"

lemma copy_result_step:
  "copy_result failed (tot + int k) (len - k) m res \<Longrightarrow> k \<le> len \<Longrightarrow> copy_result failed tot len (k + m) res"
  by (auto simp: copy_result_def split: sum.splits)

context fd_streams
begin

text \<open>The four outcomes of one \<^verbatim>\<open>read\<close> of at least a byte, and the three of a \<^verbatim>\<open>write\<close>.\<close>

lemma read_cases [consumes 3, case_names hard intr eof some]:
  assumes "ok w" and "fd \<in> rd" and "0 < n"
  obtains "ret (fst (sys_read os fd n w)) = -1" "err (fst (sys_read os fd n w)) \<noteq> EINTR"
      "unread (snd (sys_read os fd n w)) = unread w" "read_error os ok fd (err (fst (sys_read os fd n w)))"
    | "ret (fst (sys_read os fd n w)) = -1" "err (fst (sys_read os fd n w)) = EINTR"
      "unread (snd (sys_read os fd n w)) = unread w" "signals (snd (sys_read os fd n w)) < signals w"
    | "ret (fst (sys_read os fd n w)) = 0" "unread w fd = []" "unread (snd (sys_read os fd n w)) = unread w"
    | k where "ret (fst (sys_read os fd n w)) = int k" "0 < k" "k \<le> n" "k \<le> length (unread w fd)"
      "dat (fst (sys_read os fd n w)) = take k (unread w fd)"
      "unread (snd (sys_read os fd n w)) = (unread w)(fd := drop k (unread w fd))"
      "signals (snd (sys_read os fd n w)) \<le> signals w"
proof (cases "ret (fst (sys_read os fd n w)) = -1")
  case True
  with assms have "err (fst (sys_read os fd n w)) \<noteq> EINTR \<Longrightarrow> read_error os ok fd (err (fst (sys_read os fd n w)))"
    by (auto simp: read_error_def hard_error_def)
  with that(1,2) read_fails [OF assms(1,2) True] read_intr [OF assms(1,2), of n] True show ?thesis
    by (cases "err (fst (sys_read os fd n w)) = EINTR") (simp_all add: interrupted_def)
next
  case False
  from read_some [OF assms(1,2) False] obtain k where "ret (fst (sys_read os fd n w)) = int k" "k \<le> n"
      "k \<le> length (unread w fd)" "k = 0 \<longrightarrow> n = 0 \<or> unread w fd = []"
      "dat (fst (sys_read os fd n w)) = take k (unread w fd)"
      "unread (snd (sys_read os fd n w)) = (unread w)(fd := drop k (unread w fd))"
    by (elim exE conjE) (rule that)
  with that(3,4) read_signals [OF assms(1,2), of n] assms(3) show ?thesis
    by (cases "k = 0") (auto simp: fun_upd_idem)
qed

lemma write_cases [consumes 3, case_names hard intr some]:
  assumes "ok w" and "fd \<in> wr" and "bs \<noteq> []"
  obtains "ret (fst (sys_write os fd bs w)) = -1" "err (fst (sys_write os fd bs w)) \<noteq> EINTR"
      "written (snd (sys_write os fd bs w)) = written w" "write_error os ok fd (err (fst (sys_write os fd bs w)))"
    | "ret (fst (sys_write os fd bs w)) = -1" "err (fst (sys_write os fd bs w)) = EINTR"
      "written (snd (sys_write os fd bs w)) = written w" "signals (snd (sys_write os fd bs w)) < signals w"
    | k where "ret (fst (sys_write os fd bs w)) = int k" "0 < k" "k \<le> length bs"
      "written (snd (sys_write os fd bs w)) = (written w)(fd := written w fd @ take k bs)"
      "signals (snd (sys_write os fd bs w)) \<le> signals w"
proof (cases "ret (fst (sys_write os fd bs w)) = -1")
  case True
  with assms have "err (fst (sys_write os fd bs w)) \<noteq> EINTR \<Longrightarrow> write_error os ok fd (err (fst (sys_write os fd bs w)))"
    by (auto simp: write_error_def hard_error_def)
  with that(1,2) write_fails [OF assms(1,2) True] write_intr [OF assms(1,2), of bs] True show ?thesis
    by (cases "err (fst (sys_write os fd bs w)) = EINTR") (simp_all add: interrupted_def)
next
  case False
  with that(3) write_some [OF assms(1,2) False] write_signals [OF assms(1,2), of bs] assms(3) show ?thesis by blast
qed

lemma r_read_spec:
  assumes "ok w" and "fd \<in> rd"
  shows "\<exists>r w'. r_read os fd n w = Some (r, w') \<and> ok w' \<and> written w' = written w \<and>
     signals w' \<le> signals w \<and>
     (ret r = -1 \<and> unread w' = unread w \<and> read_error os ok fd (err r) \<or>
      (\<exists>k. ret r = int k \<and> k \<le> n \<and> k \<le> length (unread w fd) \<and>
          (k = 0 \<longrightarrow> n = 0 \<or> unread w fd = []) \<and> dat r = take k (unread w fd) \<and>
          unread w' = (unread w)(fd := drop k (unread w fd))))"
proof -
  let ?I = "\<lambda>v. ok v \<and> unread v = unread w \<and> written v = written w \<and> signals v \<le> signals w"
  have "\<exists>v. restart (sys_read os fd n) w = Some (sys_read os fd n v) \<and>
      \<not> interrupted (fst (sys_read os fd n v)) \<and> ?I v"
  proof (rule restart_terminates [where m = signals])
    show "signals (snd (sys_read os fd n v)) < signals v" if "?I v" and "interrupted (fst (sys_read os fd n v))" for v
      using that read_intr assms(2) by blast
    show "?I (snd (sys_read os fd n v))" if "?I v" and "interrupted (fst (sys_read os fd n v))" for v
      using that read_fails [of v fd n] read_frame [of v fd n] read_signals [of v fd n] read_ok [of v fd n] assms(2)
      by (simp add: interrupted_def)
  qed (use assms in simp)
  then obtain v where v: "restart (sys_read os fd n) w = Some (sys_read os fd n v)"
      "\<not> interrupted (fst (sys_read os fd n v))" "?I v" by blast
  then have okv: "ok v" by simp
  have "ret (fst (sys_read os fd n v)) = -1 \<and> unread (snd (sys_read os fd n v)) = unread w \<and>
      read_error os ok fd (err (fst (sys_read os fd n v))) \<or>
      (\<exists>k. ret (fst (sys_read os fd n v)) = int k \<and> k \<le> n \<and> k \<le> length (unread w fd) \<and>
          (k = 0 \<longrightarrow> n = 0 \<or> unread w fd = []) \<and>
          dat (fst (sys_read os fd n v)) = take k (unread w fd) \<and>
          unread (snd (sys_read os fd n v)) = (unread w)(fd := drop k (unread w fd)))"
  proof (cases "ret (fst (sys_read os fd n v)) = -1")
    case True
    with v okv have "read_error os ok fd (err (fst (sys_read os fd n v)))"
      by (auto simp: read_error_def hard_error_def interrupted_def)
    with True read_fails [OF okv assms(2) True] v(3) show ?thesis by simp
  next
    case False
    from read_some [OF okv assms(2) False] v(3) show ?thesis by simp
  qed
  then show ?thesis
    using v read_ok [OF okv assms(2)] read_frame [OF okv assms(2), of n] read_signals [OF okv assms(2), of n]
    by (intro exI [of _ "fst (sys_read os fd n v)"] exI [of _ "snd (sys_read os fd n v)"])
      (auto simp: r_read_def)
qed

lemma r_write_loop_spec:
  assumes "ok w" and "fd \<in> wr"
  shows "\<exists>r w' m. r_write_loop os fd bs tot w = Some (r, w') \<and> ok w' \<and> m \<le> length bs \<and>
     written w' = (written w)(fd := written w fd @ take m bs) \<and> unread w' = unread w \<and>
     signals w' \<le> signals w \<and>
     (fst r = -1 \<and> write_error os ok fd (snd r) \<or> m = length bs \<and> fst r = tot + int (length bs))"
  using assms(1)
proof (induction "signals w + length bs" arbitrary: bs tot w rule: less_induct)
  case less
  let ?r = "fst (sys_write os fd bs w)" and ?w = "snd (sys_write os fd bs w)"
  note frame = write_frame [OF less.prems assms(2), of bs] write_signals [OF less.prems assms(2), of bs]
    and ok' = write_ok [OF less.prems assms(2), of bs]
  show ?case
  proof (cases "bs = []")
    case True
    with less.prems show ?thesis by (subst r_write_loop.simps) auto
  next
    case nonempty: False
    from less.prems assms(2) nonempty show ?thesis
    proof (cases rule: write_cases)
      case hard
      with frame ok' show ?thesis
        by (intro exI [of _ "(-1, err ?r)"] exI [of _ ?w] exI [of _ 0]) (simp add: r_write_loop_turn [OF nonempty])
    next
      case intr
      then have "signals ?w + length bs < signals w + length bs" by simp
      from less.hyps [OF this ok', of tot] intr(3) frame r_write_loop_turn(2) [OF nonempty intr(1,2), of tot]
      show ?thesis by (metis (no_types, lifting) order_trans)
    next
      case (some k)
      then have "signals ?w + length (drop k bs) < signals w + length bs" by simp
      from less.hyps [OF this ok', of "tot + int k"] obtain r w' m where IH:
          "r_write_loop os fd (drop k bs) (tot + int k) ?w = Some (r, w')" "ok w'" "m \<le> length (drop k bs)"
          "written w' = (written ?w)(fd := written ?w fd @ take m (drop k bs))"
          "unread w' = unread ?w" "signals w' \<le> signals ?w"
          "fst r = -1 \<and> write_error os ok fd (snd r) \<or>
           m = length (drop k bs) \<and> fst r = tot + int k + int (length (drop k bs))" by (elim exE conjE) (rule that)
      have "written w' = (written w)(fd := written w fd @ take (k + m) bs)"
        using some(4) IH(4) by (simp add: take_add)
      with IH some frame r_write_loop_turn(3) [OF nonempty some(1), of tot] show ?thesis
        by (intro exI [of _ r] exI [of _ w'] exI [of _ "k + m"]) auto
    qed
  qed
qed

text \<open>One block: either a hard error somewhere, or a whole block moved.\<close>

lemma readwrite_spec:
  assumes "ok w" and "fromfd \<in> rd" and "tofd \<in> wr"
  shows "\<exists>r e w' m. readwrite os fromfd tofd w = Some ((r, e), w') \<and> ok w' \<and> m \<le> length (unread w fromfd) \<and>
     written w' = (written w)(tofd := written w tofd @ take m (unread w fromfd)) \<and>
     (r = -1 \<and> (read_error os ok fromfd e \<or> write_error os ok tofd e) \<or>
      r = int m \<and> m \<le> BLKSIZE \<and> (m = 0 \<longrightarrow> unread w fromfd = []) \<and>
      unread w' = (unread w)(fromfd := drop m (unread w fromfd)))"
proof -
  obtain r w1 where r: "r_read os fromfd BLKSIZE w = Some (r, w1)" "ok w1" "written w1 = written w"
      "ret r = -1 \<and> unread w1 = unread w \<and> read_error os ok fromfd (err r) \<or>
       (\<exists>k. ret r = int k \<and> k \<le> BLKSIZE \<and> k \<le> length (unread w fromfd) \<and>
          (k = 0 \<longrightarrow> BLKSIZE = 0 \<or> unread w fromfd = []) \<and> dat r = take k (unread w fromfd) \<and>
          unread w1 = (unread w)(fromfd := drop k (unread w fromfd)))"
    using r_read_spec [OF assms(1,2), of BLKSIZE] by blast
  from r(4) consider (hard) "ret r = -1" "read_error os ok fromfd (err r)" | (eof) "ret r = 0" "unread w fromfd = []" "unread w1 = unread w"
    | (some) k where "ret r = int k" "0 < k" "k \<le> BLKSIZE" "k \<le> length (unread w fromfd)" "dat r = take k (unread w fromfd)"
        "unread w1 = (unread w)(fromfd := drop k (unread w fromfd))"
    by (fastforce simp: BLKSIZE_def)
  then show ?thesis
  proof cases
    case hard
    with r show ?thesis
      by (intro exI [of _ "-1"] exI [of _ "err r"] exI [of _ w1] exI [of _ 0]) (auto simp: readwrite_def)
  next
    case eof
    with r show ?thesis
      by (intro exI [of _ 0] exI [of _ "err r"] exI [of _ w1] exI [of _ 0]) (auto simp: readwrite_def)
  next
    case (some k)
    then have len: "length (dat r) = k" by simp
    obtain s w2 m where "r_write os tofd (dat r) w1 = Some (s, w2)" "ok w2" "m \<le> k"
        "written w2 = (written w1)(tofd := written w1 tofd @ take m (dat r))" "unread w2 = unread w1"
        "fst s = -1 \<and> write_error os ok tofd (snd s) \<or> m = k \<and> fst s = 0 + int k"
      using r_write_loop_spec [OF r(2) assms(3), of "dat r" 0, folded r_write_def, unfolded len]
      by (elim exE conjE) (rule that)
    with some r show ?thesis
      by (intro exI [of _ "if fst s < 0 then -1 else int k"] exI [of _ "snd s"] exI [of _ w2] exI [of _ m])
        (auto simp: readwrite_def)
  qed
qed

lemma copyfile_loop_spec:
  assumes "ok w" and "fromfd \<in> rd" and "tofd \<in> wr" and "0 \<le> tot" and "tot \<le> INT_MAX"
  shows "\<exists>res w' m. copyfile_loop os fromfd tofd tot w = Some (res, w') \<and> ok w' \<and> m \<le> length (unread w fromfd) \<and>
     written w' = (written w)(tofd := written w tofd @ take m (unread w fromfd)) \<and>
     copy_result (\<exists>e. read_error os ok fromfd e \<or> write_error os ok tofd e) tot (length (unread w fromfd)) m res \<and>
     ((\<exists>e. read_error os ok fromfd e \<or> write_error os ok tofd e) \<or> unread w' fromfd = drop m (unread w fromfd))"
  using assms(1,4,5)
proof (induction "length (unread w fromfd)" arbitrary: tot w rule: less_induct)
  case less
  obtain r e w1 m where r: "readwrite os fromfd tofd w = Some ((r, e), w1)" "ok w1" "m \<le> length (unread w fromfd)"
      "written w1 = (written w)(tofd := written w tofd @ take m (unread w fromfd))"
      "r = -1 \<and> (read_error os ok fromfd e \<or> write_error os ok tofd e) \<or>
       r = int m \<and> m \<le> BLKSIZE \<and> (m = 0 \<longrightarrow> unread w fromfd = []) \<and>
       unread w1 = (unread w)(fromfd := drop m (unread w fromfd))"
    using readwrite_spec [OF less.prems(1) assms(2,3)] by (elim exE conjE) (rule that)
  show ?case
  proof (cases "r > 0")
    case False
    have "copyfile_loop os fromfd tofd tot w = Some (Inr tot, w1)"
      using r(1) False by (subst copyfile_loop.simps) simp
    with r False less.prems(3) show ?thesis
      by (intro exI [of _ "Inr tot"] exI [of _ w1] exI [of _ m]) (auto simp: copy_result_def)
  next
    case True
    with r(5) have m: "r = int m" "0 < m" "m \<le> BLKSIZE" "unread w1 = (unread w)(fromfd := drop m (unread w fromfd))"
      by auto
    show ?thesis
    proof (cases "is_int (tot + r)")
      case overflow: False
      have "copyfile_loop os fromfd tofd tot w = Some (Inl SignedOverflow, w1)"
        using r(1) True overflow by (subst copyfile_loop.simps) simp
      moreover have "INT_MAX < tot + int m" using overflow m(1,2) less.prems(2) by (simp add: is_int_def int_limits)
      ultimately show ?thesis using r m less.prems(3)
        by (intro exI [of _ "Inl SignedOverflow"] exI [of _ w1] exI [of _ m]) (auto simp: copy_result_def)
    next
      case fits: True
      then have step: "copyfile_loop os fromfd tofd tot w = copyfile_loop os fromfd tofd (tot + int m) w1"
        using r(1) True m(1) by (subst copyfile_loop.simps) simp
      have "length (unread w1 fromfd) < length (unread w fromfd)" "0 \<le> tot + int m" "tot + int m \<le> INT_MAX"
        using m r(3) less.prems(2) fits by (auto simp: is_int_def)
      from less.hyps [OF this(1) r(2) this(2,3)] obtain res w' m' where IH:
          "copyfile_loop os fromfd tofd (tot + int m) w1 = Some (res, w')" "ok w'" "m' \<le> length (unread w1 fromfd)"
          "written w' = (written w1)(tofd := written w1 tofd @ take m' (unread w1 fromfd))"
          "copy_result (\<exists>e. read_error os ok fromfd e \<or> write_error os ok tofd e) (tot + int m) (length (unread w1 fromfd)) m' res"
          "(\<exists>e. read_error os ok fromfd e \<or> write_error os ok tofd e) \<or> unread w' fromfd = drop m' (unread w1 fromfd)"
        by (elim exE conjE) (rule that)
      have "written w' = (written w)(tofd := written w tofd @ take (m + m') (unread w fromfd))"
        using IH(4) r(4) m(4) by (simp add: take_add)
      moreover have "copy_result (\<exists>e. read_error os ok fromfd e \<or> write_error os ok tofd e) tot (length (unread w fromfd)) (m + m') res"
        using IH(5) m(4) r(3) by (intro copy_result_step) simp_all
      ultimately show ?thesis using IH(1-3,6) r(3) m(4) step
        by (intro exI [of _ res] exI [of _ w'] exI [of _ "m + m'"]) (auto simp: add.commute)
    qed
  qed
qed

end

context fd_streams
begin

lemma readblock_loop_spec:
  assumes "ok w" and "fd \<in> rd" and "length buf \<le> sz"
  shows "\<exists>r w' m. readblock_loop os fd sz buf w = Some (r, w') \<and> ok w' \<and> m \<le> length (unread w fd) \<and>
     dat r = buf @ take m (unread w fd) \<and> unread w' = (unread w)(fd := drop m (unread w fd)) \<and>
     length (dat r) \<le> sz \<and>
     (ret r = int sz \<and> length (dat r) = sz \<or>
      ret r = 0 \<and> dat r = [] \<and> unread w fd = [] \<or>
      ret r = -1 \<and> err r = EINVAL \<and> length (dat r) < sz \<and> unread w' fd = [] \<or>
      ret r = -1 \<and> read_error os ok fd (err r))"
  using assms(1,3)
proof (induction "signals w + (sz - length buf)" arbitrary: buf w rule: less_induct)
  case less
  let ?n = "sz - length buf"
  let ?r = "fst (sys_read os fd ?n w)" and ?w = "snd (sys_read os fd ?n w)"
  note ok' = read_ok [OF less.prems(1) assms(2), of ?n]
  show ?case
  proof (cases "length buf < sz")
    case False
    with less.prems show ?thesis by (subst readblock_loop.simps) (auto intro!: exI [of _ 0])
  next
    case room: True
    then have "0 < ?n" by simp
    with less.prems(1) assms(2) show ?thesis
    proof (cases rule: read_cases)
      case hard
      with less.prems ok' readblock_loop_turn(1) [OF room hard(1,2)] show ?thesis
        by (intro exI [of _ "(-1, err ?r, buf)"] exI [of _ ?w] exI [of _ 0]) auto
    next
      case intr
      with less.hyps [of ?w buf] less.prems ok' readblock_loop_turn(2) [OF room intr(1,2)] show ?thesis by simp
    next
      case eof
      with room ok' readblock_loop_turn(3) [OF room eof(1)] show ?thesis
        by (intro exI [of _ "if buf = [] then (0, err ?r, buf) else (-1, EINVAL, buf)"] exI [of _ ?w] exI [of _ 0]) auto
    next
      case (some k)
      have "signals ?w + (sz - length (buf @ dat ?r)) < signals w + ?n" "length (buf @ dat ?r) \<le> sz"
        using some room less.prems by auto
      from less.hyps [OF this(1) ok' this(2)] obtain r w' m where IH:
          "readblock_loop os fd sz (buf @ dat ?r) ?w = Some (r, w')" "ok w'" "m \<le> length (unread ?w fd)"
          "dat r = (buf @ dat ?r) @ take m (unread ?w fd)"
          "unread w' = (unread ?w)(fd := drop m (unread ?w fd))" "length (dat r) \<le> sz"
          "ret r = int sz \<and> length (dat r) = sz \<or> ret r = 0 \<and> dat r = [] \<and> unread ?w fd = [] \<or>
           ret r = -1 \<and> err r = EINVAL \<and> length (dat r) < sz \<and> unread w' fd = [] \<or>
           ret r = -1 \<and> read_error os ok fd (err r)"
        by (elim exE conjE) (rule that)
      have "dat r = buf @ take (k + m) (unread w fd)" "dat r \<noteq> []"
        using IH(4) some by (auto simp: take_add)
      with IH some readblock_loop_turn(4) [OF room some(1,2)] show ?thesis
        by (intro exI [of _ r] exI [of _ w'] exI [of _ "k + m"]) (auto simp: add.commute)
    qed
  qed
qed

lemma readline_loop_spec:
  assumes "ok w" and "fd \<in> rd" and "CHR 0x0A \<notin> set buf" and "int (length buf) < nbytes \<or> buf = []"
  shows "\<exists>r w' m. readline_loop os fd nbytes buf w = Some (r, w') \<and> ok w' \<and> m \<le> length (unread w fd) \<and>
     unread w' = (unread w)(fd := drop m (unread w fd)) \<and>
     (0 < nbytes \<longrightarrow> int (length (dat r)) \<le> nbytes) \<and>
     (0 < ret r \<longrightarrow> dat r = buf @ take m (unread w fd) @ [CHR 0x00] \<and> ret r = int (length buf + m) \<and> 0 < m \<and>
        unread w fd ! (m - 1) = CHR 0x0A \<and> CHR 0x0A \<notin> set (take (m - 1) (unread w fd)))"
  using assms(1,3,4)
proof (induction "signals w + nat (nbytes - int (length buf))" arbitrary: buf w rule: less_induct)
  case less
  let ?r = "fst (sys_read os fd 1 w)" and ?w = "snd (sys_read os fd 1 w)"
  note ok' = read_ok [OF less.prems(1) assms(2), of 1]
  show ?case
  proof (cases "int (length buf) < nbytes - 1")
    case False
    then have "readline_loop os fd nbytes buf w = Some ((-1, EINVAL, buf), w)"
      by (subst readline_loop.simps) simp
    with less.prems show ?thesis
      by (intro exI [of _ "(-1, EINVAL, buf)"] exI [of _ w] exI [of _ 0]) auto
  next
    case room: True
    have "0 < (1::nat)" by simp
    with less.prems(1) assms(2) show ?thesis
    proof (cases rule: read_cases)
      case hard
      with room ok' readline_loop_turn(1) [OF room hard(1,2)] show ?thesis
        by (intro exI [of _ "(-1, err ?r, buf)"] exI [of _ ?w] exI [of _ 0]) auto
    next
      case intr
      with less.hyps [of ?w buf] less.prems ok' readline_loop_turn(2) [OF room intr(1,2)] show ?thesis by simp
    next
      case eof
      with room ok' readline_loop_turn(3) [OF room eof(1)] show ?thesis
        by (intro exI [of _ "if buf = [] then (0, err ?r, buf) else (-1, EINVAL, buf)"] exI [of _ ?w] exI [of _ 0]) auto
    next
      case (some k)
      then obtain c cs where c: "unread w fd = c # cs" by (cases "unread w fd") auto
      from some(2,3) have "k = 1" by simp
      with some c have k: "k = 1" "ret ?r = 1" "dat ?r = [c]" by simp_all
      note step = readline_loop_turn(4) [OF room k(2,3)]
      show ?thesis
      proof (cases "c = CHR 0x0A")
        case True
        with step some c k ok' room show ?thesis
          by (intro exI [of _ "(int (length buf) + 1, err ?r, buf @ [c, CHR 0x00])"] exI [of _ ?w] exI [of _ 1]) auto
      next
        case nl: False
        have "signals ?w + nat (nbytes - int (length (buf @ [c]))) < signals w + nat (nbytes - int (length buf))"
            "CHR 0x0A \<notin> set (buf @ [c])" "int (length (buf @ [c])) < nbytes \<or> buf @ [c] = []"
          using some room nl less.prems by auto
        from less.hyps [OF this(1) ok' this(2,3)] obtain r w' m where IH:
            "readline_loop os fd nbytes (buf @ [c]) ?w = Some (r, w')" "ok w'" "m \<le> length (unread ?w fd)"
            "unread w' = (unread ?w)(fd := drop m (unread ?w fd))" "0 < nbytes \<longrightarrow> int (length (dat r)) \<le> nbytes"
            "0 < ret r \<longrightarrow> dat r = (buf @ [c]) @ take m (unread ?w fd) @ [CHR 0x00] \<and>
               ret r = int (length (buf @ [c]) + m) \<and> 0 < m \<and>
               unread ?w fd ! (m - 1) = CHR 0x0A \<and> CHR 0x0A \<notin> set (take (m - 1) (unread ?w fd))"
          by (elim exE conjE) (rule that)
        with step some c k nl show ?thesis
          by (intro exI [of _ r] exI [of _ w'] exI [of _ "Suc m"]) (auto simp: take_Cons' nth_Cons')
      qed
    qed
  qed
qed

end

context reliable_fds
begin

lemma no_errors: "fd \<in> rd \<Longrightarrow> \<not> read_error os ok fd e" "fd \<in> wr \<Longrightarrow> \<not> write_error os ok fd e"
  using no_read_error no_write_error by (auto simp: read_error_def write_error_def)

lemma copyfile_exact:
  assumes "ok w" and "fromfd \<in> rd" and "tofd \<in> wr"
  shows "\<exists>res w' m. copyfile os fromfd tofd w = Some (res, w') \<and> ok w' \<and> m \<le> length (unread w fromfd) \<and>
     written w' = (written w)(tofd := written w tofd @ take m (unread w fromfd)) \<and> unread w' fromfd = drop m (unread w fromfd) \<and>
     (if int (length (unread w fromfd)) \<le> INT_MAX then res = Inr (int (length (unread w fromfd))) \<and> m = length (unread w fromfd)
      else res = Inl SignedOverflow \<and> INT_MAX < int m)"
proof -
  have ok: "\<not> (\<exists>e. read_error os ok fromfd e \<or> write_error os ok tofd e)" using no_errors assms(2,3) by blast
  obtain res w' m where r: "copyfile os fromfd tofd w = Some (res, w')" "ok w'" "m \<le> length (unread w fromfd)"
      "written w' = (written w)(tofd := written w tofd @ take m (unread w fromfd))"
      "copy_result False 0 (length (unread w fromfd)) m res" "unread w' fromfd = drop m (unread w fromfd)"
    using copyfile_loop_spec [OF assms, of 0] ok by (auto simp: copyfile_def int_limits)
  then show ?thesis
    by (intro exI [of _ res] exI [of _ w'] exI [of _ m]) (auto simp: copy_result_def split: sum.splits)
qed

lemma copyfile_complete:
  assumes "ok w" and "fromfd \<in> rd" and "tofd \<in> wr" and "int (length (unread w fromfd)) \<le> INT_MAX"
  shows "\<exists>w'. copyfile os fromfd tofd w = Some (Inr (int (length (unread w fromfd))), w') \<and> ok w' \<and>
           written w' = (written w)(tofd := written w tofd @ unread w fromfd) \<and> unread w' fromfd = []"
  using copyfile_exact [OF assms(1-3)] assms(4) by auto

end

section \<open>Deadlines\<close>

lemma time_left_correct:
  assumes "tv_norm end_t" and "tv_norm now"
  shows "usecs (time_left end_t now) = usecs end_t - usecs now \<and> tv_norm (time_left end_t now)"
  using assms by (auto simp: time_left_def tv_norm_def usecs_def MILLION_def Let_def)

lemma gettimeout_cases:
  assumes "tv_norm end_t" and "tv_norm (fst (sys_gettimeofday os w))"
  shows "ret (fst (gettimeout os end_t w)) =
           (if usecs (fst (sys_gettimeofday os w)) < usecs end_t then 0 else -1)"
proof -
  let ?t = "time_left end_t (fst (sys_gettimeofday os w))"
  from time_left_correct [OF assms]
  have "usecs ?t = usecs end_t - usecs (fst (sys_gettimeofday os w))" and "tv_norm ?t" by simp_all
  moreover from \<open>tv_norm ?t\<close> have "tv_sec ?t < 0 \<or> (tv_sec ?t = 0 \<and> tv_usec ?t = 0) \<longleftrightarrow> usecs ?t \<le> 0"
    by (auto simp: tv_norm_def usecs_def)
  ultimately show ?thesis by (simp add: gettimeout_def Let_def)
qed

lemma snd_gettimeout [simp]: "snd (gettimeout os end_t w) = snd (sys_gettimeofday os w)"
  by (simp add: gettimeout_def Let_def)

lemma gettimeout_err: "ret (fst (gettimeout os end_t w)) = -1 \<Longrightarrow> err (fst (gettimeout os end_t w)) = ETIME"
  by (auto simp: gettimeout_def Let_def split: if_splits)

context advancing_clock
begin

lemma select_loop_returns:
  assumes "tv_norm end_t"
  shows "\<exists>r w'. select_loop os fd end_t timeout w = Some (r, w') \<and> (fst r = 0 \<or> fst r = -1)"
proof (induction "budget end_t w" arbitrary: w timeout rule: less_induct)
  case less
  let ?s = "fst (sys_select os (fd + 1) timeout w)" and ?w = "snd (sys_select os (fd + 1) timeout w)"
  show ?case
  proof (cases "ret ?s = -1 \<and> err ?s = EINTR \<and> ret (fst (gettimeout os end_t ?w)) \<noteq> -1")
    case True
    then have "usecs (fst (sys_gettimeofday os ?w)) < usecs end_t"
      using gettimeout_cases [OF assms clock_norm, of ?w] by (auto split: if_splits)
    then have "budget end_t (snd (sys_gettimeofday os ?w)) < budget end_t w"
      using clock_advances select_keeps_clock by (meson less_le_trans)
    from less.hyps [OF this] True show ?thesis
      by (subst select_loop.simps) (simp add: Let_def)
  next
    case False
    then show ?thesis by (subst select_loop.simps) (auto simp: Let_def)
  qed
qed

lemma waitfdtimed_total:
  assumes "tv_norm end_t"
  shows "\<exists>r w'. waitfdtimed os fd end_t w = Some (r, w') \<and> (fst r = 0 \<or> fst r = -1)"
  using select_loop_returns [OF assms] by (auto simp: waitfdtimed_def Let_def)

end

section \<open>The contracts hold of the scripted kernels\<close>

lemma script_os_simps [simp]:
  "sys_read (script_os faulty) = script_read faulty"
  "sys_write (script_os faulty) = script_write faulty"
  by (simp_all add: script_os_def)

text \<open>A world whose descriptor 3 holds two lines, with signals and short transfers ahead.\<close>

definition demo_world :: sworld where
  "demo_world = \<lparr>s_unread = (\<lambda>fd. if fd = 3 then ''one\<newline>two'' else []), s_written = (\<lambda>fd. []),
     s_script = [Intr, Serve 1, Intr, Serve 0]\<rparr>"

lemmas script_defs = script_read_def script_write_def next_event_def intrs_def s_signals_def interrupted_def
  hard_error_def Let_def

interpretation scripted: fd_streams "script_os faulty" "\<lambda>_. True" UNIV UNIV s_unread s_written s_signals for faulty
  by unfold_locales
    (auto simp: script_defs min_def split: event.splits list.splits if_splits)

interpretation reliable: reliable_fds "script_os False" "\<lambda>_. True" UNIV UNIV s_unread s_written s_signals
  by unfold_locales
    (auto simp: script_defs split: event.splits list.splits if_splits)

interpretation ticking: advancing_clock ticking_os ticks_left
  by unfold_locales
    (auto simp: ticking_os_def ticks_left_def usecs_def tv_norm_def)

section \<open>Properties\<close>

text \<open>
  Every wrapper of the restart family returns exactly the first outcome of its system call
  that is not an interruption, and does not return exactly when there is none.
\<close>

theorem restart_first_uninterrupted:
  "restart f w = Some r \<longleftrightarrow>
   (\<exists>n. (\<forall>i < n. interrupted (fst (f (after f i w)))) \<and>
        \<not> interrupted (fst (f (after f n w))) \<and> r = f (after f n w))"
  by (rule restart_iff)

text \<open>The same, used on a call that two signals interrupt.\<close>

theorem restart_first_uninterrupted_witness:
  "restart (\<lambda>w::nat. if w < 2 then ((-1, EINTR, ()), w + 1) else ((7, 0, ()), w)) 0 = Some ((7, 0, ()), 2)"
  unfolding restart_first_uninterrupted
  by (intro exI [of _ 2])
    (auto simp: interrupted_def after_def numeral_2_eq_2 less_Suc_eq)

text \<open>
  C14: on any kernel that keeps the documented contract of \<^verbatim>\<open>write\<close>, \<^verbatim>\<open>r_write\<close> returns, has
  appended a prefix of the buffer to the file and touched nothing else, and unless it returns
  -1 the prefix is the whole buffer and the result its length; -1 comes with an error that a \<^verbatim>\<open>write\<close>
  of the kernel reported.
\<close>

theorem r_write_writes_all:
  assumes "fd_streams os ok rd wr unread written signals" and "ok w" and "fd \<in> wr"
  shows "\<exists>r w' m. r_write os fd buf w = Some (r, w') \<and> m \<le> length buf \<and>
           written w' = (written w)(fd := written w fd @ take m buf) \<and> unread w' = unread w \<and>
           (fst r = -1 \<and> write_error os ok fd (snd r) \<or> m = length buf \<and> fst r = int (length buf))"
  using fd_streams.r_write_loop_spec [OF assms, of buf 0] unfolding r_write_def by (elim exE conjE) auto

theorem r_write_writes_all_witness:
  "(\<exists>r w' m. r_write (script_os True) 4 ''hello'' demo_world = Some (r, w') \<and> m \<le> length ''hello'' \<and>
      s_written w' = (s_written demo_world)(4 := take m ''hello'') \<and> s_unread w' = s_unread demo_world \<and>
      (fst r = -1 \<or> m = length ''hello'' \<and> fst r = 5)) \<and>
   map_option (\<lambda>(r, w'). (fst r, s_written w' 4)) (r_write (script_os True) 4 ''hello'' demo_world) =
     Some (5, ''hello'')"
proof (rule conjI)
  have "s_written demo_world 4 = []" by (simp add: demo_world_def)
  then show "\<exists>r w' m. r_write (script_os True) 4 ''hello'' demo_world = Some (r, w') \<and> m \<le> length ''hello'' \<and>
      s_written w' = (s_written demo_world)(4 := take m ''hello'') \<and> s_unread w' = s_unread demo_world \<and>
      (fst r = -1 \<or> m = length ''hello'' \<and> fst r = 5)"
    using r_write_writes_all [OF scripted.fd_streams_axioms TrueI UNIV_I, of True 4 "''hello''" demo_world] by auto
qed (simp add: r_write_def r_write_loop.simps demo_world_def script_defs)

text \<open>
  C6: on a kernel without hard errors, however often signals interrupt it and however short
  the transfers are, \<^verbatim>\<open>copyfile\<close> returns. If the number of bytes the source delivers fits in an \<^verbatim>\<open>int\<close>, all of them were
  appended to the destination, and the result is their number. Otherwise the count overflows, after at least
  \<^term>\<open>INT_MAX\<close> bytes were copied: the behaviour is undefined.
\<close>

theorem copyfile_copies_all:
  assumes "reliable_fds os ok rd wr unread written signals" and "ok w" and "fromfd \<in> rd" and "tofd \<in> wr"
  shows "\<exists>res w' m. copyfile os fromfd tofd w = Some (res, w') \<and> m \<le> length (unread w fromfd) \<and>
     written w' = (written w)(tofd := written w tofd @ take m (unread w fromfd)) \<and> unread w' fromfd = drop m (unread w fromfd) \<and>
     (if int (length (unread w fromfd)) \<le> INT_MAX then res = Inr (int (length (unread w fromfd))) \<and> m = length (unread w fromfd)
      else res = Inl SignedOverflow \<and> INT_MAX < int m)"
  using reliable_fds.copyfile_exact [OF assms] by blast

theorem copyfile_copies_all_witness:
  "\<exists>w'. copyfile (script_os False) 3 4 demo_world = Some (Inr 7, w') \<and>
     s_written w' 4 = ''one\<newline>two'' \<and> s_unread w' 3 = []"
  using copyfile_copies_all [where w = demo_world and fromfd = 3 and tofd = 4, OF reliable.reliable_fds_axioms TrueI UNIV_I UNIV_I]
  by (auto simp: demo_world_def int_limits)

text \<open>
  C34: even when calls fail, and however long the source is, \<^verbatim>\<open>copyfile\<close> returns, what it appended to the destination is a prefix of
  the source, and the count it returns never exceeds what was appended nor \<^term>\<open>INT_MAX\<close>; the only
  undefined behaviour is the overflow of the count, once more than \<^term>\<open>INT_MAX\<close> and at most \<^const>\<open>BLKSIZE\<close> more bytes were appended.
\<close>

theorem copyfile_appends_prefix:
  assumes "fd_streams os ok rd wr unread written signals" and "ok w" and "fromfd \<in> rd" and "tofd \<in> wr"
  shows "\<exists>res w' m. copyfile os fromfd tofd w = Some (res, w') \<and> m \<le> length (unread w fromfd) \<and>
           written w' = (written w)(tofd := written w tofd @ take m (unread w fromfd)) \<and>
           (case res of Inr n \<Rightarrow> 0 \<le> n \<and> n \<le> int m \<and> n \<le> INT_MAX
            | Inl f \<Rightarrow> f = SignedOverflow \<and> INT_MAX < int m \<and> int m \<le> INT_MAX + int BLKSIZE)"
  using fd_streams.copyfile_loop_spec [OF assms, of 0] unfolding copyfile_def copy_result_def
  by (fastforce simp: int_limits split: sum.splits)

theorem copyfile_appends_prefix_witness:
  "\<exists>n w' m. copyfile (script_os True) 3 4 (demo_world\<lparr>s_script := [Serve 1, Serve 0, Fail 5]\<rparr>) = Some (Inr n, w') \<and>
     m \<le> length ''one\<newline>two'' \<and> s_written w' 4 = take m ''one\<newline>two'' \<and> 0 \<le> n \<and> n \<le> int m"
proof -
  define w where "w = demo_world\<lparr>s_script := [Serve 1, Serve 0, Fail 5]\<rparr>"
  have u: "s_unread w 3 = ''one\<newline>two''" "s_written w 4 = []" by (simp_all add: w_def demo_world_def)
  from copyfile_appends_prefix [where w = w and fromfd = 3 and tofd = 4, OF scripted.fd_streams_axioms [of True] TrueI UNIV_I UNIV_I]
  obtain res w' m where r: "copyfile (script_os True) 3 4 w = Some (res, w')" "m \<le> length (s_unread w 3)"
      "s_written w' = (s_written w)(4 := s_written w 4 @ take m (s_unread w 3))"
      "case res of Inr n \<Rightarrow> 0 \<le> n \<and> n \<le> int m \<and> n \<le> INT_MAX
       | Inl f \<Rightarrow> f = SignedOverflow \<and> INT_MAX < int m \<and> int m \<le> INT_MAX + int BLKSIZE"
    by (elim exE conjE) (rule that)
  then obtain n where "res = Inr n" "0 \<le> n" "n \<le> int m" using u(1) by (cases res) (auto simp: int_limits)
  with r u show ?thesis
    unfolding w_def [symmetric] by (intro exI [of _ n] exI [of _ w'] exI [of _ m]) (simp only: fun_upd_same append_Nil simp_thms)
qed

text \<open>
  C38: \<^verbatim>\<open>readblock\<close> never stores past the block and has exactly the outcomes its callers rely on: a
  full block, 0 at end of file with nothing stored, or -1 (EINVAL for a file that ends inside
  the block, else the error of a failed \<^verbatim>\<open>read\<close>).
\<close>

theorem readblock_outcomes:
  assumes "fd_streams os ok rd wr unread written signals" and "ok w" and "fd \<in> rd"
  shows "\<exists>r w' m. readblock os fd sz w = Some (r, w') \<and> m \<le> length (unread w fd) \<and>
     dat r = take m (unread w fd) \<and> unread w' = (unread w)(fd := drop m (unread w fd)) \<and> m \<le> sz \<and>
     (ret r = int sz \<and> m = sz \<or>
      ret r = 0 \<and> m = 0 \<and> unread w fd = [] \<or>
      ret r = -1 \<and> err r = EINVAL \<and> m = length (unread w fd) \<and> m < sz \<or>
      ret r = -1 \<and> read_error os ok fd (err r))"
proof -
  have empty: "length ([] :: string) \<le> sz" by simp
  obtain r w' m where b: "readblock_loop os fd sz [] w = Some (r, w')" "m \<le> length (unread w fd)"
      "dat r = [] @ take m (unread w fd)" "unread w' = (unread w)(fd := drop m (unread w fd))"
      "length (dat r) \<le> sz"
      "ret r = int sz \<and> length (dat r) = sz \<or>
       ret r = 0 \<and> dat r = [] \<and> unread w fd = [] \<or>
       ret r = -1 \<and> err r = EINVAL \<and> length (dat r) < sz \<and> unread w' fd = [] \<or>
       ret r = -1 \<and> read_error os ok fd (err r)"
    using fd_streams.readblock_loop_spec [OF assms empty] by (elim exE conjE) (rule that)
  then show ?thesis
    by (intro exI [of _ r] exI [of _ w'] exI [of _ m]) (auto simp: readblock_def)
qed

theorem readblock_outcomes_witness:
  "map_option (\<lambda>(r, w'). (ret r, dat r)) (readblock (script_os True) 3 4 demo_world) = Some (4, ''one\<newline>'') \<and>
   (\<exists>r w' m. readblock (script_os True) 3 9 demo_world = Some (r, w') \<and> dat r = take m ''one\<newline>two'' \<and> m \<le> 9)"
proof (rule conjI)
  have "s_unread demo_world 3 = ''one\<newline>two''" by (simp add: demo_world_def)
  then show "\<exists>r w' m. readblock (script_os True) 3 9 demo_world = Some (r, w') \<and>
      dat r = take m ''one\<newline>two'' \<and> m \<le> 9"
    using readblock_outcomes [OF scripted.fd_streams_axioms TrueI UNIV_I, of True 3 9 demo_world] by auto
qed (simp add: readblock_def readblock_loop.simps demo_world_def script_defs)

text \<open>
  C39: \<^verbatim>\<open>readline\<close> never stores more than \<^term>\<open>nbytes\<close> bytes, and when it returns a positive count it
  has stored exactly the next line, newline included, followed by NUL, and consumed just that.
\<close>

theorem readline_reads_line:
  assumes "fd_streams os ok rd wr unread written signals" and "ok w" and "fd \<in> rd" and "0 < nbytes"
  shows "\<exists>r w' m. readline os fd nbytes w = Some (r, w') \<and> int (length (dat r)) \<le> nbytes \<and>
     m \<le> length (unread w fd) \<and> unread w' = (unread w)(fd := drop m (unread w fd)) \<and>
     (0 < ret r \<longrightarrow> ret r = int m \<and> dat r = take m (unread w fd) @ [CHR 0x00] \<and> 0 < m \<and>
        unread w fd ! (m - 1) = CHR 0x0A \<and> CHR 0x0A \<notin> set (take (m - 1) (unread w fd)))"
  using fd_streams.readline_loop_spec [OF assms(1-3), of "[]" nbytes] assms(4)
  by (auto simp: readline_def)

theorem readline_reads_line_witness:
  "(\<exists>r w' m. readline (script_os True) 3 80 demo_world = Some (r, w') \<and> int (length (dat r)) \<le> 80 \<and>
      s_unread w' 3 = drop m ''one\<newline>two'') \<and>
   map_option (\<lambda>(r, w'). (ret r, dat r, s_unread w' 3)) (readline (script_os True) 3 80 demo_world) =
     Some (4, ''one\<newline>'' @ [CHR 0x00], ''two'')"
proof (rule conjI)
  have "s_unread demo_world 3 = ''one\<newline>two''" by (simp add: demo_world_def)
  then show "\<exists>r w' m. readline (script_os True) 3 80 demo_world = Some (r, w') \<and>
      int (length (dat r)) \<le> 80 \<and> s_unread w' 3 = drop m ''one\<newline>two''"
    using readline_reads_line [OF scripted.fd_streams_axioms TrueI UNIV_I, of 80 True 3 demo_world] by auto
qed (simp add: readline_def readline_loop.simps demo_world_def script_defs)

text \<open>
  \<^verbatim>\<open>gettimeout\<close> succeeds exactly while the deadline lies in the future, and then yields the
  exact time left in normal form; otherwise it reports ETIME.
\<close>

theorem gettimeout_correct:
  assumes "tv_norm end_t" and "tv_norm (fst (sys_gettimeofday os w))"
  shows "let now = fst (sys_gettimeofday os w); g = fst (gettimeout os end_t w) in
           (if usecs now < usecs end_t
            then ret g = 0 \<and> usecs (dat g) = usecs end_t - usecs now \<and> tv_norm (dat g)
            else ret g = -1 \<and> err g = ETIME)"
  using gettimeout_cases [OF assms] time_left_correct [OF assms] gettimeout_err [of os end_t w]
  by (auto simp: Let_def gettimeout_def)

theorem gettimeout_correct_witness:
  "ret (fst (gettimeout ticking_os \<lparr>tv_sec = 9, tv_usec = 5\<rparr> 4)) = 0 \<and>
   usecs (dat (fst (gettimeout ticking_os \<lparr>tv_sec = 9, tv_usec = 5\<rparr> 4))) = 5000005"
  using gettimeout_correct [of "\<lparr>tv_sec = 9, tv_usec = 5\<rparr>" ticking_os 4]
  by (simp add: ticking_os_def tv_norm_def usecs_def Let_def)

text \<open>
  C40: \<^verbatim>\<open>waitfdtimed\<close> always returns once the clock advances, even if every \<^verbatim>\<open>select\<close> is interrupted,
  and its result is 0 or -1.
\<close>

theorem waitfdtimed_returns:
  assumes "advancing_clock os budget" and "tv_norm end_t"
  shows "\<exists>r w'. waitfdtimed os fd end_t w = Some (r, w') \<and> (fst r = 0 \<or> fst r = -1)"
  using assms by (rule advancing_clock.waitfdtimed_total)

theorem waitfdtimed_returns_witness:
  "\<exists>r w'. waitfdtimed ticking_os 5 \<lparr>tv_sec = 3, tv_usec = 0\<rparr> 0 = Some (r, w') \<and> (fst r = 0 \<or> fst r = -1)"
  using waitfdtimed_returns [OF ticking.advancing_clock_axioms, of "\<lparr>tv_sec = 3, tv_usec = 0\<rparr>" 5 0]
  by (simp add: tv_norm_def)

end
