(* ===== verification/File_Copy.thy ===== *)
theory File_Copy
  imports Restart_Lib
begin

text \<open>
  The two programs that copy a file, \<^verbatim>\<open>mm/vm_usermode/mmap/fileio_mmap/reg_fileio.c\<close> with reads and
  writes (through the restart library, on any kernel, and on a file system of their own), and \<^verbatim>\<open>mmap_fileio.c\<close> with two memory
  mappings. For the second, the files, descriptors and mappings are modelled as far as the
  program uses them, and each call may fail. The build does not define \<^verbatim>\<open>DEBUG\<close>, so \<^verbatim>\<open>MSG\<close> prints nothing.
\<close>

unbundle bit_operations_syntax

section \<open>Open flags\<close>

text \<open>The values of \<^verbatim>\<open><fcntl.h>\<close> and \<^verbatim>\<open><sys/stat.h>\<close>.\<close>

definition O_RDONLY :: int where "O_RDONLY = 0"
definition O_WRONLY :: int where "O_WRONLY = 1"
definition O_RDWR :: int where "O_RDWR = 2"
definition O_ACCMODE :: int where "O_ACCMODE = 3"
definition O_CREAT :: int where "O_CREAT = 64"
definition O_TRUNC :: int where "O_TRUNC = 512"
definition O_APPEND :: int where "O_APPEND = 1024"
definition S_IRUSR :: int where "S_IRUSR = 256"
definition S_IWUSR :: int where "S_IWUSR = 128"
definition S_IRGRP :: int where "S_IRGRP = 32"
definition S_IROTH :: int where "S_IROTH = 4"

definition has_flag :: "int \<Rightarrow> int \<Rightarrow> bool" where
  "has_flag fl f \<longleftrightarrow> fl AND f \<noteq> 0"

definition readable :: "int \<Rightarrow> bool" where
  "readable fl \<longleftrightarrow> fl AND O_ACCMODE \<in> {O_RDONLY, O_RDWR}"

definition writable :: "int \<Rightarrow> bool" where
  "writable fl \<longleftrightarrow> fl AND O_ACCMODE \<in> {O_WRONLY, O_RDWR}"

lemmas flag_defs = O_RDONLY_def O_WRONLY_def O_RDWR_def O_ACCMODE_def O_CREAT_def O_TRUNC_def O_APPEND_def
  has_flag_def readable_def writable_def

text \<open>What the flags of the two programs allow.\<close>

lemma flags_used [simp]:
  "readable O_RDONLY" "\<not> has_flag O_RDONLY f"
  "writable (O_WRONLY OR O_CREAT)" "has_flag (O_WRONLY OR O_CREAT) O_CREAT"
  "\<not> has_flag (O_WRONLY OR O_CREAT) O_TRUNC" "\<not> has_flag (O_WRONLY OR O_CREAT) O_APPEND"
  "readable (O_RDWR OR O_CREAT)" "writable (O_RDWR OR O_CREAT)" "has_flag (O_RDWR OR O_CREAT) O_CREAT"
  "\<not> has_flag (O_RDWR OR O_CREAT) O_TRUNC" "\<not> has_flag (O_RDWR OR O_CREAT) O_APPEND"
  by (simp_all add: flag_defs)

section \<open>reg\_fileio.c\<close>

definition reg_fileio_main :: "'w os \<Rightarrow> string list \<Rightarrow> 'w \<Rightarrow> ((ending \<times> message list) \<times> 'w) option" where
  "reg_fileio_main os argv w =
     (if length argv \<noteq> 3 then
        Some ((Exit 1, [Stderr (emit ''Usage: %s source-file dest-file\<newline>'' [FStr (argv ! 0)])]), w)
      else
        Option.bind (r_open2 os (argv ! 1) O_RDONLY w) (\<lambda>(r, w1).
        if ret r = -1 then Some ((Exit 1, [Perror ''open: from file'']), w1)
        else
          Option.bind (r_open3 os (argv ! 2) (O_WRONLY OR O_CREAT) (S_IRUSR OR S_IWUSR OR S_IRGRP OR S_IROTH) w1) (\<lambda>(s, w2).
          if ret s = -1 then Some ((Exit 1, [Perror ''open: to file'']), w2)
          else
            Option.bind (copyfile os (ret r) (ret s) w2) (\<lambda>(res, w3).
            case res of
              Inl f \<Rightarrow> Some ((Undefined f, []), w3)
            | Inr n \<Rightarrow> Some ((Exit 0, [Stdout (emit ''n = %d\<newline>'' [FInt n])]),
                  snd (sys_close os (ret s) (snd (sys_close os (ret r) w3))))))))"

section \<open>mmap\_fileio.c\<close>

text \<open>Files by name; an open descriptor is a file, an offset and the flags it was opened with. Owners and modes are left out.\<close>

record fsys =
  files :: "string \<rightharpoonup> string"
  fds :: "int \<rightharpoonup> string \<times> nat \<times> int"

text \<open>Which calls the kernel lets fail, and the page size.\<close>

record kfaults =
  no_open_src :: bool
  no_open_dest :: bool
  no_stat :: bool
  no_write :: bool
  no_mmap_src :: bool
  no_mmap_dest :: bool
  pgsz :: nat

abbreviation (input) NUL :: char where "NUL \<equiv> CHR 0x00"

definition open_file :: "bool \<Rightarrow> int \<Rightarrow> int \<Rightarrow> string \<Rightarrow> fsys \<Rightarrow> int \<times> fsys" where
  "open_file refused fl fd path w =
     (if refused \<or> files w path = None \<and> \<not> has_flag fl O_CREAT then (-1, w)
      else (fd, w\<lparr>files := (case files w path of
                    None \<Rightarrow> (files w)(path \<mapsto> [])
                  | Some c \<Rightarrow> if has_flag fl O_TRUNC \<and> writable fl then (files w)(path \<mapsto> []) else files w),
                  fds := (fds w)(fd \<mapsto> (path, 0, fl))\<rparr>))"

definition lseek_set :: "int \<Rightarrow> nat \<Rightarrow> fsys \<Rightarrow> fsys" where
  "lseek_set fd off w =
     (case fds w fd of None \<Rightarrow> w | Some (path, p, fl) \<Rightarrow> w\<lparr>fds := (fds w)(fd \<mapsto> (path, off, fl))\<rparr>)"

text \<open>Bytes stored at an offset; a gap before it reads as zeros.\<close>

definition store_at :: "nat \<Rightarrow> string \<Rightarrow> string \<Rightarrow> string" where
  "store_at off bs c = take off c @ replicate (off - length c) NUL @ bs @ drop (off + length bs) c"

definition write_file :: "bool \<Rightarrow> int \<Rightarrow> string \<Rightarrow> fsys \<Rightarrow> fsys" where
  "write_file refused fd bs w =
     (case fds w fd of
        None \<Rightarrow> w
      | Some (path, pos, fl) \<Rightarrow>
          if refused \<or> \<not> writable fl then w
          else
            (let c = the (files w path); off = (if has_flag fl O_APPEND then length c else pos)
             in w\<lparr>files := (files w)(path \<mapsto> store_at off bs c), fds := (fds w)(fd \<mapsto> (path, off + length bs, fl))\<rparr>))"

definition close_fd :: "int \<Rightarrow> fsys \<Rightarrow> int \<times> fsys" where
  "close_fd fd w = (if fds w fd = None then (-1, w) else (0, w\<lparr>fds := (fds w)(fd := None)\<rparr>))"

text \<open>
  \<^verbatim>\<open>memcpy\<close> between the two mappings: an access beyond the last page of a file is fatal, and what is
  stored behind the end of the file, in its last page, does not reach it.
\<close>

definition mapped_bytes :: "nat \<Rightarrow> string \<Rightarrow> nat" where
  "mapped_bytes ps c = (length c + ps - 1) div ps * ps"

definition copy_mapping :: "nat \<Rightarrow> nat \<Rightarrow> string \<Rightarrow> string \<Rightarrow> string option" where
  "copy_mapping ps len src dest =
     (if mapped_bytes ps src < len \<or> mapped_bytes ps dest < len then None
      else Some (take (length dest) (take len (src @ replicate (len - length src) NUL)) @ drop len dest))"

text \<open>
  The part after \<^verbatim>\<open>pause()\<close>, which returns only if a handler for a signal is installed; unmapping
  the two valid mappings succeeds.
\<close>

definition after_pause :: "int \<Rightarrow> int \<Rightarrow> fsys \<Rightarrow> (ending \<times> message list) \<times> fsys" where
  "after_pause fd_from fd_to w =
     (let (r1, w1) = close_fd fd_from w; (r2, w2) = close_fd fd_to w1
      in ((Exit 0, (if r1 = -1 then [Perror ''close/3 failed''] else []) @
                   (if r2 = -1 then [Perror ''close/4 failed''] else [])), w2))"

text \<open>\<^verbatim>\<open>mmap\<close> needs a descriptor open for reading, and for writing too if the mapping is shared and writable.\<close>

definition may_map :: "bool \<Rightarrow> int \<Rightarrow> fsys \<Rightarrow> bool" where
  "may_map shared fd w = (case fds w fd of None \<Rightarrow> False | Some (path, off, fl) \<Rightarrow> readable fl \<and> (shared \<longrightarrow> writable fl))"

definition copy_by_mapping :: "kfaults \<Rightarrow> string \<Rightarrow> string \<Rightarrow> nat \<Rightarrow> int \<Rightarrow> int \<Rightarrow> fsys \<Rightarrow> (ending \<times> message list) \<times> fsys" where
  "copy_by_mapping K src dest len fd_from fd_to w =
     (let w1 = write_file (no_write K) fd_to [NUL] (lseek_set fd_to (len - 1) w) in
      if no_mmap_src K \<or> \<not> may_map False fd_from w1 then ((Exit 1, [Perror ''mmap: to src file'']), w1)
      else
        (let (r1, w2) = close_fd fd_from w1; out = (if r1 = -1 then [Perror ''close failed''] else []) in
         if no_mmap_dest K \<or> \<not> may_map True fd_to w2 then ((Exit 1, out @ [Perror ''mmap: to dest file'']), w2)
         else
           (let (r2, w3) = close_fd fd_to w2; out2 = out @ (if r2 = -1 then [Perror ''close failed''] else []) in
            case copy_mapping (pgsz K) len (the (files w3 src)) (the (files w3 dest)) of
              None \<Rightarrow> ((Sigbus, out2), w3)
            | Some c \<Rightarrow> ((Paused, out2), w3\<lparr>files := (files w3)(dest \<mapsto> c)\<rparr>))))"

definition mmap_fileio_main :: "kfaults \<Rightarrow> string list \<Rightarrow> fsys \<Rightarrow> (ending \<times> message list) \<times> fsys" where
  "mmap_fileio_main K argv w =
     (if length argv \<noteq> 3 then
        ((Exit 1, [Stderr (emit ''Usage: %s source-file dest-file\<newline>'' [FStr (argv ! 0)])]), w)
      else
        (let src = argv ! 1; dest = argv ! 2; (fd_from, w1) = open_file (no_open_src K) O_RDONLY 3 src w in
         if fd_from = -1 then ((Exit 1, [Perror ''open: src file'']), w1)
         else
           (let (fd_to, w2) = open_file (no_open_dest K) (O_RDWR OR O_CREAT) 4 dest w1 in
            if fd_to = -1 then ((Exit 1, [Perror ''open: dest file'']), w2)
            else if no_stat K then ((Exit 1, [Perror ''stat'']), w2)
            else
              (let len = length (the (files w2 src)) in
               if len = 0 then
                 ((Exit 1, [Stderr (emit ''%s: source-file %s size is zero bytes, aborting...\<newline>'' [FStr (argv ! 0), FStr src])]), w2)
               else copy_by_mapping K src dest len fd_from fd_to w2))))"

section \<open>The files under the restart library\<close>

text \<open>
  The same files as a kernel for the restart library: \<^verbatim>\<open>read\<close> and \<^verbatim>\<open>write\<close> move the offset of their
  descriptor, and a script says which calls a signal interrupts and how much the others transfer.
\<close>

definition fs_open :: "bool \<Rightarrow> int \<Rightarrow> int \<Rightarrow> string \<Rightarrow> (fsys \<times> event list, unit) call" where
  "fs_open refused fl fd path = (\<lambda>(w, es).
     (let (r, w') = open_file refused fl fd path w in ((r, if r = -1 then ENOENT else 0, ()), (w', es))))"

definition fs_read :: "int \<Rightarrow> nat \<Rightarrow> (fsys \<times> event list, string) call" where
  "fs_read fd n = (\<lambda>(w, es). case fds w fd of
       None \<Rightarrow> ((-1, EBADF, []), (w, es))
     | Some (path, off, fl) \<Rightarrow>
         if \<not> readable fl then ((-1, EBADF, []), (w, es)) else
         (case next_event False es of
            Intr \<Rightarrow> ((-1, EINTR, []), (w, tl es))
          | Fail e \<Rightarrow> ((-1, e, []), (w, tl es))
          | Serve m \<Rightarrow>
              (let rest = drop off (the (files w path)); k = min (min n (Suc m)) (length rest)
               in ((int k, 0, take k rest), (w\<lparr>fds := (fds w)(fd \<mapsto> (path, off + k, fl))\<rparr>, tl es)))))"

definition fs_write :: "int \<Rightarrow> string \<Rightarrow> (fsys \<times> event list, unit) call" where
  "fs_write fd bs = (\<lambda>(w, es). case fds w fd of
       None \<Rightarrow> ((-1, EBADF, ()), (w, es))
     | Some (path, off, fl) \<Rightarrow>
         if \<not> writable fl then ((-1, EBADF, ()), (w, es)) else
         (case next_event False es of
            Intr \<Rightarrow> ((-1, EINTR, ()), (w, tl es))
          | Fail e \<Rightarrow> ((-1, e, ()), (w, tl es))
          | Serve m \<Rightarrow>
              (let k = min (length bs) (Suc m) in ((int k, 0, ()), (write_file False fd (take k bs) w, tl es)))))"

definition fs_os :: "kfaults \<Rightarrow> (fsys \<times> event list) os" where
  "fs_os K =
     \<lparr>sys_close = (\<lambda>fd (w, es). let (r, w') = close_fd fd w in ((r, if r = -1 then EBADF else 0, ()), (w', es))),
      sys_dup2 = (\<lambda>a b w. ((-1, EBADF, ()), w)),
      sys_open2 = (\<lambda>path fl. fs_open (no_open_src K) fl 3 path),
      sys_open3 = (\<lambda>path fl m. fs_open (no_open_dest K) fl 4 path),
      sys_read = fs_read,
      sys_write = fs_write,
      sys_wait = (\<lambda>w. ((-1, ECHILD, 0), w)),
      sys_waitpid = (\<lambda>p opts w. ((-1, ECHILD, 0), w)),
      sys_gettimeofday = (\<lambda>w. (\<lparr>tv_sec = 0, tv_usec = 0\<rparr>, w)),
      sys_select = (\<lambda>n t w. ((1, 0, ()), w))\<rparr>"

text \<open>
  A copy from \<open>src\<close> to \<open>dest\<close> under way, over the files \<open>F\<close> it found: behind the offset of the
  destination, and in all other files, nothing has changed.
\<close>

definition copying :: "string \<Rightarrow> string \<Rightarrow> (string \<rightharpoonup> string) \<Rightarrow> fsys \<Rightarrow> bool" where
  "copying src dest F w \<longleftrightarrow> src \<noteq> dest \<and>
     (\<exists>i j c. fds w 3 = Some (src, i, O_RDONLY) \<and> fds w 4 = Some (dest, j, O_WRONLY OR O_CREAT) \<and> files w = F(dest \<mapsto> c) \<and> F dest \<noteq> None \<and>
        j \<le> length c \<and> drop j c = drop j (the (F dest)))"

definition fs_unread :: "fsys \<Rightarrow> int \<Rightarrow> string" where
  "fs_unread w fd = (if fd = 3 then (case fds w 3 of None \<Rightarrow> [] | Some (path, off, fl) \<Rightarrow> drop off (the (files w path))) else [])"

definition fs_written :: "fsys \<Rightarrow> int \<Rightarrow> string" where
  "fs_written w fd = (if fd = 4 then (case fds w 4 of None \<Rightarrow> [] | Some (path, off, fl) \<Rightarrow> take off (the (files w path))) else [])"

section \<open>Facts about stored bytes\<close>

lemma length_store_at: "length (store_at off bs c) = max (length c) (off + length bs)"
  by (auto simp: store_at_def)

lemma mapped_bytes_ge: "0 < ps \<Longrightarrow> length c \<le> mapped_bytes ps c"
proof -
  assume "0 < ps"
  then have "length c + ps - 1 < (length c + ps - 1) div ps * ps + ps"
    using mod_less_divisor [of ps "length c + ps - 1"] div_mult_mod_eq [of "length c + ps - 1" ps] by linarith
  then show ?thesis unfolding mapped_bytes_def by linarith
qed

lemma copy_mapping_full:
  assumes "0 < ps" and "len = length src" and "len \<le> length dest"
  shows "copy_mapping ps len src dest = Some (src @ drop len dest)"
  using assms mapped_bytes_ge [of ps src] mapped_bytes_ge [of ps dest] by (simp add: copy_mapping_def)

lemma drop_store_at: "drop (Suc off) (store_at off [b] c) = drop (Suc off) c"
  by (cases "off \<le> length c") (simp_all add: store_at_def min_def)

lemma store_at_append: "off \<le> length c \<Longrightarrow> take (off + length bs) (store_at off bs c) = take off c @ bs"
  by (simp add: store_at_def)

lemma store_at_behind:
  "off \<le> length c \<Longrightarrow> drop off c = drop off d \<Longrightarrow> drop (off + length bs) (store_at off bs c) = drop (off + length bs) d"
  by (simp add: store_at_def add.commute) (metis add.commute drop_drop)

section \<open>The file system keeps the contract\<close>

lemma copying_write:
  assumes "copying src dest F w"
  shows "copying src dest F (write_file False 4 bs w)"
proof -
  from assms obtain i j c where w: "src \<noteq> dest" "fds w 3 = Some (src, i, O_RDONLY)" "fds w 4 = Some (dest, j, O_WRONLY OR O_CREAT)" "files w = F(dest \<mapsto> c)"
      "F dest \<noteq> None" "j \<le> length c" "drop j c = drop j (the (F dest))"
    by (auto simp: copying_def)
  with store_at_behind [OF w(6,7), of bs] show ?thesis
    by (auto simp: copying_def write_file_def length_store_at)
qed

lemmas fs_defs = fs_os_def fs_read_def fs_write_def fs_unread_def fs_written_def Let_def

lemma next_event_reliable: "next_event False es = Fail e \<Longrightarrow> False"
  by (auto simp: next_event_def split: list.splits event.splits if_splits)

lemma next_event_intr: "next_event False es = Intr \<Longrightarrow> intrs (tl es) < intrs es"
  by (auto simp: next_event_def intrs_def split: list.splits event.splits if_splits)

lemma intrs_tl: "intrs (tl es) \<le> intrs es"
  by (cases es) (auto simp: intrs_def)

text \<open>Moving the offsets.\<close>

lemma read_moves_offset:
  assumes "copying src dest F w" and "fds w 3 = Some (src, off, O_RDONLY)" and w': "w' = w\<lparr>fds := (fds w)(3 \<mapsto> (src, off + k, O_RDONLY))\<rparr>"
  shows "copying src dest F w'" and "fs_unread w' = (fs_unread w)(3 := drop k (fs_unread w 3))" and "fs_written w' = fs_written w"
  using assms(1,2) by (auto simp: copying_def fs_unread_def fs_written_def fun_eq_iff w' add.commute)

lemma write_moves_offset:
  assumes "copying src dest F w"
  shows "fs_written (write_file False 4 bs w) = (fs_written w)(4 := fs_written w 4 @ bs)"
    and "fs_unread (write_file False 4 bs w) = fs_unread w"
proof -
  from assms obtain i j c where w: "src \<noteq> dest" "fds w 3 = Some (src, i, O_RDONLY)" "fds w 4 = Some (dest, j, O_WRONLY OR O_CREAT)" "files w = F(dest \<mapsto> c)"
      "j \<le> length c"
    by (auto simp: copying_def)
  then show "fs_written (write_file False 4 bs w) = (fs_written w)(4 := fs_written w 4 @ bs)"
    "fs_unread (write_file False 4 bs w) = fs_unread w"
    by (auto simp: fs_unread_def fs_written_def write_file_def fun_eq_iff store_at_append)
qed

text \<open>One call on the open files: interrupted, or some bytes are moved.\<close>

lemma fs_read_law:
  assumes "copying src dest F w"
  shows "fs_read 3 n (w, es) = ((-1, EINTR, []), (w, tl es)) \<and> intrs (tl es) < intrs es \<or>
    (\<exists>k w'. fs_read 3 n (w, es) = ((int k, 0, take k (fs_unread w 3)), (w', tl es)) \<and> k \<le> n \<and> k \<le> length (fs_unread w 3) \<and>
       (k = 0 \<longrightarrow> n = 0 \<or> fs_unread w 3 = []) \<and> copying src dest F w' \<and>
       fs_unread w' = (fs_unread w)(3 := drop k (fs_unread w 3)) \<and> fs_written w' = fs_written w)"
proof -
  from assms obtain off where off: "fds w 3 = Some (src, off, O_RDONLY)" by (auto simp: copying_def)
  then have u: "fs_unread w 3 = drop off (the (files w src))" by (simp add: fs_unread_def)
  show ?thesis
  proof (cases "next_event False es")
    case (Serve m)
    let ?k = "min (min n (Suc m)) (length (fs_unread w 3))"
    have "fs_read 3 n (w, es) = ((int ?k, 0, take ?k (fs_unread w 3)), (w\<lparr>fds := (fds w)(3 \<mapsto> (src, off + ?k, O_RDONLY))\<rparr>, tl es))"
      using off u Serve by (simp add: fs_read_def Let_def)
    with read_moves_offset [OF assms off refl, of ?k] show ?thesis
      by (intro disjI2 exI [of _ ?k] exI [of _ "w\<lparr>fds := (fds w)(3 \<mapsto> (src, off + ?k, O_RDONLY))\<rparr>"]) (simp add: min_def)
  qed (use off next_event_intr [of es] next_event_reliable [of es] in \<open>auto simp: fs_read_def\<close>)
qed

lemma fs_write_law:
  assumes "copying src dest F w"
  shows "fs_write 4 bs (w, es) = ((-1, EINTR, ()), (w, tl es)) \<and> intrs (tl es) < intrs es \<or>
    (\<exists>k w'. fs_write 4 bs (w, es) = ((int k, 0, ()), (w', tl es)) \<and> k \<le> length bs \<and> (bs \<noteq> [] \<longrightarrow> 0 < k) \<and>
       copying src dest F w' \<and> fs_written w' = (fs_written w)(4 := fs_written w 4 @ take k bs) \<and> fs_unread w' = fs_unread w)"
proof -
  from assms obtain off where off: "fds w 4 = Some (dest, off, O_WRONLY OR O_CREAT)" by (auto simp: copying_def)
  show ?thesis
  proof (cases "next_event False es")
    case (Serve m)
    let ?k = "min (length bs) (Suc m)"
    have "fs_write 4 bs (w, es) = ((int ?k, 0, ()), (write_file False 4 (take ?k bs) w, tl es))"
      using off Serve by (simp add: fs_write_def Let_def)
    with copying_write [OF assms] write_moves_offset [OF assms] show ?thesis
      by (intro disjI2 exI [of _ ?k] exI [of _ "write_file False 4 (take ?k bs) w"]) (simp add: min_def)
  qed (use off next_event_intr [of es] next_event_reliable [of es] in \<open>auto simp: fs_write_def\<close>)
qed

lemma fs_os_calls [simp]: "sys_read (fs_os K) = fs_read" "sys_write (fs_os K) = fs_write"
  by (simp_all add: fs_os_def)

lemma fs_reads:
  fixes n :: nat
  assumes "copying src dest F (fst w)"
  defines "r \<equiv> fst (fs_read 3 n w)" and "w' \<equiv> snd (fs_read 3 n w)"
  shows "copying src dest F (fst w')" "intrs (snd w') \<le> intrs (snd w)" "fs_written (fst w') = fs_written (fst w)"
    and "ret r = -1 \<Longrightarrow> err r = EINTR \<and> intrs (snd w') < intrs (snd w) \<and> fs_unread (fst w') = fs_unread (fst w)"
    and "ret r \<noteq> -1 \<Longrightarrow> \<exists>k. ret r = int k \<and> k \<le> n \<and> k \<le> length (fs_unread (fst w) 3) \<and>
       (k = 0 \<longrightarrow> n = 0 \<or> fs_unread (fst w) 3 = []) \<and> dat r = take k (fs_unread (fst w) 3) \<and>
       fs_unread (fst w') = (fs_unread (fst w))(3 := drop k (fs_unread (fst w) 3))"
  using fs_read_law [OF assms(1), of n "snd w"] assms(1) intrs_tl [of "snd w"] unfolding r_def w'_def by auto

lemma fs_writes:
  fixes bs :: string
  assumes "copying src dest F (fst w)"
  defines "r \<equiv> fst (fs_write 4 bs w)" and "w' \<equiv> snd (fs_write 4 bs w)"
  shows "copying src dest F (fst w')" "intrs (snd w') \<le> intrs (snd w)" "fs_unread (fst w') = fs_unread (fst w)"
    and "ret r = -1 \<Longrightarrow> err r = EINTR \<and> intrs (snd w') < intrs (snd w) \<and> fs_written (fst w') = fs_written (fst w)"
    and "ret r \<noteq> -1 \<Longrightarrow> \<exists>k. ret r = int k \<and> k \<le> length bs \<and> (bs \<noteq> [] \<longrightarrow> 0 < k) \<and>
       fs_written (fst w') = (fs_written (fst w))(4 := fs_written (fst w) 4 @ take k bs)"
  using fs_write_law [OF assms(1), of bs "snd w"] assms(1) intrs_tl [of "snd w"] unfolding r_def w'_def by auto

interpretation fs_copy: reliable_fds "fs_os K" "\<lambda>w. copying src dest F (fst w)" "{3}" "{4}"
    "\<lambda>w. fs_unread (fst w)" "\<lambda>w. fs_written (fst w)" "\<lambda>w. intrs (snd w)" for K src dest F
  by unfold_locales (use fs_reads fs_writes in \<open>auto simp: interrupted_def hard_error_def\<close>)

section \<open>Properties\<close>

text \<open>
  On a kernel without hard errors, once both files could be opened, \<^verbatim>\<open>reg_fileio\<close> terminates,
  appends all that the source still delivers to what the destination accepted, whatever signals
  interrupt it, prints the number of bytes and exits with 0.
\<close>

theorem reg_fileio_copies:
  assumes "reliable_fds os ok rd wr unread written signals" and "length argv = 3"
    and "r_open2 os (argv ! 1) O_RDONLY w = Some (r, w1)" and "ret r \<noteq> -1"
    and "r_open3 os (argv ! 2) (O_WRONLY OR O_CREAT) (S_IRUSR OR S_IWUSR OR S_IRGRP OR S_IROTH) w1 = Some (s, w2)" and "ret s \<noteq> -1"
    and "ok w2" and "ret r \<in> rd" and "ret s \<in> wr"
    and "int (length (unread w2 (ret r))) \<le> INT_MAX"
  shows "\<exists>w3. copyfile os (ret r) (ret s) w2 = Some (Inr (int (length (unread w2 (ret r)))), w3) \<and>
     ok w3 \<and> written w3 = (written w2)(ret s := written w2 (ret s) @ unread w2 (ret r)) \<and>
     reg_fileio_main os argv w =
       Some ((Exit 0, [Stdout (emit ''n = %d\<newline>'' [FInt (int (length (unread w2 (ret r))))])]),
             snd (sys_close os (ret s) (snd (sys_close os (ret r) w3))))"
proof -
  obtain w3 where "copyfile os (ret r) (ret s) w2 = Some (Inr (int (length (unread w2 (ret r)))), w3)" "ok w3"
      "written w3 = (written w2)(ret s := written w2 (ret s) @ unread w2 (ret r))"
    using reliable_fds.copyfile_complete [OF assms(1,7-10)] by blast
  with assms(2-6) show ?thesis by (intro exI [of _ w3]) (simp add: reg_fileio_main_def)
qed

theorem reg_fileio_copies_witness:
  "\<exists>w3. s_written w3 4 = ''one\<newline>two'' \<and>
     reg_fileio_main (script_os False) [''reg_fileio'', ''a'', ''b''] demo_world =
       Some ((Exit 0, [Stdout (emit ''n = %d\<newline>'' [FInt 7])]), w3)"
proof -
  have "r_open2 (script_os False) ''a'' O_RDONLY demo_world = Some ((3, 0, ()), demo_world)"
    "r_open3 (script_os False) ''b'' (O_WRONLY OR O_CREAT) (S_IRUSR OR S_IWUSR OR S_IRGRP OR S_IROTH) demo_world = Some ((4, 0, ()), demo_world)"
    by (simp_all add: r_open2_def r_open3_def script_os_def restart.simps interrupted_def)
  with reg_fileio_copies [OF reliable.reliable_fds_axioms, of "[''reg_fileio'', ''a'', ''b'']" demo_world "(3, 0, ())" demo_world
      "(4, 0, ())" demo_world]
  show ?thesis by (auto simp: demo_world_def int_limits script_os_def)
qed

lemma mmap_copy:
  assumes "K = \<lparr>no_open_src = False, no_open_dest = False, no_stat = False, no_write = False,
      no_mmap_src = False, no_mmap_dest = False, pgsz = ps\<rparr>"
    and "0 < ps" and "files w src = Some s" and "s \<noteq> []"
  shows "\<exists>w'. mmap_fileio_main K [prog, src, dest] w = ((Paused, []), w') \<and> fds w' 3 = None \<and> fds w' 4 = None \<and>
     files w' = (files w)(dest \<mapsto>
       (if src = dest then butlast s @ [NUL]
        else s @ drop (length s) (case files w dest of None \<Rightarrow> [] | Some c \<Rightarrow> c)))"
proof -
  let ?n = "length s" and ?d = "case files w dest of None \<Rightarrow> [] | Some c \<Rightarrow> c"
  have n: "0 < ?n" using assms(4) by simp
  let ?e = "store_at (?n - 1) [NUL] ?d"
  have len: "?n \<le> length ?e" using n by (simp add: length_store_at)
  have tail: "drop ?n ?e = drop ?n ?d" using drop_store_at [of "?n - 1" NUL ?d] n by simp
  have self: "store_at (?n - 1) [NUL] s = butlast s @ [NUL]" using n by (simp add: store_at_def butlast_conv_take)
  have full: "copy_mapping ps ?n s ?e = Some (s @ drop ?n ?d)"
    using copy_mapping_full [OF assms(2) refl len] tail by simp
  have full': "copy_mapping ps ?n (butlast s @ [NUL]) (butlast s @ [NUL]) = Some (butlast s @ [NUL])"
    using copy_mapping_full [OF assms(2), of ?n "butlast s @ [NUL]" "butlast s @ [NUL]"] n by simp
  show ?thesis
  proof (cases "src = dest")
    case True
    then have "?d = s" using assms(3) by simp
    with True assms n self full' show ?thesis
      by (simp add: mmap_fileio_main_def copy_by_mapping_def open_file_def lseek_set_def write_file_def may_map_def close_fd_def Let_def fun_upd_twist)
  next
    case False
    with assms n full show ?thesis
      by (cases "files w dest")
        (simp_all add: mmap_fileio_main_def copy_by_mapping_def open_file_def lseek_set_def write_file_def may_map_def close_fd_def Let_def fun_upd_twist)
  qed
qed

text \<open>
  C15: when no call fails, \<^verbatim>\<open>mmap_fileio\<close> copies a nonempty source over the beginning of the
  destination, creating it if need be, leaves the source and every other file alone, and then waits
  in \<^verbatim>\<open>pause\<close> with both descriptors closed. The rest of a longer destination is kept, because the file
  is opened without \<^verbatim>\<open>O_TRUNC\<close>; and a file copied onto itself loses its last byte, which is
  overwritten with the zero byte meant to extend the destination.
\<close>

theorem mmap_fileio_copies:
  assumes "K = \<lparr>no_open_src = False, no_open_dest = False, no_stat = False, no_write = False,
      no_mmap_src = False, no_mmap_dest = False, pgsz = ps\<rparr>"
    and "0 < ps" and "files w src = Some s" and "s \<noteq> []"
  shows "\<exists>w'. mmap_fileio_main K [prog, src, dest] w = ((Paused, []), w') \<and> fds w' 3 = None \<and> fds w' 4 = None \<and>
     files w' = (files w)(dest \<mapsto>
       (if src = dest then butlast s @ [NUL]
        else s @ drop (length s) (case files w dest of None \<Rightarrow> [] | Some c \<Rightarrow> c)))"
  using assms by (rule mmap_copy)

theorem mmap_fileio_copies_witness:
  "\<exists>w'. mmap_fileio_main \<lparr>no_open_src = False, no_open_dest = False, no_stat = False, no_write = False,
       no_mmap_src = False, no_mmap_dest = False, pgsz = 4096\<rparr> [''mmap_fileio'', ''a'', ''b'']
       \<lparr>files = [''a'' \<mapsto> ''new'', ''b'' \<mapsto> ''older''], fds = Map.empty\<rparr> = ((Paused, []), w') \<and> files w' ''b'' = Some ''newer'' \<and> files w' ''a'' = Some ''new''"
  using mmap_fileio_copies [OF refl, of 4096 "\<lparr>files = [''a'' \<mapsto> ''new'', ''b'' \<mapsto> ''older''], fds = Map.empty\<rparr>" "''a''" "''new''"
      "''mmap_fileio''" "''b''"]
  by auto



text \<open>The same program on the file system, for two files.\<close>

lemma reg_fileio_on_files:
  assumes "\<not> no_open_src K" and "\<not> no_open_dest K" and "files w src = Some s" and "int (length s) \<le> INT_MAX" and "src \<noteq> dest"
  shows "\<exists>w' es'. reg_fileio_main (fs_os K) [prog, src, dest] (w, es) =
       Some ((Exit 0, [Stdout (emit ''n = %d\<newline>'' [FInt (int (length s))])]), (w', es')) \<and>
     fds w' 3 = None \<and> fds w' 4 = None \<and>
     files w' = (files w)(dest \<mapsto> s @ drop (length s) (case files w dest of None \<Rightarrow> [] | Some c \<Rightarrow> c))"
proof -
  let ?d = "case files w dest of None \<Rightarrow> [] | Some c \<Rightarrow> c"
  let ?F = "(files w)(dest \<mapsto> ?d)"
  let ?w1 = "w\<lparr>fds := (fds w)(3 \<mapsto> (src, 0, O_RDONLY))\<rparr>"
  let ?w2 = "\<lparr>files = ?F, fds = (fds w)(3 \<mapsto> (src, 0, O_RDONLY), 4 \<mapsto> (dest, 0, O_WRONLY OR O_CREAT))\<rparr>"
  have 1: "r_open2 (fs_os K) src O_RDONLY (w, es) = Some ((3, 0, ()), (?w1, es))"
    using assms by (simp add: r_open2_def fs_os_def fs_open_def open_file_def restart.simps interrupted_def)
  have 2: "r_open3 (fs_os K) dest (O_WRONLY OR O_CREAT) m (?w1, es) = Some ((4, 0, ()), (?w2, es))" for m
    using assms by (cases "files w dest")
      (simp_all add: r_open3_def fs_os_def fs_open_def open_file_def restart.simps interrupted_def fun_upd_idem)
  have u: "fs_unread ?w2 3 = s" "fs_written ?w2 4 = []" using assms(3,5) by (simp_all add: fs_unread_def fs_written_def)
  have good: "copying src dest ?F ?w2" using assms(5) by (simp add: copying_def)
  let ?argv = "[prog, src, dest]" and ?o = "\<lambda>w. fs_unread (fst w)" and ?p = "\<lambda>w. fs_written (fst w)"
  obtain w3 es3 where w3: "copying src dest ?F w3" "fs_written w3 4 = s"
      "reg_fileio_main (fs_os K) ?argv (w, es) = Some ((Exit 0, [Stdout (emit ''n = %d\<newline>'' [FInt (int (length s))])]),
         snd (sys_close (fs_os K) 4 (snd (sys_close (fs_os K) 3 (w3, es3)))))"
    using reg_fileio_copies [OF fs_copy.reliable_fds_axioms, of ?argv K "(w, es)" "(3, 0, ())" "(?w1, es)" "(4, 0, ())" "(?w2, es)" src dest ?F]
      1 2 good u assms(4) by auto
  then obtain i j c where c: "fds w3 3 = Some (src, i, O_RDONLY)" "fds w3 4 = Some (dest, j, O_WRONLY OR O_CREAT)" "files w3 = ?F(dest \<mapsto> c)"
      "j \<le> length c" "drop j c = drop j ?d"
    by (auto simp: copying_def)
  with w3(2) have "take j c = s" by (simp add: fs_written_def)
  with c(4,5) have "c = s @ drop (length s) ?d" by (metis append_take_drop_id length_take min_absorb2)
  with c w3(3) show ?thesis by (simp add: fs_os_def close_fd_def)
qed

text \<open>
  C16: the two programs agree: on the same files, with two different names and a nonempty source of at most
  \<^term>\<open>INT_MAX\<close> bytes (the count of \<^verbatim>\<open>copyfile\<close> overflows beyond), and
  when no call fails, the copy through reads and writes, whatever signals interrupt it and however
  little each call transfers, ends with exactly the files that the copy through mappings leaves, with the flags each
  program opens its files with.
\<close>

theorem copiers_agree:
  assumes "K = \<lparr>no_open_src = False, no_open_dest = False, no_stat = False, no_write = False,
      no_mmap_src = False, no_mmap_dest = False, pgsz = ps\<rparr>"
    and "0 < ps" and "files w src = Some s" and "s \<noteq> []" and "int (length s) \<le> INT_MAX" and "src \<noteq> dest"
  shows "\<exists>w1 es1 w2. reg_fileio_main (fs_os K) [prog1, src, dest] (w, es) =
       Some ((Exit 0, [Stdout (emit ''n = %d\<newline>'' [FInt (int (length s))])]), (w1, es1)) \<and>
     mmap_fileio_main K [prog2, src, dest] w = ((Paused, []), w2) \<and> files w1 = files w2"
proof -
  obtain w1 es1 where "reg_fileio_main (fs_os K) [prog1, src, dest] (w, es) =
       Some ((Exit 0, [Stdout (emit ''n = %d\<newline>'' [FInt (int (length s))])]), (w1, es1))"
      "files w1 = (files w)(dest \<mapsto> s @ drop (length s) (case files w dest of None \<Rightarrow> [] | Some c \<Rightarrow> c))"
    using reg_fileio_on_files [OF _ _ assms(3,5,6), of K prog1 es] assms(1) by auto
  moreover obtain w2 where "mmap_fileio_main K [prog2, src, dest] w = ((Paused, []), w2)"
      "files w2 = (files w)(dest \<mapsto> s @ drop (length s) (case files w dest of None \<Rightarrow> [] | Some c \<Rightarrow> c))"
    using mmap_copy [OF assms(1-4), of prog2 dest] assms(6) by auto
  ultimately show ?thesis by metis
qed

theorem copiers_agree_witness:
  "\<exists>w1 es1 w2. reg_fileio_main (fs_os \<lparr>no_open_src = False, no_open_dest = False, no_stat = False, no_write = False,
       no_mmap_src = False, no_mmap_dest = False, pgsz = 4096\<rparr>) [''reg_fileio'', ''a'', ''b'']
       (\<lparr>files = [''a'' \<mapsto> ''new'', ''b'' \<mapsto> ''older''], fds = Map.empty\<rparr>, [Intr, Serve 0, Intr]) =
       Some ((Exit 0, [Stdout (emit ''n = %d\<newline>'' [FInt 3])]), (w1, es1)) \<and>
     mmap_fileio_main \<lparr>no_open_src = False, no_open_dest = False, no_stat = False, no_write = False,
       no_mmap_src = False, no_mmap_dest = False, pgsz = 4096\<rparr> [''mmap_fileio'', ''a'', ''b'']
       \<lparr>files = [''a'' \<mapsto> ''new'', ''b'' \<mapsto> ''older''], fds = Map.empty\<rparr> = ((Paused, []), w2) \<and> files w1 = files w2"
  using copiers_agree [OF refl, of 4096 "\<lparr>files = [''a'' \<mapsto> ''new'', ''b'' \<mapsto> ''older''], fds = Map.empty\<rparr>" "''a''" "''new''" "''b''"
      "''reg_fileio''" "[Intr, Serve 0, Intr]" "''mmap_fileio''"]
  by (simp add: int_limits)

text \<open>Were \<^verbatim>\<open>pause\<close> to return, both descriptors would be closed a second time, and both calls fail.\<close>

lemma closed_twice:
  "fds w 3 = None \<Longrightarrow> fds w 4 = None \<Longrightarrow>
   after_pause 3 4 w = ((Exit 0, [Perror ''close/3 failed'', Perror ''close/4 failed'']), w)"
  by (simp add: after_pause_def close_fd_def)

end
