(* ===== verification/Kernel_API.thy ===== *)
theory Kernel_API
  imports Prelude
begin

text \<open>
  The parts of the kernel the modules of the repository call and that are not in the repository
  itself: the circular list of \<^verbatim>\<open><linux/list.h>\<close> and \<^verbatim>\<open><linux/rculist.h>\<close>, and \<^verbatim>\<open>kzalloc\<close>/\<^verbatim>\<open>kfree\<close>.
  Both are parameters of the modules' models, records of operations, and what the modules may
  rely on is stated as the locales \<open>kernel_list\<close> and \<open>kernel_memory\<close>. The theory also holds the
  command type of the models, with faults and non-termination as outcomes, the
  \<^verbatim>\<open>list_for_each_entry\<close> loop, and a pointer implementation of the list and an allocator that
  satisfy the two contracts.
\<close>

section \<open>Commands\<close>

text \<open>
  A command maps a state to \<open>None\<close> (it does not return), to a fault, or to a value and the new
  state.
\<close>

type_synonym ('s, 'a) cmd = "'s \<Rightarrow> (fault + 'a \<times> 's) option"

definition return :: "'a \<Rightarrow> ('s, 'a) cmd" where
  "return x s = Some (Inr (x, s))"

definition fail_with :: "fault \<Rightarrow> ('s, 'a) cmd" where
  "fail_with e s = Some (Inl e)"

definition bind_cmd :: "('s, 'a) cmd \<Rightarrow> ('a \<Rightarrow> ('s, 'b) cmd) \<Rightarrow> ('s, 'b) cmd" where
  "bind_cmd m f s = (case m s of None \<Rightarrow> None
     | Some (Inl e) \<Rightarrow> Some (Inl e)
     | Some (Inr (x, s')) \<Rightarrow> f x s')"

definition modify :: "('s \<Rightarrow> 's) \<Rightarrow> ('s, unit) cmd" where
  "modify f s = Some (Inr ((), f s))"

definition gets :: "('s \<Rightarrow> 'a) \<Rightarrow> ('s, 'a) cmd" where
  "gets f s = Some (Inr (f s, s))"

definition guard_cmd :: "('s \<Rightarrow> bool) \<Rightarrow> fault \<Rightarrow> ('s, unit) cmd" where
  "guard_cmd P e s = (if P s then Some (Inr ((), s)) else Some (Inl e))"

text \<open>Sequencing a list of commands that return nothing.\<close>

primrec all_of :: "('s, unit) cmd list \<Rightarrow> ('s, unit) cmd" where
  "all_of [] = return ()"
| "all_of (c # cs) = bind_cmd c (\<lambda>_. all_of cs)"

text \<open>
  \<^verbatim>\<open>list_for_each_entry\<close> from entry \<open>p\<close>: run the body, then read the entry's next pointer, until
  the head comes up again. A body that breaks out yields \<open>Some r\<close>.
\<close>

abbreviation (input) HEAD :: addr where "HEAD \<equiv> 0"

partial_function (option) for_each ::
  "(addr \<Rightarrow> ('s, addr) cmd) \<Rightarrow> (addr \<Rightarrow> ('s, 'r option) cmd) \<Rightarrow> addr \<Rightarrow> 's \<Rightarrow> (fault + 'r option \<times> 's) option"
where
  "for_each nxt body p s =
     (if p = HEAD then Some (Inr (None, s))
      else (case body p s of None \<Rightarrow> None
        | Some (Inl e) \<Rightarrow> Some (Inl e)
        | Some (Inr (r, s1)) \<Rightarrow>
            (case r of Some v \<Rightarrow> Some (Inr (Some v, s1))
             | None \<Rightarrow> (case nxt p s1 of None \<Rightarrow> None
                 | Some (Inl e) \<Rightarrow> Some (Inl e)
                 | Some (Inr (q, s2)) \<Rightarrow> for_each nxt body q s2))))"

section \<open>Interfaces\<close>

record 'l klist =
  kl_init :: 'l
  kl_next :: "'l \<Rightarrow> addr \<Rightarrow> addr"
  kl_add :: "addr \<Rightarrow> 'l \<Rightarrow> 'l"
  kl_add_tail :: "addr \<Rightarrow> 'l \<Rightarrow> 'l"
  kl_del :: "addr \<Rightarrow> 'l \<Rightarrow> 'l"
  kl_replace :: "addr \<Rightarrow> addr \<Rightarrow> 'l \<Rightarrow> 'l"

record 'm kmem =
  km_alloc :: "'m \<Rightarrow> addr option \<times> 'm"
  km_free :: "addr \<Rightarrow> 'm \<Rightarrow> 'm"

text \<open>The next entry of a list, the head after the last one.\<close>

definition first_of :: "addr list \<Rightarrow> addr" where
  "first_of xs = (case xs of [] \<Rightarrow> HEAD | x # _ \<Rightarrow> x)"

text \<open>
  The list contract. \<open>repr l xs\<close> says that the links \<open>l\<close> represent the entries \<open>xs\<close>, front
  first. Removal and replacement leave the next pointer of the entry they unlink in place, which
  is what RCU readers standing on it need.
\<close>

locale kernel_list =
  fixes L :: "'l klist" and repr :: "'l \<Rightarrow> addr list \<Rightarrow> bool"
  assumes repr_init: "repr (kl_init L) []"
    and repr_distinct: "repr l xs \<Longrightarrow> distinct (HEAD # xs)"
    and next_head: "repr l xs \<Longrightarrow> kl_next L l HEAD = first_of xs"
    and next_entry: "repr l (xs @ x # ys) \<Longrightarrow> kl_next L l x = first_of ys"
    and repr_add: "repr l xs \<Longrightarrow> x \<notin> set (HEAD # xs) \<Longrightarrow> repr (kl_add L x l) (x # xs)"
    and repr_add_tail: "repr l xs \<Longrightarrow> x \<notin> set (HEAD # xs) \<Longrightarrow> repr (kl_add_tail L x l) (xs @ [x])"
    and repr_del: "repr l (xs @ x # ys) \<Longrightarrow> repr (kl_del L x l) (xs @ ys)"
    and repr_replace:
      "repr l (xs @ x # ys) \<Longrightarrow> y \<notin> set (HEAD # xs @ x # ys) \<Longrightarrow>
       repr (kl_replace L x y l) (xs @ y # ys)"
    and del_keeps_next: "repr l (xs @ x # ys) \<Longrightarrow> kl_next L (kl_del L x l) x = first_of ys"
    and replace_keeps_next:
      "repr l (xs @ x # ys) \<Longrightarrow> y \<notin> set (HEAD # xs @ x # ys) \<Longrightarrow>
       kl_next L (kl_replace L x y l) x = first_of ys"

text \<open>
  What concurrent readers rely on besides: linking and unlinking leave the next pointers of the
  entries that are not on the list alone.
\<close>

locale rcu_list = kernel_list +
  assumes add_frame: "repr l xs \<Longrightarrow> x \<notin> set (HEAD # xs) \<Longrightarrow> a \<notin> set (HEAD # x # xs) \<Longrightarrow>
       kl_next L (kl_add L x l) a = kl_next L l a"
    and del_frame: "repr l (xs @ x # ys) \<Longrightarrow> a \<notin> set (HEAD # xs @ x # ys) \<Longrightarrow>
       kl_next L (kl_del L x l) a = kl_next L l a"
    and replace_frame: "repr l (xs @ x # ys) \<Longrightarrow> y \<notin> set (HEAD # xs @ x # ys) \<Longrightarrow>
       a \<notin> set (HEAD # y # xs @ x # ys) \<Longrightarrow> kl_next L (kl_replace L x y l) a = kl_next L l a"

text \<open>The allocator contract: \<open>live m\<close> is the set of blocks handed out and not yet freed.\<close>

locale kernel_memory =
  fixes M :: "'m kmem" and live :: "'m \<Rightarrow> addr set"
  assumes alloc_fresh: "km_alloc M m = (Some a, m') \<Longrightarrow> a \<noteq> NULL \<and> a \<notin> live m \<and> live m' = insert a (live m)"
    and alloc_failed: "km_alloc M m = (None, m') \<Longrightarrow> live m' = live m"
    and free_live: "a \<in> live m \<Longrightarrow> live (km_free M a m) = live m - {a}"

text \<open>An allocator that never fails.\<close>

locale plentiful_memory = kernel_memory +
  assumes alloc_succeeds: "fst (km_alloc M m) \<noteq> None"

section \<open>A pointer implementation of the list\<close>

record links =
  nx :: "addr \<Rightarrow> addr"
  pv :: "addr \<Rightarrow> addr"

definition ptr_list :: "links klist" where
  "ptr_list = \<lparr>
     kl_init = \<lparr>nx = (\<lambda>_. HEAD), pv = (\<lambda>_. HEAD)\<rparr>,
     kl_next = nx,
     kl_add = (\<lambda>n l. l\<lparr>nx := (nx l)(n := nx l HEAD, HEAD := n), pv := (pv l)(n := HEAD, nx l HEAD := n)\<rparr>),
     kl_add_tail = (\<lambda>n l. l\<lparr>nx := (nx l)(n := HEAD, pv l HEAD := n), pv := (pv l)(n := pv l HEAD, HEAD := n)\<rparr>),
     kl_del = (\<lambda>n l. l\<lparr>nx := (nx l)(pv l n := nx l n), pv := (pv l)(nx l n := pv l n)\<rparr>),
     kl_replace = (\<lambda>old n l. l\<lparr>nx := (nx l)(n := nx l old, pv l old := n),
                                pv := (pv l)(n := pv l old, nx l old := n)\<rparr>)\<rparr>"

primrec path :: "(addr \<Rightarrow> addr) \<Rightarrow> addr \<Rightarrow> addr list \<Rightarrow> addr \<Rightarrow> bool" where
  "path f p [] q \<longleftrightarrow> f p = q"
| "path f p (x # xs) q \<longleftrightarrow> f p = x \<and> path f x xs q"

definition ring :: "links \<Rightarrow> addr list \<Rightarrow> bool" where
  "ring l xs \<longleftrightarrow> distinct (HEAD # xs) \<and> path (nx l) HEAD xs HEAD \<and> path (pv l) HEAD (rev xs) HEAD"

section \<open>An allocator\<close>

text \<open>First-fit above the blocks in use; \<open>fails\<close> scripts the calls that return NULL.\<close>

record pool =
  used :: "addr list"
  fails :: "bool list"

definition pool_live :: "pool \<Rightarrow> addr set" where
  "pool_live m = set (used m)"

definition pool_alloc :: "pool \<Rightarrow> addr option \<times> pool" where
  "pool_alloc m =
     (let a = Suc (fold max (used m) 0); m' = m\<lparr>fails := tl (fails m)\<rparr>
      in if fails m \<noteq> [] \<and> hd (fails m) then (None, m') else (Some a, m'\<lparr>used := a # used m\<rparr>))"

definition pool_mem :: "pool kmem" where
  "pool_mem = \<lparr>km_alloc = pool_alloc, km_free = (\<lambda>a m. m\<lparr>used := removeAll a (used m)\<rparr>)\<rparr>"

definition rich_alloc :: "pool \<Rightarrow> addr option \<times> pool" where
  "rich_alloc m = pool_alloc (m\<lparr>fails := []\<rparr>)"

definition rich_mem :: "pool kmem" where
  "rich_mem = pool_mem\<lparr>km_alloc := rich_alloc\<rparr>"

section \<open>Commands and loops\<close>

lemmas cmd_defs = return_def fail_with_def bind_cmd_def modify_def gets_def guard_cmd_def

lemma bind_cmd_Inr [simp]: "m s = Some (Inr (x, s')) \<Longrightarrow> bind_cmd m f s = f x s'"
  by (simp add: bind_cmd_def)

lemma bind_return [simp]: "bind_cmd (return x) f = f x"
  by (simp add: bind_cmd_def return_def fun_eq_iff)

lemma bind_gets [simp]: "bind_cmd (gets g) f s = f (g s) s"
  by (simp add: cmd_defs)

lemma bind_modify [simp]: "bind_cmd (modify g) f s = f () (g s)"
  by (simp add: cmd_defs)

lemma first_of_simps [simp]: "first_of [] = HEAD" "first_of (x # xs) = x"
  by (simp_all add: first_of_def)

lemma for_each_head [simp]: "for_each nxt body HEAD s = Some (Inr (None, s))"
  by (subst for_each.simps) simp

context kernel_list
begin

lemma next_of_head_entry: "repr l (x # ys) \<Longrightarrow> kl_next L l x = first_of ys"
  using next_entry [of l "[]" x ys] by simp

text \<open>A loop whose body passes over a prefix of the entries reaches the rest.\<close>

lemma for_each_skip:
  assumes "repr l (xs @ ys @ zs)"
    and "\<And>x s. x \<in> set ys \<Longrightarrow> P s \<Longrightarrow> \<exists>s'. body x s = Some (Inr (None, s')) \<and> P s' \<and> f x s = s'"
    and "\<And>x s. x \<in> set ys \<Longrightarrow> P s \<Longrightarrow> nxt x s = Some (Inr (kl_next L l x, s))"
    and "P s"
  shows "for_each nxt body (first_of (ys @ zs)) s = for_each nxt body (first_of zs) (fold f ys s)"
  using assms
proof (induction ys arbitrary: xs s)
  case Nil
  then show ?case by simp
next
  case (Cons y ys)
  from Cons.prems(2) [of y s] Cons.prems(4)
  have b: "body y s = Some (Inr (None, f y s))" "P (f y s)" by auto
  from Cons.prems(1) have y: "y \<noteq> HEAD" using repr_distinct by fastforce
  from next_entry [of l xs y "ys @ zs"] Cons.prems(1)
  have n: "nxt y (f y s) = Some (Inr (first_of (ys @ zs), f y s))"
    using Cons.prems(3) [of y "f y s"] b by simp
  have "for_each nxt body (first_of ((y # ys) @ zs)) s = for_each nxt body (first_of (ys @ zs)) (f y s)"
    using y b n by (subst for_each.simps) simp
  also have "\<dots> = for_each nxt body (first_of zs) (fold f ys (f y s))"
    by (rule Cons.IH [of "xs @ [y]"]) (use Cons.prems b in auto)
  finally show ?case by simp
qed

text \<open>A search that changes nothing on the way misses everywhere or stops at the first hit.\<close>

lemma for_each_miss:
  assumes "repr l xs"
    and "\<And>x. x \<in> set xs \<Longrightarrow> body x s = Some (Inr (None, s)) \<and> nxt x s = Some (Inr (kl_next L l x, s))"
  shows "for_each nxt body (kl_next L l HEAD) s = Some (Inr (None, s))"
  using for_each_skip [of l "[]" xs "[]" "\<lambda>t. t = s" body "\<lambda>_ t. t" nxt s] assms next_head [OF assms(1)]
  by (simp add: fold_invariant [where Q = "\<lambda>_. True" and P = "\<lambda>t. t = s"])

lemma for_each_hit:
  assumes "repr l (us @ a # vs)"
    and "\<And>x. x \<in> set us \<Longrightarrow> body x s = Some (Inr (None, s)) \<and> nxt x s = Some (Inr (kl_next L l x, s))"
    and "body a s = Some (Inr (Some r, s'))"
  shows "for_each nxt body (kl_next L l HEAD) s = Some (Inr (Some r, s'))"
proof -
  have "a \<noteq> HEAD" using repr_distinct [OF assms(1)] by auto
  then have "for_each nxt body a s = Some (Inr (Some r, s'))"
    using assms(3) by (subst for_each.simps) simp
  with for_each_skip [of l "[]" us "a # vs" "\<lambda>t. t = s" body "\<lambda>_ t. t" nxt s] assms next_head [OF assms(1)]
  show ?thesis by (simp add: fold_invariant [where Q = "\<lambda>_. True" and P = "\<lambda>t. t = s"])
qed

end

section \<open>The pointer list keeps the list contract\<close>

lemma path_append: "path f p (xs @ x # ys) q \<longleftrightarrow> path f p xs x \<and> path f x ys q"
  by (induction xs arbitrary: p) auto

lemma path_upd_notin: "u \<notin> set (p # xs) \<Longrightarrow> path (f(u := v)) p xs q = path f p xs q"
  by (induction xs arbitrary: p) auto

text \<open>Redirecting the pointer of the last entry of a path.\<close>

definition end_of :: "addr \<Rightarrow> addr list \<Rightarrow> addr" where
  "end_of p xs = last (p # xs)"

lemma end_of_simps [simp]: "end_of p [] = p" "end_of p (x # xs) = end_of x xs"
  by (simp_all add: end_of_def)

lemma end_of_in: "end_of p xs \<in> set (p # xs)"
  unfolding end_of_def by (rule last_in_set) simp

lemma end_of_notin: "distinct (p # xs @ ys) \<Longrightarrow> end_of p xs \<notin> set ys"
  using end_of_in [of p xs] by auto

lemma path_upd_last:
  "distinct (p # xs) \<Longrightarrow> path f p xs q \<Longrightarrow> path (f(end_of p xs := r)) p xs r"
proof (induction xs arbitrary: p)
  case (Cons x xs)
  have "path (f(end_of x xs := r)) x xs r"
    by (rule Cons.IH) (use Cons.prems in auto)
  moreover have "end_of x xs \<noteq> p" using end_of_in [of x xs] Cons.prems by auto
  ultimately show ?case using Cons.prems by (simp add: fun_upd_def)
qed simp

text \<open>The four pointer updates, each on one direction of the ring.\<close>

lemma path_push:
  "distinct (p # ys) \<Longrightarrow> n \<notin> set (p # ys) \<Longrightarrow> path f p ys q \<Longrightarrow> path (f(n := f p, p := n)) p (n # ys) q"
  by (cases ys) (auto simp: path_upd_notin)

lemma path_snoc:
  assumes "distinct (p # xs)" and "n \<notin> set (p # xs)" and "path f p xs q"
  shows "path (f(n := q, end_of p xs := n)) p (xs @ [n]) q"
proof -
  have "path (f(n := q)) p xs q" using assms path_upd_notin by metis
  with assms(1) have "path (f(n := q, end_of p xs := n)) p xs n" by (rule path_upd_last)
  moreover have "end_of p xs \<noteq> n" using assms(2) end_of_in [of p xs] by auto
  ultimately show ?thesis by (simp add: path_append)
qed

lemma path_splice:
  assumes "distinct (p # xs @ ys)" and "path f p xs x" and "path f x ys q"
  shows "path (f(end_of p xs := f x)) p (xs @ ys) q"
proof (cases ys)
  case Nil
  with assms show ?thesis using path_upd_last [of p xs f x q] by simp
next
  case (Cons y zs)
  with assms end_of_notin [of p xs ys] show ?thesis
    using path_upd_last [of p xs f x y] path_upd_notin [of "end_of p xs" y zs f y q]
    by (auto simp: path_append)
qed

lemma path_swap_in:
  assumes "distinct (p # xs @ x # ys)" and "n \<notin> set (p # xs @ x # ys)"
    and "path f p xs x" and "path f x ys q"
  shows "path (f(n := f x, end_of p xs := n)) p (xs @ n # ys) q"
proof -
  let ?g = "f(n := f x, end_of p xs := n)"
  have ln: "end_of p xs \<noteq> n" "end_of p xs \<notin> set (x # ys)"
    using assms(1,2) end_of_in [of p xs] end_of_notin [of p xs "x # ys"] by auto
  have "path (f(n := f x)) p xs x" using assms path_upd_notin [of n p xs f "f x" x] by simp
  then have "path ?g p xs n" using assms(1) by (intro path_upd_last) auto
  moreover have "path ?g n ys q"
    using assms(2,4) ln by (cases ys) (auto simp: path_upd_notin)
  ultimately show ?thesis by (simp add: path_append)
qed

lemma path_first: "path f p xs q \<Longrightarrow> f p = (if xs = [] then q else hd xs)"
  by (cases xs) auto

lemma first_of_end: "first_of xs = end_of HEAD (rev xs)"
  by (cases xs) (auto simp: end_of_def)

text \<open>What the two pointers of an entry of a ring hold.\<close>

lemma path_next: "path f p xs HEAD \<Longrightarrow> f p = first_of xs"
  by (cases xs) auto

lemma ringD:
  assumes "ring l (xs @ x # ys)"
  shows "distinct (HEAD # xs @ x # ys)" "distinct (HEAD # rev ys @ x # rev xs)"
    "path (nx l) HEAD xs x" "path (nx l) x ys HEAD"
    "path (pv l) HEAD (rev ys) x" "path (pv l) x (rev xs) HEAD"
  using assms by (auto simp: ring_def path_append)

lemma ring_next: "ring l (xs @ x # ys) \<Longrightarrow> nx l x = end_of HEAD (rev ys)"
  unfolding first_of_end [symmetric] by (rule path_next [OF ringD(4)])

lemma ring_prev: "ring l (xs @ x # ys) \<Longrightarrow> pv l x = end_of HEAD xs"
  using path_next [OF ringD(6), of l xs x ys] by (simp add: first_of_end)

lemma ring_next_head: "ring l xs \<Longrightarrow> nx l HEAD = end_of HEAD (rev xs)"
  unfolding first_of_end [symmetric] by (auto simp: ring_def path_next)

lemma ring_prev_head: "ring l xs \<Longrightarrow> pv l HEAD = end_of HEAD xs"
  using path_next [of "pv l" HEAD "rev xs"] by (simp add: ring_def first_of_end)

lemma ring_add: "ring l xs \<Longrightarrow> x \<notin> set (HEAD # xs) \<Longrightarrow> ring (kl_add ptr_list x l) (x # xs)"
  using path_push [of HEAD xs x "nx l" HEAD] path_snoc [of HEAD "rev xs" x "pv l" HEAD]
  by (simp add: ptr_list_def ring_def flip: ring_next_head [of l xs])

lemma ring_add_tail: "ring l xs \<Longrightarrow> x \<notin> set (HEAD # xs) \<Longrightarrow> ring (kl_add_tail ptr_list x l) (xs @ [x])"
  using path_push [of HEAD "rev xs" x "pv l" HEAD] path_snoc [of HEAD xs x "nx l" HEAD]
    ring_prev_head [of l xs]
  by (simp add: ptr_list_def ring_def)

lemma ring_del:
  assumes "ring l (xs @ x # ys)"
  shows "ring (kl_del ptr_list x l) (xs @ ys)"
proof -
  note r = ringD [OF assms]
  have "path ((nx l)(end_of HEAD xs := nx l x)) HEAD (xs @ ys) HEAD"
    by (rule path_splice) (use r in auto)
  moreover have "path ((pv l)(end_of HEAD (rev ys) := pv l x)) HEAD (rev ys @ rev xs) HEAD"
    by (rule path_splice) (use r in auto)
  ultimately show ?thesis
    using r(1) ring_next [OF assms] ring_prev [OF assms] by (simp add: ptr_list_def ring_def)
qed

lemma ring_replace:
  assumes "ring l (xs @ x # ys)" and "y \<notin> set (HEAD # xs @ x # ys)"
  shows "ring (kl_replace ptr_list x y l) (xs @ y # ys)"
proof -
  note r = ringD [OF assms(1)]
  have "path ((nx l)(y := nx l x, end_of HEAD xs := y)) HEAD (xs @ y # ys) HEAD"
    by (rule path_swap_in) (use r assms(2) in auto)
  moreover have "path ((pv l)(y := pv l x, end_of HEAD (rev ys) := y)) HEAD (rev ys @ y # rev xs) HEAD"
    by (rule path_swap_in) (use r assms(2) in auto)
  ultimately show ?thesis
    using r(1) assms(2) ring_next [OF assms(1)] ring_prev [OF assms(1)] by (simp add: ptr_list_def ring_def)
qed

interpretation ptr_list: kernel_list ptr_list ring
proof (unfold_locales, goal_cases)
  case 1 show ?case by (simp add: ring_def ptr_list_def)
next
  case (2 l xs) then show ?case by (simp add: ring_def)
next
  case (3 l xs) then show ?case by (simp add: ptr_list_def ring_next_head first_of_end)
next
  case (4 l xs x ys) then show ?case by (simp add: ptr_list_def ring_next first_of_end)
next
  case (5 l xs x) then show ?case by (rule ring_add)
next
  case (6 l xs x) then show ?case by (rule ring_add_tail)
next
  case (7 l xs x ys) then show ?case by (rule ring_del)
next
  case (8 l xs x ys y) then show ?case by (rule ring_replace)
next
  case (9 l xs x ys)
  then have "pv l x \<noteq> x" using end_of_notin [of HEAD xs "x # ys"] by (auto simp: ring_prev ring_def)
  with 9 show ?case by (simp add: ptr_list_def ring_next first_of_end)
next
  case (10 l xs x ys y)
  then have "pv l x \<noteq> x" using end_of_notin [of HEAD xs "x # ys"] by (auto simp: ring_prev ring_def)
  with 10 show ?case by (auto simp: ptr_list_def ring_next first_of_end)
qed

lemma ring_prev_on_list: "ring l (xs @ x # ys) \<Longrightarrow> pv l x \<in> set (HEAD # xs @ x # ys)"
  using end_of_in [of HEAD xs] by (auto simp: ring_prev)

interpretation ptr_rcu: rcu_list ptr_list ring
proof (unfold_locales, goal_cases)
  case (1 l xs x a) then show ?case by (simp add: ptr_list_def)
next
  case (2 l xs x ys a)
  then have "a \<noteq> pv l x" using ring_prev_on_list [of l xs x ys] by metis
  then show ?case by (simp add: ptr_list_def)
next
  case (3 l xs x ys y a)
  then have "a \<noteq> pv l x" "a \<noteq> y" using ring_prev_on_list [of l xs x ys] by auto
  then show ?case by (simp add: ptr_list_def)
qed

section \<open>The allocators keep the memory contract\<close>

lemma le_fold_max: "x \<in> set xs \<or> x \<le> b \<Longrightarrow> x \<le> fold max xs (b::nat)"
proof (induction xs arbitrary: b)
  case (Cons y ys)
  from Cons.prems have "x \<in> set ys \<or> x \<le> max y b" by (simp add: le_max_iff_disj) blast
  with Cons.IH show ?case by (simp only: fold_Cons o_apply)
qed simp

lemma fold_max_fresh: "Suc (fold max xs 0) \<notin> set xs"
  using le_fold_max [of "Suc (fold max xs 0)" xs 0] by auto

interpretation pool: kernel_memory pool_mem pool_live
  by unfold_locales
    (auto simp: pool_mem_def pool_alloc_def pool_live_def Let_def fold_max_fresh split: if_splits)

interpretation rich: plentiful_memory rich_mem pool_live
  by unfold_locales
    (auto simp: rich_mem_def rich_alloc_def pool_mem_def pool_alloc_def pool_live_def Let_def fold_max_fresh
      split: if_splits)

end
