(* ===== verification/List_Module.thy ===== *)
theory List_Module
  imports Kernel_API C_Format
begin

text \<open>
  \<^verbatim>\<open>list/list.c\<close>: a module that builds a kernel list of small nodes, shows it, searches it and
  frees it on exit. The nodes live in an explicit heap, so that a read of a freed node is a
  fault; the list operations and the allocator are the parameters of \<open>Kernel_API\<close>.
\<close>

section \<open>Data and operations\<close>

record node =
  ival1 :: int
  ival2 :: int
  letter :: char

record ('l, 'm) lmod =
  nodes :: "addr \<rightharpoonup> node"
  head_node :: 'l
  lm_mem :: 'm
  lm_log :: "string list"

text \<open>\<^verbatim>\<open>pr_info\<close> with the \<^verbatim>\<open>pr_fmt\<close> of the file: module name and function name in front.\<close>

definition pr_info :: "string \<Rightarrow> string \<Rightarrow> farg list \<Rightarrow> (('l, 'm) lmod, unit) cmd" where
  "pr_info func fmt args =
     modify (\<lambda>s. s\<lparr>lm_log := lm_log s @ [emit (''%s:%s(): '' @ fmt) ([FStr ''list'', FStr func] @ args)]\<rparr>)"

text \<open>Reading a field of \<^verbatim>\<open>*a\<close>, storing to it, and the next pointer embedded in it.\<close>

definition node_at :: "addr \<Rightarrow> (('l, 'm) lmod, node) cmd" where
  "node_at a s = (case nodes s a of None \<Rightarrow> Some (Inl (UseAfterFree a)) | Some n \<Rightarrow> Some (Inr (n, s)))"

definition next_of :: "'l klist \<Rightarrow> addr \<Rightarrow> (('l, 'm) lmod, addr) cmd" where
  "next_of L a = bind_cmd (node_at a) (\<lambda>_. gets (\<lambda>s. kl_next L (head_node s) a))"

definition list_empty :: "'l klist \<Rightarrow> ('l, 'm) lmod \<Rightarrow> bool" where
  "list_empty L s \<longleftrightarrow> kl_next L (head_node s) HEAD = HEAD"

definition list_for_each_entry ::
  "'l klist \<Rightarrow> (addr \<Rightarrow> (('l, 'm) lmod, unit option) cmd) \<Rightarrow> (('l, 'm) lmod, unit option) cmd" where
  "list_for_each_entry L body s = for_each (next_of L) body (kl_next L (head_node s) HEAD) s"

definition kfree_node :: "'m kmem \<Rightarrow> addr \<Rightarrow> (('l, 'm) lmod, unit) cmd" where
  "kfree_node M a =
     bind_cmd (guard_cmd (\<lambda>s. nodes s a \<noteq> None) (DoubleFree a)) (\<lambda>_.
       modify (\<lambda>s. s\<lparr>nodes := (nodes s)(a := None), lm_mem := km_free M a (lm_mem s)\<rparr>))"

definition add2tail :: "'l klist \<Rightarrow> 'm kmem \<Rightarrow> int \<Rightarrow> int \<Rightarrow> char \<Rightarrow> (('l, 'm) lmod, int) cmd" where
  "add2tail L M v1 v2 achar s =
     (case km_alloc M (lm_mem s) of
        (None, m') \<Rightarrow> return (- ENOMEM) (s\<lparr>lm_mem := m'\<rparr>)
      | (Some mynode, m') \<Rightarrow>
          bind_cmd
            (modify (\<lambda>s. s\<lparr>nodes := (nodes s)(mynode \<mapsto> \<lparr>ival1 = v1, ival2 = v2, letter = achar\<rparr>),
                            head_node := kl_add_tail L mynode (head_node s)\<rparr>))
            (\<lambda>_. bind_cmd
               (pr_info ''add2tail'' ''Added a node (with letter '%c') to the list...\<newline>'' [FChar achar])
               (\<lambda>_. return 0))
            (s\<lparr>lm_mem := m'\<rparr>))"

definition show_step :: "addr \<Rightarrow> (('l, 'm) lmod, unit option) cmd" where
  "show_step cur =
     bind_cmd (node_at cur) (\<lambda>n.
     bind_cmd (pr_info ''showlist'' ''%9d %9d   %c\<newline>''
                 [FInt (ival1 n), FInt (ival2 n), FChar (letter n)]) (\<lambda>_. return None))"

definition showlist :: "'l klist \<Rightarrow> (('l, 'm) lmod, unit) cmd" where
  "showlist L s =
     (if list_empty L s then return () s
      else bind_cmd (pr_info ''showlist'' ''   val1   |   val2   | letter\<newline>'' []) (\<lambda>_.
           bind_cmd (list_for_each_entry L show_step) (\<lambda>_. return ())) s)"

text \<open>
  \<^verbatim>\<open>findinlist_letter\<close>: the locals \<^verbatim>\<open>found\<close> and \<^verbatim>\<open>i\<close> are threaded through the loop as part of the
  state.
\<close>

definition lift_locals :: "('s, 'a) cmd \<Rightarrow> ('s \<times> 'v, 'a) cmd" where
  "lift_locals c sv =
     (case c (fst sv) of None \<Rightarrow> None | Some (Inl e) \<Rightarrow> Some (Inl e)
      | Some (Inr (x, s')) \<Rightarrow> Some (Inr (x, (s', snd sv))))"

definition find_step :: "char \<Rightarrow> addr \<Rightarrow> (('l, 'm) lmod \<times> bool \<times> nat, unit option) cmd" where
  "find_step char2locate cur =
     bind_cmd (lift_locals (node_at cur)) (\<lambda>n.
     bind_cmd
       (if letter n = char2locate then
          bind_cmd (modify (\<lambda>(s, _, i). (s, True, i))) (\<lambda>_.
          bind_cmd (gets (\<lambda>(_, _, i). i)) (\<lambda>i.
            lift_locals (pr_info ''findinlist_letter'' ''found '%c' @ node #%d:\<newline>%9d %9d   _%c_\<newline>''
              [FChar char2locate, FInt (int i), FInt (ival1 n), FInt (ival2 n), FChar (letter n)])))
        else return ())
       (\<lambda>_. bind_cmd (modify (\<lambda>(s, fnd, i). (s, fnd, Suc i))) (\<lambda>_. return None)))"

definition findinlist_letter :: "'l klist \<Rightarrow> char \<Rightarrow> (('l, 'm) lmod, unit) cmd" where
  "findinlist_letter L char2locate s =
     (if list_empty L s then return () s
      else bind_cmd (pr_info ''findinlist_letter'' ''Searching list for letter '%c'...\<newline>'' [FChar char2locate])
        (\<lambda>_ s. case for_each (\<lambda>a. lift_locals (next_of L a)) (find_step char2locate)
                       (kl_next L (head_node s) HEAD) (s, False, 0) of
            None \<Rightarrow> None
          | Some (Inl e) \<Rightarrow> Some (Inl e)
          | Some (Inr (_, s', fnd, _)) \<Rightarrow>
              (if \<not> fnd then pr_info ''findinlist_letter'' ''Didn't find '%c' in list\<newline>'' [FChar char2locate]
               else return ()) s') s)"

definition free_step :: "'m kmem \<Rightarrow> addr \<Rightarrow> (('l, 'm) lmod, unit option) cmd" where
  "free_step M cur = bind_cmd (kfree_node M cur) (\<lambda>_. return None)"

definition freelist :: "'l klist \<Rightarrow> 'm kmem \<Rightarrow> (('l, 'm) lmod, unit) cmd" where
  "freelist L M s =
     (if list_empty L s then return () s
      else bind_cmd (pr_info ''freelist'' ''freeing list items...\<newline>'' []) (\<lambda>_.
           bind_cmd (list_for_each_entry L (free_step M)) (\<lambda>_. return ())) s)"

text \<open>
  The module's entry points. \<^verbatim>\<open>jiffies\<close> is an unsigned long that the call narrows to \<^verbatim>\<open>int\<close>;
  \<open>delta\<close> stands for \<^verbatim>\<open>msecs_to_jiffies(300)\<close>.
\<close>

definition list_init :: "'l klist \<Rightarrow> 'm kmem \<Rightarrow> nat \<Rightarrow> nat \<Rightarrow> (('l, 'm) lmod, int) cmd" where
  "list_init L M jiffies delta =
     bind_cmd (add2tail L M 1 2 (CHR ''l'')) (\<lambda>_.
     bind_cmd (add2tail L M 5 1000 (CHR ''i'')) (\<lambda>_.
     bind_cmd (add2tail L M 3 1415 (CHR ''s'')) (\<lambda>_.
     bind_cmd (add2tail L M (to_int32 (int jiffies)) (to_int32 (int (jiffies + delta))) (CHR ''t'')) (\<lambda>_.
     bind_cmd (showlist L) (\<lambda>_.
     bind_cmd (findinlist_letter L (CHR ''s'')) (\<lambda>_.
     bind_cmd (findinlist_letter L (CHR ''z'')) (\<lambda>_.
     return 0)))))))"

definition list_exit :: "'l klist \<Rightarrow> 'm kmem \<Rightarrow> (('l, 'm) lmod, unit) cmd" where
  "list_exit L M = bind_cmd (freelist L M) (\<lambda>_. pr_info ''list_exit'' ''removed\<newline>'' [])"

text \<open>The module as it is loaded, over the initial list and an allocator state.\<close>

definition loaded :: "'l klist \<Rightarrow> 'm \<Rightarrow> ('l, 'm) lmod" where
  "loaded L m = \<lparr>nodes = Map.empty, head_node = kl_init L, lm_mem = m, lm_log = []\<rparr>"

section \<open>What the operations should do\<close>

text \<open>The list holds live nodes only, and every node of the heap is on it.\<close>

definition lm_inv :: "('l \<Rightarrow> addr list \<Rightarrow> bool) \<Rightarrow> ('m \<Rightarrow> addr set) \<Rightarrow> ('l, 'm) lmod \<Rightarrow> addr list \<Rightarrow> bool" where
  "lm_inv repr live s xs \<longleftrightarrow>
     repr (head_node s) xs \<and> set xs = dom (nodes s) \<and> dom (nodes s) \<subseteq> live (lm_mem s)"

definition contents :: "('l, 'm) lmod \<Rightarrow> addr list \<Rightarrow> node list" where
  "contents s xs = map (\<lambda>a. the (nodes s a)) xs"

definition show_line :: "node \<Rightarrow> string" where
  "show_line n = emit (''%s:%s(): '' @ ''%9d %9d   %c\<newline>'')
     [FStr ''list'', FStr ''showlist'', FInt (ival1 n), FInt (ival2 n), FChar (letter n)]"

definition found_line :: "char \<Rightarrow> nat \<Rightarrow> node \<Rightarrow> string" where
  "found_line c i n = emit (''%s:%s(): '' @ ''found '%c' @ node #%d:\<newline>%9d %9d   _%c_\<newline>'')
     [FStr ''list'', FStr ''findinlist_letter'', FChar c, FInt (int i), FInt (ival1 n), FInt (ival2 n), FChar (letter n)]"

text \<open>The lines a search prints for the nodes from position \<open>i\<close> on: one per match.\<close>

primrec match_lines :: "char \<Rightarrow> nat \<Rightarrow> node list \<Rightarrow> string list" where
  "match_lines c i [] = []"
| "match_lines c i (n # ns) =
     (if letter n = c then [found_line c i n] else []) @ match_lines c (Suc i) ns"

definition search_lines :: "char \<Rightarrow> node list \<Rightarrow> string list" where
  "search_lines c ns =
     (if ns = [] then []
      else emit (''%s:%s(): '' @ ''Searching list for letter '%c'...\<newline>'')
             [FStr ''list'', FStr ''findinlist_letter'', FChar c] #
           (if \<exists>n \<in> set ns. letter n = c then match_lines c 0 ns
            else [emit (''%s:%s(): '' @ ''Didn't find '%c' in list\<newline>'')
                    [FStr ''list'', FStr ''findinlist_letter'', FChar c]]))"

text \<open>What the module loads: the four nodes, the last one stamped with the tick counter.\<close>

definition demo_nodes :: "nat \<Rightarrow> nat \<Rightarrow> node list" where
  "demo_nodes j d =
     [\<lparr>ival1 = 1, ival2 = 2, letter = CHR ''l''\<rparr>, \<lparr>ival1 = 5, ival2 = 1000, letter = CHR ''i''\<rparr>,
      \<lparr>ival1 = 3, ival2 = 1415, letter = CHR ''s''\<rparr>,
      \<lparr>ival1 = to_int32 (int j), ival2 = to_int32 (int (j + d)), letter = CHR ''t''\<rparr>]"

text \<open>The effect of one search step on a heap \<open>h\<close> that does not change.\<close>

definition find_upd :: "(addr \<rightharpoonup> node) \<Rightarrow> char \<Rightarrow> addr \<Rightarrow> ('l, 'm) lmod \<times> bool \<times> nat \<Rightarrow> ('l, 'm) lmod \<times> bool \<times> nat" where
  "find_upd h c x t = (case t of (s, fnd, i) \<Rightarrow>
     (s\<lparr>lm_log := lm_log s @ (if letter (the (h x)) = c then [found_line c i (the (h x))] else [])\<rparr>,
      fnd \<or> letter (the (h x)) = c, Suc i))"

section \<open>Facts shared by the operations\<close>

lemma pr_info_eq:
  "pr_info func fmt args s =
     Some (Inr ((), s\<lparr>lm_log := lm_log s @ [emit (''%s:%s(): '' @ fmt) ([FStr ''list'', FStr func] @ args)]\<rparr>))"
  by (simp add: pr_info_def modify_def)

lemma node_at_live: "nodes s a = Some n \<Longrightarrow> node_at a s = Some (Inr (n, s))"
  by (simp add: node_at_def)

lemma next_of_live: "nodes s a = Some n \<Longrightarrow> next_of L a s = Some (Inr (kl_next L (head_node s) a, s))"
  by (simp add: next_of_def node_at_live gets_def)

lemma next_of_freed: "nodes s a = None \<Longrightarrow> next_of L a s = Some (Inl (UseAfterFree a))"
  by (simp add: next_of_def node_at_def bind_cmd_def)

lemma lift_locals_Inr: "c s = Some (Inr (x, s')) \<Longrightarrow> lift_locals c (s, v) = Some (Inr (x, s', v))"
  by (simp add: lift_locals_def)

lemma match_lines_none: "\<forall>n \<in> set ns. letter n \<noteq> c \<Longrightarrow> match_lines c i ns = []"
  by (induction ns arbitrary: i) auto

locale list_client = kernel_list L repr + kernel_memory M live
  for L :: "'l klist" and repr and M :: "'m kmem" and live
begin

lemma invD:
  assumes "lm_inv repr live s xs"
  shows "repr (head_node s) xs" "distinct (HEAD # xs)" "kl_next L (head_node s) HEAD = first_of xs"
    "\<And>a. a \<in> set xs \<Longrightarrow> nodes s a \<noteq> None" "\<And>a. nodes s a \<noteq> None \<Longrightarrow> a \<in> set xs"
proof -
  show r: "repr (head_node s) xs" using assms by (simp add: lm_inv_def)
  show "distinct (HEAD # xs)" by (rule repr_distinct [OF r])
  show "kl_next L (head_node s) HEAD = first_of xs" by (rule next_head [OF r])
qed (use assms in \<open>auto simp: lm_inv_def\<close>)

lemma empty_iff: "lm_inv repr live s xs \<Longrightarrow> list_empty L s \<longleftrightarrow> xs = []"
  using invD(2,3) [of s xs] by (cases xs) (auto simp: list_empty_def)

lemma add2tail_cases:
  assumes "lm_inv repr live s xs"
  shows "(\<exists>m'. km_alloc M (lm_mem s) = (None, m') \<and>
            add2tail L M v1 v2 c s = Some (Inr (- ENOMEM, s\<lparr>lm_mem := m'\<rparr>)) \<and>
            lm_inv repr live (s\<lparr>lm_mem := m'\<rparr>) xs) \<or>
         (\<exists>a s'. fst (km_alloc M (lm_mem s)) = Some a \<and>
            add2tail L M v1 v2 c s = Some (Inr (0, s')) \<and> lm_inv repr live s' (xs @ [a]) \<and>
            contents s' (xs @ [a]) = contents s xs @ [\<lparr>ival1 = v1, ival2 = v2, letter = c\<rparr>])"
proof (cases "km_alloc M (lm_mem s)")
  case (Pair r m')
  show ?thesis
  proof (cases r)
    case None
    with Pair assms show ?thesis
      by (auto simp: add2tail_def return_def lm_inv_def alloc_failed)
  next
    case (Some a)
    with Pair alloc_fresh have a: "a \<noteq> NULL" "a \<notin> live (lm_mem s)" "live m' = insert a (live (lm_mem s))"
      by auto
    with assms have "a \<notin> set (HEAD # xs)" by (auto simp: lm_inv_def)
    moreover from this repr_add_tail invD(1) [OF assms]
    have "repr (kl_add_tail L a (head_node s)) (xs @ [a])" by blast
    ultimately show ?thesis
      using assms a Pair Some
      by (intro disjI2) (auto simp: add2tail_def pr_info_eq return_def lm_inv_def contents_def)
  qed
qed

lemma loop_skip:
  assumes "lm_inv repr live s xs"
    and "\<And>x t. x \<in> set xs \<Longrightarrow> nodes (st t) = nodes s \<and> head_node (st t) = head_node s \<Longrightarrow>
           body x t = Some (Inr (None, f x t)) \<and> nodes (st (f x t)) = nodes s \<and> head_node (st (f x t)) = head_node s"
    and "\<And>x t. x \<in> set xs \<Longrightarrow> nodes (st t) = nodes s \<and> head_node (st t) = head_node s \<Longrightarrow>
           nxt x t = Some (Inr (kl_next L (head_node s) x, t))"
    and "nodes (st t) = nodes s" "head_node (st t) = head_node s"
  shows "for_each nxt body (kl_next L (head_node s) HEAD) t = Some (Inr (None, fold f xs t))"
proof -
  have "for_each nxt body (first_of (xs @ [])) t = for_each nxt body (first_of []) (fold f xs t)"
    by (rule for_each_skip [where l = "head_node s" and xs = "[]" and
          P = "\<lambda>t. nodes (st t) = nodes s \<and> head_node (st t) = head_node s"])
      (use invD(1) [OF assms(1)] assms in auto)
  then show ?thesis using invD(3) [OF assms(1)] by simp
qed

lemma fold_log: "fold (\<lambda>x t. t\<lparr>lm_log := lm_log t @ [line x]\<rparr>) xs t = t\<lparr>lm_log := lm_log t @ map line xs\<rparr>"
  for t :: "('l, 'm) lmod"
  by (induction xs arbitrary: t) auto

lemma showlist_spec:
  assumes "lm_inv repr live s xs" and "xs \<noteq> []"
  shows "showlist L s = Some (Inr ((), s\<lparr>lm_log := lm_log s @
           emit (''%s:%s(): '' @ ''   val1   |   val2   | letter\<newline>'') [FStr ''list'', FStr ''showlist''] #
           map show_line (contents s xs)\<rparr>))"
proof -
  let ?h = "emit (''%s:%s(): '' @ ''   val1   |   val2   | letter\<newline>'') [FStr ''list'', FStr ''showlist'']"
  let ?f = "\<lambda>x t. t\<lparr>lm_log := lm_log t @ [show_line (the (nodes s x))]\<rparr> :: ('l, 'm) lmod"
  let ?t = "s\<lparr>lm_log := lm_log s @ [?h]\<rparr>"
  have "for_each (next_of L) show_step (kl_next L (head_node s) HEAD) ?t = Some (Inr (None, fold ?f xs ?t))"
  proof (rule loop_skip [where st = "\<lambda>t. t", OF assms(1)], goal_cases)
    case (1 x t)
    then obtain n where "nodes s x = Some n" using invD(4) [OF assms(1)] by blast
    with 1 show ?case by (simp add: show_step_def node_at_live pr_info_eq return_def show_line_def)
  next
    case (2 x t)
    then obtain n where "nodes s x = Some n" using invD(4) [OF assms(1)] by blast
    with 2 show ?case by (simp add: next_of_live)
  qed simp_all
  then show ?thesis
    using empty_iff [OF assms(1)] assms(2)
    by (simp add: showlist_def pr_info_eq list_for_each_entry_def fold_log return_def contents_def comp_def
        bind_cmd_def)
qed

lemma fold_find_upd:
  "fold (find_upd h c) xs (s, fnd, i) =
     (s\<lparr>lm_log := lm_log s @ match_lines c i (map (\<lambda>a. the (h a)) xs)\<rparr>,
      fnd \<or> (\<exists>x \<in> set xs. letter (the (h x)) = c), i + length xs)"
  by (induction xs arbitrary: s fnd i) (auto simp: find_upd_def)

lemma find_loop:
  assumes "lm_inv repr live s xs" and "nodes t = nodes s" and "head_node t = head_node s"
  shows "for_each (\<lambda>a. lift_locals (next_of L a)) (find_step c) (kl_next L (head_node s) HEAD) (t, fnd, i) =
     Some (Inr (None, fold (find_upd (nodes s) c) xs (t, fnd, i)))"
proof (rule loop_skip [where st = fst, OF assms(1)], goal_cases)
  case (1 x t)
  then obtain n where "nodes s x = Some n" using invD(4) [OF assms(1)] by blast
  with 1 show ?case
    by (cases t) (simp add: find_step_def find_upd_def found_line_def lift_locals_def node_at_live pr_info_eq cmd_defs)
next
  case (2 x t)
  then obtain n where "nodes s x = Some n" using invD(4) [OF assms(1)] by blast
  with 2 show ?case by (cases t) (simp add: lift_locals_def next_of_live)
qed (use assms in simp_all)

lemma findinlist_spec:
  assumes "lm_inv repr live s xs"
  shows "findinlist_letter L c s = Some (Inr ((), s\<lparr>lm_log := lm_log s @ search_lines c (contents s xs)\<rparr>))"
proof (cases "xs = []")
  case True
  with empty_iff [OF assms] show ?thesis
    by (simp add: findinlist_letter_def return_def search_lines_def contents_def)
next
  case False
  with empty_iff [OF assms] find_loop [OF assms, of "s\<lparr>lm_log := l\<rparr>" c False 0 for l] show ?thesis
    by (auto simp: findinlist_letter_def pr_info_eq fold_find_upd search_lines_def contents_def return_def
        match_lines_none)
qed

lemma freelist_faults:
  assumes "lm_inv repr live s (x # xs)"
  shows "freelist L M s = Some (Inl (UseAfterFree x))"
proof -
  have x: "x \<noteq> HEAD" "kl_next L (head_node s) HEAD = x" "\<not> list_empty L s"
    using invD(2,3) [OF assms] empty_iff [OF assms] by auto
  obtain n where "nodes s x = Some n" using invD(4) [OF assms, of x] by auto
  with x have "for_each (next_of L) (free_step M) x t = Some (Inl (UseAfterFree x))" if "nodes t = nodes s" for t
    using that by (subst for_each.simps)
      (simp add: free_step_def kfree_node_def guard_cmd_def bind_cmd_def modify_def return_def next_of_freed)
  with x show ?thesis
    by (simp add: freelist_def pr_info_eq bind_cmd_def list_for_each_entry_def)
qed

lemma add2tail_plenty:
  assumes "lm_inv repr live s xs" and "fst (km_alloc M (lm_mem s)) \<noteq> None"
  obtains a s' where "add2tail L M v1 v2 c s = Some (Inr (0, s'))" "lm_inv repr live s' (xs @ [a])"
    "contents s' (xs @ [a]) = contents s xs @ [\<lparr>ival1 = v1, ival2 = v2, letter = c\<rparr>]"
  using add2tail_cases [OF assms(1), of v1 v2 c] assms(2) by fastforce

lemma loaded_inv: "lm_inv repr live (loaded L m) []"
  by (simp add: lm_inv_def loaded_def repr_init)

end

locale rich_list_client = list_client + plentiful_memory
begin

lemma list_init_spec:
  shows "\<exists>s xs. list_init L M j d (loaded L m) = Some (Inr (0, s)) \<and> lm_inv repr live s xs \<and>
    contents s xs = demo_nodes j d"
proof -
  note plenty = alloc_succeeds
  obtain a1 s1 where 1: "add2tail L M 1 2 (CHR ''l'') (loaded L m) = Some (Inr (0, s1))"
      "lm_inv repr live s1 ([] @ [a1])" and c1: "contents s1 ([] @ [a1]) = contents (loaded L m) [] @ [\<lparr>ival1 = 1, ival2 = 2, letter = CHR ''l''\<rparr>]"
    by (rule add2tail_plenty [OF loaded_inv plenty])
  obtain a2 s2 where 2: "add2tail L M 5 1000 (CHR ''i'') s1 = Some (Inr (0, s2))"
      "lm_inv repr live s2 (([] @ [a1]) @ [a2])"
    and c2: "contents s2 (([] @ [a1]) @ [a2]) = contents s1 ([] @ [a1]) @ [\<lparr>ival1 = 5, ival2 = 1000, letter = CHR ''i''\<rparr>]"
    by (rule add2tail_plenty [OF 1(2) plenty])
  obtain a3 s3 where 3: "add2tail L M 3 1415 (CHR ''s'') s2 = Some (Inr (0, s3))"
      "lm_inv repr live s3 ((([] @ [a1]) @ [a2]) @ [a3])"
    and c3: "contents s3 ((([] @ [a1]) @ [a2]) @ [a3]) = contents s2 (([] @ [a1]) @ [a2]) @ [\<lparr>ival1 = 3, ival2 = 1415, letter = CHR ''s''\<rparr>]"
    by (rule add2tail_plenty [OF 2(2) plenty])
  let ?x = "((([] @ [a1]) @ [a2]) @ [a3])" and ?v1 = "to_int32 (int j)" and ?v2 = "to_int32 (int (j + d))"
  obtain a4 s4 where 4: "add2tail L M ?v1 ?v2 (CHR ''t'') s3 = Some (Inr (0, s4))"
      "lm_inv repr live s4 (?x @ [a4])"
    and c4: "contents s4 (?x @ [a4]) = contents s3 ?x @ [\<lparr>ival1 = ?v1, ival2 = ?v2, letter = CHR ''t''\<rparr>]"
    by (rule add2tail_plenty [OF 3(2) plenty])
  have log: "lm_inv repr live (s4\<lparr>lm_log := l\<rparr>) (?x @ [a4])" for l using 4(2) by (simp add: lm_inv_def)
  have "\<exists>l. list_init L M j d (loaded L m) = Some (Inr (0, s4\<lparr>lm_log := l\<rparr>))"
    using 1(1) 2(1) 3(1) 4(1) showlist_spec [OF 4(2)] findinlist_spec [OF log]
    by (simp add: list_init_def return_def) (rule exI, rule refl)
  moreover have "contents (s4\<lparr>lm_log := l\<rparr>) (?x @ [a4]) = demo_nodes j d" for l
    using c1 c2 c3 c4 by (simp add: contents_def demo_nodes_def)
  ultimately show ?thesis using log by metis
qed

end

text \<open>The contracts hold of the pointer list and the allocators.\<close>

interpretation ptr_client: list_client ptr_list ring pool_mem pool_live
  by unfold_locales

interpretation ptr_rich_client: rich_list_client ptr_list ring rich_mem pool_live
  by unfold_locales

section \<open>Properties\<close>

text \<open>
  C19: \<^verbatim>\<open>add2tail\<close> either reports -ENOMEM and leaves the list as it was, or returns 0 with exactly the
  new node appended at the tail, the other nodes untouched; the list stays well-formed.
\<close>

theorem add2tail_appends:
  assumes "kernel_list L repr" and "kernel_memory M live" and "lm_inv repr live s xs"
  shows "\<exists>r s' ys. add2tail L M v1 v2 c s = Some (Inr (r, s')) \<and> lm_inv repr live s' ys \<and>
     (case fst (km_alloc M (lm_mem s)) of
        None \<Rightarrow> r = - ENOMEM \<and> ys = xs \<and> nodes s' = nodes s
      | Some a \<Rightarrow> r = 0 \<and> ys = xs @ [a] \<and>
          contents s' ys = contents s xs @ [\<lparr>ival1 = v1, ival2 = v2, letter = c\<rparr>])"
proof -
  have "list_client L repr M live" using assms(1,2) by (simp add: list_client_def)
  from list_client.add2tail_cases [OF this assms(3), of v1 v2 c] show ?thesis by fastforce
qed

theorem add2tail_appends_witness:
  "\<exists>s'. add2tail ptr_list pool_mem 7 8 (CHR ''q'') (loaded ptr_list \<lparr>used = [3], fails = []\<rparr>) = Some (Inr (0, s')) \<and>
     contents s' [4] = [\<lparr>ival1 = 7, ival2 = 8, letter = CHR ''q''\<rparr>]"
  using add2tail_appends [OF ptr_list.kernel_list_axioms pool.kernel_memory_axioms
      ptr_client.loaded_inv [of "\<lparr>used = [3], fails = []\<rparr>"], of 7 8 "CHR ''q''"]
  by (auto simp: loaded_def pool_mem_def pool_alloc_def contents_def)

text \<open>
  C21: on a well-formed list \<^verbatim>\<open>findinlist_letter\<close> terminates, never touches freed memory, changes
  nothing but the log, and reports every node with the letter, each with its position, or says
  that there is none.
\<close>

theorem findinlist_reports_matches:
  assumes "kernel_list L repr" and "kernel_memory M live" and "lm_inv repr live s xs"
  shows "findinlist_letter L c s =
     Some (Inr ((), s\<lparr>lm_log := lm_log s @ search_lines c (contents s xs)\<rparr>))"
proof -
  have "list_client L repr M live" using assms(1,2) by (simp add: list_client_def)
  from list_client.findinlist_spec [OF this assms(3)] show ?thesis .
qed

theorem findinlist_reports_matches_witness:
  "\<exists>s. list_init ptr_list rich_mem 9 1 (loaded ptr_list \<lparr>used = [], fails = []\<rparr>) = Some (Inr (0, s)) \<and>
     findinlist_letter ptr_list (CHR ''s'') s =
       Some (Inr ((), s\<lparr>lm_log := lm_log s @ search_lines (CHR ''s'') (demo_nodes 9 1)\<rparr>))"
proof -
  obtain s xs where "list_init ptr_list rich_mem 9 1 (loaded ptr_list \<lparr>used = [], fails = []\<rparr>) = Some (Inr (0, s))"
      "lm_inv ring pool_live s xs" "contents s xs = demo_nodes 9 1"
    using ptr_rich_client.list_init_spec by blast
  with findinlist_reports_matches [OF ptr_list.kernel_list_axioms rich.kernel_memory_axioms, of s xs "CHR ''s''"]
  show ?thesis by auto
qed

text \<open>
  C10: unloading the module after a load for which there was memory always reads freed memory: the
  loop of \<^verbatim>\<open>freelist\<close> frees a node and then takes the next pointer out of it.
\<close>

theorem list_exit_use_after_free:
  assumes "kernel_list L repr" and "plentiful_memory M live"
  shows "\<exists>s a. list_init L M j d (loaded L m) = Some (Inr (0, s)) \<and>
     list_exit L M s = Some (Inl (UseAfterFree a))"
proof -
  have r: "rich_list_client L repr M live"
    using assms by (simp add: rich_list_client_def list_client_def plentiful_memory_def)
  then obtain s xs where s: "list_init L M j d (loaded L m) = Some (Inr (0, s))" "lm_inv repr live s xs"
      "contents s xs = demo_nodes j d"
    using rich_list_client.list_init_spec [of L repr M live j d m] by blast
  from s(3) obtain x ys where "xs = x # ys" by (cases xs) (auto simp: contents_def demo_nodes_def)
  with s list_client.freelist_faults [of L repr M live s x ys] r
  have "freelist L M s = Some (Inl (UseAfterFree x))" by (simp add: rich_list_client_def)
  then have "list_exit L M s = Some (Inl (UseAfterFree x))" by (simp add: list_exit_def bind_cmd_def)
  with s(1) show ?thesis by blast
qed

theorem list_exit_use_after_free_witness:
  "\<exists>s a. list_init ptr_list rich_mem 9 1 (loaded ptr_list \<lparr>used = [], fails = []\<rparr>) = Some (Inr (0, s)) \<and>
     list_exit ptr_list rich_mem s = Some (Inl (UseAfterFree a))"
  by (rule list_exit_use_after_free [OF ptr_list.kernel_list_axioms rich.plentiful_memory_axioms])

end
