(* ===== verification/Rcu_Books.thy ===== *)
theory Rcu_Books
  imports Kernel_API C_Format
begin

text \<open>
  \<^verbatim>\<open>ksync/rcu_example/list_rcu_example.c\<close>: a library of books on an RCU-protected kernel list. The
  model keeps the heap, the links, the spinlock, the depth of RCU read-side sections, the queue of
  \<^verbatim>\<open>call_rcu\<close> callbacks and the log; the kernel's list, allocator and preemption counter are
  parameters. Every operation is followed branch by branch, and the theory shows that, run one
  after the other, the operations implement a plain list of books, never fault and never leak.
\<close>

section \<open>Data\<close>

record book =
  b_id :: int
  b_name :: string
  b_author :: string
  b_borrow :: int

record ('l, 'm) library =
  heap :: "addr \<rightharpoonup> book"
  books :: 'l
  books_lock :: bool
  rcu_nesting :: nat
  rcu_pending :: "addr list"
  kmem_state :: 'm
  klog :: "string list"

text \<open>What the module uses of the kernel; the flag of \<open>k_preempt\<close> tells a callback from a task.\<close>

record ('l, 'm) kern =
  k_list :: "'l klist"
  k_mem :: "'m kmem"
  k_preempt :: "bool \<Rightarrow> nat"

section \<open>Strings in fixed arrays\<close>

abbreviation (input) NUL :: char where "NUL \<equiv> CHR 0x00"

definition c_str :: "string \<Rightarrow> string" where
  "c_str bytes = takeWhile (\<lambda>c. c \<noteq> NUL) bytes"

definition strncpy :: "nat \<Rightarrow> string \<Rightarrow> string" where
  "strncpy n src = take n (c_str src) @ replicate (n - length (c_str src)) NUL"

definition le32 :: "int \<Rightarrow> string" where
  "le32 v = map (\<lambda>i. char_of (nat (v div 256 ^ i mod 256))) [0..<4]"

text \<open>\<^verbatim>\<open>%s\<close> reads from the array up to the first NUL, into the members behind it if need be.\<close>

definition name_str :: "book \<Rightarrow> string" where
  "name_str b = c_str (b_name b @ b_author b @ le32 (b_borrow b))"

definition author_str :: "book \<Rightarrow> string" where
  "author_str b = c_str (b_author b @ le32 (b_borrow b))"

definition zeroed_book :: book where
  "zeroed_book = \<lparr>b_id = 0, b_name = replicate 64 NUL, b_author = replicate 64 NUL, b_borrow = 0\<rparr>"

section \<open>Kernel primitives\<close>

definition klog_line :: "string \<Rightarrow> farg list \<Rightarrow> (('l, 'm) library, unit) cmd" where
  "klog_line fmt args = modify (\<lambda>s. s\<lparr>klog := klog s @ [emit fmt args]\<rparr>)"

definition rcu_read_lock :: "(('l, 'm) library, unit) cmd" where
  "rcu_read_lock = modify (\<lambda>s. s\<lparr>rcu_nesting := Suc (rcu_nesting s)\<rparr>)"

definition rcu_read_unlock :: "(('l, 'm) library, unit) cmd" where
  "rcu_read_unlock =
     bind_cmd (guard_cmd (\<lambda>s. 0 < rcu_nesting s) Unbalanced) (\<lambda>_.
       modify (\<lambda>s. s\<lparr>rcu_nesting := rcu_nesting s - 1\<rparr>))"

definition spin_lock :: "(('l, 'm) library, unit) cmd" where
  "spin_lock =
     bind_cmd (guard_cmd (\<lambda>s. \<not> books_lock s) SelfDeadlock) (\<lambda>_. modify (\<lambda>s. s\<lparr>books_lock := True\<rparr>))"

definition spin_unlock :: "(('l, 'm) library, unit) cmd" where
  "spin_unlock =
     bind_cmd (guard_cmd books_lock Unbalanced) (\<lambda>_. modify (\<lambda>s. s\<lparr>books_lock := False\<rparr>))"

definition may_sleep :: "(('l, 'm) library, unit) cmd" where
  "may_sleep = guard_cmd (\<lambda>s. \<not> books_lock s \<and> rcu_nesting s = 0) SleepInAtomic"

definition synchronize_rcu :: "(('l, 'm) library, unit) cmd" where
  "synchronize_rcu = bind_cmd (guard_cmd (\<lambda>s. rcu_nesting s = 0) SelfDeadlock) (\<lambda>_. may_sleep)"

definition book_at :: "addr \<Rightarrow> (('l, 'm) library, book) cmd" where
  "book_at a s = (case heap s a of None \<Rightarrow> Some (Inl (UseAfterFree a)) | Some b \<Rightarrow> Some (Inr (b, s)))"

definition store_book :: "addr \<Rightarrow> book \<Rightarrow> (('l, 'm) library, unit) cmd" where
  "store_book a b =
     bind_cmd (book_at a) (\<lambda>_. modify (\<lambda>s. s\<lparr>heap := (heap s)(a \<mapsto> b)\<rparr>))"

definition kzalloc :: "('l, 'm) kern \<Rightarrow> (('l, 'm) library, addr option) cmd" where
  "kzalloc K s =
     (case km_alloc (k_mem K) (kmem_state s) of
        (None, m') \<Rightarrow> return None (s\<lparr>kmem_state := m'\<rparr>)
      | (Some a, m') \<Rightarrow> return (Some a) (s\<lparr>kmem_state := m', heap := (heap s)(a \<mapsto> zeroed_book)\<rparr>))"

definition kfree :: "('l, 'm) kern \<Rightarrow> addr \<Rightarrow> (('l, 'm) library, unit) cmd" where
  "kfree K a =
     bind_cmd (guard_cmd (\<lambda>s. heap s a \<noteq> None) (DoubleFree a)) (\<lambda>_.
       modify (\<lambda>s. s\<lparr>heap := (heap s)(a := None), kmem_state := km_free (k_mem K) a (kmem_state s)\<rparr>))"

definition call_rcu :: "addr \<Rightarrow> (('l, 'm) library, unit) cmd" where
  "call_rcu a = bind_cmd (book_at a) (\<lambda>_. modify (\<lambda>s. s\<lparr>rcu_pending := rcu_pending s @ [a]\<rparr>))"

definition next_book :: "('l, 'm) kern \<Rightarrow> addr \<Rightarrow> (('l, 'm) library, addr) cmd" where
  "next_book K a = bind_cmd (book_at a) (\<lambda>_. gets (\<lambda>s. kl_next (k_list K) (books s) a))"

definition for_each_book ::
  "('l, 'm) kern \<Rightarrow> (addr \<Rightarrow> (('l, 'm) library, 'r option) cmd) \<Rightarrow> (('l, 'm) library, 'r option) cmd" where
  "for_each_book K body s = for_each (next_book K) body (kl_next (k_list K) (books s) HEAD) s"

definition on_list :: "('l \<Rightarrow> 'l) \<Rightarrow> (('l, 'm) library, unit) cmd" where
  "on_list f = modify (\<lambda>s. s\<lparr>books := f (books s)\<rparr>)"

section \<open>The operations\<close>

definition book_reclaim_callback :: "('l, 'm) kern \<Rightarrow> addr \<Rightarrow> (('l, 'm) library, unit) cmd" where
  "book_reclaim_callback K b =
     bind_cmd (klog_line ''callback free : %lx, preempt_count : 0x%x\<newline>'' [FUInt b, FUInt (k_preempt K True)])
       (\<lambda>_. kfree K b)"

definition add_book :: "('l, 'm) kern \<Rightarrow> int \<Rightarrow> string \<Rightarrow> string \<Rightarrow> (('l, 'm) library, unit) cmd" where
  "add_book K ident name author =
     bind_cmd may_sleep (\<lambda>_.
     bind_cmd (kzalloc K) (\<lambda>b. case b of
       None \<Rightarrow> return ()
     | Some b \<Rightarrow>
         bind_cmd (store_book b \<lparr>b_id = ident, b_name = strncpy 64 name, b_author = strncpy 64 author, b_borrow = 0\<rparr>) (\<lambda>_.
         bind_cmd spin_lock (\<lambda>_.
         bind_cmd (on_list (kl_add (k_list K) b)) (\<lambda>_.
         spin_unlock)))))"

text \<open>
  The reclamation of an unlinked book that \<^verbatim>\<open>borrow_book\<close>, \<^verbatim>\<open>return_book\<close> and \<^verbatim>\<open>delete_book\<close> share:
  asynchronous by callback, or after waiting for a grace period.
\<close>

definition reclaim :: "('l, 'm) kern \<Rightarrow> int \<Rightarrow> addr \<Rightarrow> (('l, 'm) library, unit) cmd" where
  "reclaim K async b =
     (if async \<noteq> 0 then call_rcu b else bind_cmd synchronize_rcu (\<lambda>_. kfree K b))"

text \<open>
  The search of the two updaters: \<open>Some None\<close> is the early \<^verbatim>\<open>return -1\<close> for a book whose
  \<^verbatim>\<open>borrow\<close> flag is not what the updater needs, \<open>Some (Some b)\<close> is \<^verbatim>\<open>old_b = b; break\<close>.
\<close>

definition find_to_update :: "(int \<Rightarrow> bool) \<Rightarrow> int \<Rightarrow> addr \<Rightarrow> (('l, 'm) library, addr option option) cmd" where
  "find_to_update refuse ident b =
     bind_cmd (book_at b) (\<lambda>x.
       if b_id x = ident then
         (if refuse (b_borrow x) then bind_cmd rcu_read_unlock (\<lambda>_. return (Some None))
          else return (Some (Some b)))
       else return None)"

text \<open>
  \<^verbatim>\<open>borrow_book\<close> and \<^verbatim>\<open>return_book\<close> are the same code up to the flag they refuse, the flag they
  set and the message.
\<close>

definition update_book ::
  "('l, 'm) kern \<Rightarrow> (int \<Rightarrow> bool) \<Rightarrow> int \<Rightarrow> string \<Rightarrow> int \<Rightarrow> int \<Rightarrow> (('l, 'm) library, int) cmd" where
  "update_book K refuse flag msg ident async =
     bind_cmd rcu_read_lock (\<lambda>_.
     bind_cmd (for_each_book K (find_to_update refuse ident)) (\<lambda>r. case r of
       Some None \<Rightarrow> return (-1)
     | None \<Rightarrow> bind_cmd rcu_read_unlock (\<lambda>_. return (-1))
     | Some (Some old_b) \<Rightarrow>
         bind_cmd (kzalloc K) (\<lambda>n. case n of
           None \<Rightarrow> bind_cmd rcu_read_unlock (\<lambda>_. return (-1))
         | Some new_b \<Rightarrow>
             bind_cmd (book_at old_b) (\<lambda>x.
             bind_cmd (store_book new_b (x\<lparr>b_borrow := flag\<rparr>)) (\<lambda>_.
             bind_cmd spin_lock (\<lambda>_.
             bind_cmd (on_list (kl_replace (k_list K) old_b new_b)) (\<lambda>_.
             bind_cmd spin_unlock (\<lambda>_.
             bind_cmd rcu_read_unlock (\<lambda>_.
             bind_cmd (reclaim K async old_b) (\<lambda>_.
             bind_cmd (klog_line msg [FInt ident, FUInt (k_preempt K False)]) (\<lambda>_.
             return 0)))))))))))"

definition borrow_book :: "('l, 'm) kern \<Rightarrow> int \<Rightarrow> int \<Rightarrow> (('l, 'm) library, int) cmd" where
  "borrow_book K ident async =
     update_book K (\<lambda>b. b \<noteq> 0) 1 ''borrow success %d, preempt_count : 0x%x\<newline>'' ident async"

definition return_book :: "('l, 'm) kern \<Rightarrow> int \<Rightarrow> int \<Rightarrow> (('l, 'm) library, int) cmd" where
  "return_book K ident async =
     update_book K (\<lambda>b. b = 0) 0 ''return success %d, preempt_count : 0x%x\<newline>'' ident async"

text \<open>The reader leaves its section before it reads the flag it returns.\<close>

definition is_borrowed_step :: "int \<Rightarrow> addr \<Rightarrow> (('l, 'm) library, int option) cmd" where
  "is_borrowed_step ident b =
     bind_cmd (book_at b) (\<lambda>x.
       if b_id x = ident then
         bind_cmd rcu_read_unlock (\<lambda>_. bind_cmd (book_at b) (\<lambda>y. return (Some (b_borrow y))))
       else return None)"

definition is_borrowed_book :: "('l, 'm) kern \<Rightarrow> int \<Rightarrow> (('l, 'm) library, int) cmd" where
  "is_borrowed_book K ident =
     bind_cmd rcu_read_lock (\<lambda>_.
     bind_cmd (for_each_book K (is_borrowed_step ident)) (\<lambda>r. case r of
       Some v \<Rightarrow> return v
     | None \<Rightarrow> bind_cmd rcu_read_unlock (\<lambda>_.
               bind_cmd (klog_line ''not exist book\<newline>'' []) (\<lambda>_. return (-1)))))"

definition delete_step :: "('l, 'm) kern \<Rightarrow> int \<Rightarrow> int \<Rightarrow> addr \<Rightarrow> (('l, 'm) library, unit option) cmd" where
  "delete_step K ident async b =
     bind_cmd (book_at b) (\<lambda>x.
       if b_id x = ident then
         bind_cmd (on_list (kl_del (k_list K) b)) (\<lambda>_.
         bind_cmd spin_unlock (\<lambda>_.
         bind_cmd (reclaim K async b) (\<lambda>_. return (Some ()))))
       else return None)"

definition delete_book :: "('l, 'm) kern \<Rightarrow> int \<Rightarrow> int \<Rightarrow> (('l, 'm) library, unit) cmd" where
  "delete_book K ident async =
     bind_cmd spin_lock (\<lambda>_.
     bind_cmd (for_each_book K (delete_step K ident async)) (\<lambda>r. case r of
       Some _ \<Rightarrow> return ()
     | None \<Rightarrow> bind_cmd spin_unlock (\<lambda>_. klog_line ''not exist book\<newline>'' [])))"

definition book_line :: "addr \<Rightarrow> book \<Rightarrow> string" where
  "book_line a b = emit ''id : %d, name : %s, author : %s, borrow : %d, addr : %lx\<newline>''
     [FInt (b_id b), FStr (name_str b), FStr (author_str b), FInt (b_borrow b), FUInt a]"

definition print_step :: "int \<Rightarrow> addr \<Rightarrow> (('l, 'm) library, unit option) cmd" where
  "print_step ident b =
     bind_cmd (book_at b) (\<lambda>x.
       if b_id x = ident then
         bind_cmd (modify (\<lambda>s. s\<lparr>klog := klog s @ [book_line b x]\<rparr>)) (\<lambda>_.
         bind_cmd rcu_read_unlock (\<lambda>_. return (Some ())))
       else return None)"

definition print_book :: "('l, 'm) kern \<Rightarrow> int \<Rightarrow> (('l, 'm) library, unit) cmd" where
  "print_book K ident =
     bind_cmd rcu_read_lock (\<lambda>_.
     bind_cmd (for_each_book K (print_step ident)) (\<lambda>r. case r of
       Some _ \<Rightarrow> return ()
     | None \<Rightarrow> bind_cmd rcu_read_unlock (\<lambda>_. klog_line ''not exist book\<newline>'' [])))"

section \<open>Sequences of operations and the module's entry points\<close>

text \<open>
  The calls a client can make, and the end of a grace period, at which the kernel runs the
  callbacks queued so far.
\<close>

datatype op =
    Add_book int string string
  | Borrow_book int int
  | Return_book int int
  | Delete_book int int
  | Is_borrowed_book int
  | Print_book int
  | Grace_period

definition run_callbacks :: "('l, 'm) kern \<Rightarrow> (('l, 'm) library, unit) cmd" where
  "run_callbacks K s =
     all_of (map (book_reclaim_callback K) (rcu_pending s)) (s\<lparr>rcu_pending := []\<rparr>)"

definition void :: "(('l, 'm) library, unit) cmd \<Rightarrow> (('l, 'm) library, int) cmd" where
  "void c = bind_cmd c (\<lambda>_. return 0)"

primrec exec_op :: "('l, 'm) kern \<Rightarrow> op \<Rightarrow> (('l, 'm) library, int) cmd" where
  "exec_op K (Add_book ident name author) = void (add_book K ident name author)"
| "exec_op K (Borrow_book ident async) = borrow_book K ident async"
| "exec_op K (Return_book ident async) = return_book K ident async"
| "exec_op K (Delete_book ident async) = void (delete_book K ident async)"
| "exec_op K (Is_borrowed_book ident) = is_borrowed_book K ident"
| "exec_op K (Print_book ident) = void (print_book K ident)"
| "exec_op K Grace_period = void (run_callbacks K)"

primrec run_ops :: "('l, 'm) kern \<Rightarrow> op list \<Rightarrow> (('l, 'm) library, int list) cmd" where
  "run_ops K [] = return []"
| "run_ops K (c # cs) = bind_cmd (exec_op K c) (\<lambda>r. bind_cmd (run_ops K cs) (\<lambda>rs. return (r # rs)))"

definition show_borrowed :: "('l, 'm) kern \<Rightarrow> string \<Rightarrow> int \<Rightarrow> (('l, 'm) library, unit) cmd" where
  "show_borrowed K fmt ident = bind_cmd (is_borrowed_book K ident) (\<lambda>r. klog_line fmt [FInt r])"

definition test_example :: "('l, 'm) kern \<Rightarrow> int \<Rightarrow> (('l, 'm) library, unit) cmd" where
  "test_example K async = all_of
     [add_book K 0 ''book1'' ''jb'', add_book K 1 ''book2'' ''jb'',
      print_book K 0, print_book K 1,
      show_borrowed K ''book1 borrow : %d\<newline>'' 0, show_borrowed K ''book2 borrow : %d\<newline>'' 1,
      bind_cmd (borrow_book K 0 async) (\<lambda>_. return ()), bind_cmd (borrow_book K 1 async) (\<lambda>_. return ()),
      print_book K 0, print_book K 1,
      bind_cmd (return_book K 0 async) (\<lambda>_. return ()), bind_cmd (return_book K 1 async) (\<lambda>_. return ()),
      print_book K 0, print_book K 1,
      delete_book K 0 async, delete_book K 1 async,
      print_book K 0, print_book K 1]"

definition list_rcu_example_init :: "('l, 'm) kern \<Rightarrow> (('l, 'm) library, int) cmd" where
  "list_rcu_example_init K =
     bind_cmd (modify (\<lambda>s. s\<lparr>books_lock := False\<rparr>)) (\<lambda>_.
     bind_cmd (test_example K 0) (\<lambda>_.
     bind_cmd (test_example K 1) (\<lambda>_. return 0)))"

definition list_rcu_example_exit :: "(('l, 'm) library, unit) cmd" where
  "list_rcu_example_exit = return ()"

definition fresh_library :: "('l, 'm) kern \<Rightarrow> 'm \<Rightarrow> ('l, 'm) library" where
  "fresh_library K m = \<lparr>heap = Map.empty, books = kl_init (k_list K), books_lock = False, rcu_nesting = 0,
     rcu_pending = [], kmem_state = m, klog = []\<rparr>"

section \<open>The abstract library\<close>

text \<open>A plain list of books, searched from the front. The flag says whether memory was available.\<close>

primrec find_book :: "int \<Rightarrow> book list \<Rightarrow> book option" where
  "find_book ident [] = None"
| "find_book ident (b # bs) = (if b_id b = ident then Some b else find_book ident bs)"

primrec set_borrow :: "int \<Rightarrow> int \<Rightarrow> book list \<Rightarrow> book list" where
  "set_borrow ident v [] = []"
| "set_borrow ident v (b # bs) = (if b_id b = ident then b\<lparr>b_borrow := v\<rparr> # bs else b # set_borrow ident v bs)"

primrec drop_book :: "int \<Rightarrow> book list \<Rightarrow> book list" where
  "drop_book ident [] = []"
| "drop_book ident (b # bs) = (if b_id b = ident then bs else b # drop_book ident bs)"

definition queued :: "int \<Rightarrow> nat \<Rightarrow> nat" where
  "queued async n = (if async \<noteq> 0 then Suc n else n)"

definition spec_update ::
  "(int \<Rightarrow> bool) \<Rightarrow> int \<Rightarrow> int \<Rightarrow> int \<Rightarrow> bool \<Rightarrow> book list \<Rightarrow> nat \<Rightarrow> int \<times> book list \<times> nat" where
  "spec_update refuse flag ident async mem bs n =
     (case find_book ident bs of
        None \<Rightarrow> (-1, bs, n)
      | Some b \<Rightarrow> if refuse (b_borrow b) \<or> \<not> mem then (-1, bs, n)
                  else (0, set_borrow ident flag bs, queued async n))"

text \<open>The result of a call, the new list of books and the new number of queued callbacks.\<close>

primrec spec_op :: "op \<Rightarrow> bool \<Rightarrow> book list \<Rightarrow> nat \<Rightarrow> int \<times> book list \<times> nat" where
  "spec_op (Add_book ident name author) mem bs n =
     (0, if mem then \<lparr>b_id = ident, b_name = strncpy 64 name, b_author = strncpy 64 author, b_borrow = 0\<rparr> # bs else bs, n)"
| "spec_op (Borrow_book ident async) mem bs n = spec_update (\<lambda>b. b \<noteq> 0) 1 ident async mem bs n"
| "spec_op (Return_book ident async) mem bs n = spec_update (\<lambda>b. b = 0) 0 ident async mem bs n"
| "spec_op (Delete_book ident async) mem bs n =
     (0, drop_book ident bs, case find_book ident bs of None \<Rightarrow> n | Some _ \<Rightarrow> queued async n)"
| "spec_op (Is_borrowed_book ident) mem bs n =
     (case find_book ident bs of None \<Rightarrow> -1 | Some b \<Rightarrow> b_borrow b, bs, n)"
| "spec_op (Print_book ident) mem bs n = (0, bs, n)"
| "spec_op Grace_period mem bs n = (0, bs, 0)"

text \<open>
  What a call may add to the kernel's log: the lines are fixed but for the addresses of the books.
\<close>

definition update_says :: "('l, 'm) kern \<Rightarrow> (int \<Rightarrow> bool) \<Rightarrow> string \<Rightarrow> int \<Rightarrow> bool \<Rightarrow> book list \<Rightarrow> string list" where
  "update_says K refuse msg ident mem bs =
     (case find_book ident bs of
        None \<Rightarrow> []
      | Some b \<Rightarrow> if refuse (b_borrow b) \<or> \<not> mem then [] else [emit msg [FInt ident, FUInt (k_preempt K False)]])"

definition lookup_says :: "int \<Rightarrow> book list \<Rightarrow> string list" where
  "lookup_says ident bs = (if find_book ident bs = None then [emit ''not exist book\<newline>'' []] else [])"

primrec spec_says :: "('l, 'm) kern \<Rightarrow> op \<Rightarrow> bool \<Rightarrow> book list \<Rightarrow> nat \<Rightarrow> string list \<Rightarrow> bool" where
  "spec_says K (Add_book ident name author) mem bs n ls \<longleftrightarrow> ls = []"
| "spec_says K (Borrow_book ident async) mem bs n ls \<longleftrightarrow>
     ls = update_says K (\<lambda>b. b \<noteq> 0) ''borrow success %d, preempt_count : 0x%x\<newline>'' ident mem bs"
| "spec_says K (Return_book ident async) mem bs n ls \<longleftrightarrow>
     ls = update_says K (\<lambda>b. b = 0) ''return success %d, preempt_count : 0x%x\<newline>'' ident mem bs"
| "spec_says K (Delete_book ident async) mem bs n ls \<longleftrightarrow> ls = lookup_says ident bs"
| "spec_says K (Is_borrowed_book ident) mem bs n ls \<longleftrightarrow> ls = lookup_says ident bs"
| "spec_says K (Print_book ident) mem bs n ls \<longleftrightarrow>
     (case find_book ident bs of None \<Rightarrow> ls = lookup_says ident bs | Some b \<Rightarrow> \<exists>a. ls = [book_line a b])"
| "spec_says K Grace_period mem bs n ls \<longleftrightarrow>
     (\<exists>ps. length ps = n \<and>
        ls = map (\<lambda>p. emit ''callback free : %lx, preempt_count : 0x%x\<newline>'' [FUInt p, FUInt (k_preempt K True)]) ps)"

lemma spec_says_fun:
  "spec_says K (Add_book i name author) mem bs n = (\<lambda>ls. ls = [])"
  "spec_says K (Borrow_book i async) mem bs n =
     (\<lambda>ls. ls = update_says K (\<lambda>b. b \<noteq> 0) ''borrow success %d, preempt_count : 0x%x\<newline>'' i mem bs)"
  "spec_says K (Return_book i async) mem bs n =
     (\<lambda>ls. ls = update_says K (\<lambda>b. b = 0) ''return success %d, preempt_count : 0x%x\<newline>'' i mem bs)"
  "spec_says K (Delete_book i async) mem bs n = (\<lambda>ls. ls = lookup_says i bs)"
  "spec_says K (Is_borrowed_book i) mem bs n = (\<lambda>ls. ls = lookup_says i bs)"
  by (simp_all add: fun_eq_iff)

text \<open>A sequence of calls, each with whether memory is available to it.\<close>

primrec spec_ops :: "(op \<times> bool) list \<Rightarrow> book list \<Rightarrow> nat \<Rightarrow> int list \<times> book list \<times> nat" where
  "spec_ops [] bs n = ([], bs, n)"
| "spec_ops (c # cs) bs n =
     (case spec_op (fst c) (snd c) bs n of (r, bs', n') \<Rightarrow>
      (case spec_ops cs bs' n' of (rs, bs'', n'') \<Rightarrow> (r # rs, bs'', n'')))"

text \<open>The books on the list, and the invariant that ties the list, the heap and the callbacks.\<close>

definition shelf :: "('l, 'm) library \<Rightarrow> addr list \<Rightarrow> book list" where
  "shelf s xs = map (\<lambda>a. the (heap s a)) xs"

definition lib_inv :: "('l \<Rightarrow> addr list \<Rightarrow> bool) \<Rightarrow> ('m \<Rightarrow> addr set) \<Rightarrow> ('l, 'm) library \<Rightarrow> addr list \<Rightarrow> bool" where
  "lib_inv repr live s xs \<longleftrightarrow>
     repr (books s) xs \<and> dom (heap s) = set xs \<union> set (rcu_pending s) \<and>
     set xs \<inter> set (rcu_pending s) = {} \<and> distinct (rcu_pending s) \<and>
     dom (heap s) \<subseteq> live (kmem_state s) \<and> \<not> books_lock s \<and> rcu_nesting s = 0"

text \<open>An operation started in \<open>s\<close> returns without fault, keeps the invariant, does what is specified and logs what it may say.\<close>

definition implements ::
  "('l \<Rightarrow> addr list \<Rightarrow> bool) \<Rightarrow> ('m \<Rightarrow> addr set) \<Rightarrow> (('l, 'm) library, int) cmd \<Rightarrow> ('l, 'm) library \<Rightarrow>
   int \<times> book list \<times> nat \<Rightarrow> (string list \<Rightarrow> bool) \<Rightarrow> bool" where
  "implements repr live c s res says \<longleftrightarrow>
     (\<exists>r s' ys ls. c s = Some (Inr (r, s')) \<and> lib_inv repr live s' ys \<and> (r, shelf s' ys, length (rcu_pending s')) = res \<and>
        klog s' = klog s @ ls \<and> says ls)"

text \<open>
  The statements of \<^verbatim>\<open>test_example\<close>: a call and, where its result is printed, the format.
\<close>

type_synonym call_stmt = "op \<times> string option"

definition stmt_says :: "('l, 'm) kern \<Rightarrow> call_stmt \<Rightarrow> bool \<Rightarrow> book list \<Rightarrow> nat \<Rightarrow> string list \<Rightarrow> bool" where
  "stmt_says K c mem bs n ls \<longleftrightarrow>
     (case snd c of
        None \<Rightarrow> spec_says K (fst c) mem bs n ls
      | Some fmt \<Rightarrow> \<exists>us. spec_says K (fst c) mem bs n us \<and> ls = us @ [emit fmt [FInt (fst (spec_op (fst c) mem bs n))]])"

text \<open>The log of a sequence of statements, and the books and queued callbacks it leaves.\<close>

primrec spec_log :: "('l, 'm) kern \<Rightarrow> (call_stmt \<times> bool) list \<Rightarrow> book list \<Rightarrow> nat \<Rightarrow> string list \<Rightarrow> bool" where
  "spec_log K [] bs n ls \<longleftrightarrow> ls = []"
| "spec_log K (c # cs) bs n ls \<longleftrightarrow>
     (\<exists>us vs. ls = us @ vs \<and> stmt_says K (fst c) (snd c) bs n us \<and>
        (case spec_op (fst (fst c)) (snd c) bs n of (r, bs', n') \<Rightarrow> spec_log K cs bs' n' vs))"

definition spec_left :: "(call_stmt \<times> bool) list \<Rightarrow> book list \<times> nat \<Rightarrow> book list \<times> nat" where
  "spec_left = fold (\<lambda>(c, mem) (bs, n). snd (spec_op (fst c) mem bs n))"

definition does ::
  "('l, 'm) kern \<Rightarrow> ('l \<Rightarrow> addr list \<Rightarrow> bool) \<Rightarrow> ('m \<Rightarrow> addr set) \<Rightarrow> (('l, 'm) library, unit) cmd \<Rightarrow> call_stmt \<Rightarrow> bool" where
  "does K repr live d c \<longleftrightarrow> (\<forall>s xs. lib_inv repr live s xs \<longrightarrow>
     (\<exists>s' ys ls. d s = Some (Inr ((), s')) \<and> lib_inv repr live s' ys \<and> klog s' = klog s @ ls \<and>
        (let mem = (fst (km_alloc (k_mem K) (kmem_state s)) \<noteq> None); n = length (rcu_pending s) in
         (shelf s' ys, length (rcu_pending s')) = snd (spec_op (fst c) mem (shelf s xs) n) \<and>
         stmt_says K c mem (shelf s xs) n ls)))"

definition test_calls :: "int \<Rightarrow> call_stmt list" where
  "test_calls async =
     [(Add_book 0 ''book1'' ''jb'', None), (Add_book 1 ''book2'' ''jb'', None), (Print_book 0, None), (Print_book 1, None),
      (Is_borrowed_book 0, Some ''book1 borrow : %d\<newline>''), (Is_borrowed_book 1, Some ''book2 borrow : %d\<newline>''),
      (Borrow_book 0 async, None), (Borrow_book 1 async, None), (Print_book 0, None), (Print_book 1, None),
      (Return_book 0 async, None), (Return_book 1 async, None), (Print_book 0, None), (Print_book 1, None),
      (Delete_book 0 async, None), (Delete_book 1 async, None), (Print_book 0, None), (Print_book 1, None)]"

text \<open>A book taken off the list that is not queued for reclamation yet.\<close>

definition unlinked_inv ::
  "('l \<Rightarrow> addr list \<Rightarrow> bool) \<Rightarrow> ('m \<Rightarrow> addr set) \<Rightarrow> ('l, 'm) library \<Rightarrow> addr list \<Rightarrow> addr \<Rightarrow> bool" where
  "unlinked_inv repr live s xs a \<longleftrightarrow>
     repr (books s) xs \<and> dom (heap s) = insert a (set xs \<union> set (rcu_pending s)) \<and>
     a \<notin> set xs \<union> set (rcu_pending s) \<and> set xs \<inter> set (rcu_pending s) = {} \<and>
     distinct (rcu_pending s) \<and> dom (heap s) \<subseteq> live (kmem_state s) \<and> \<not> books_lock s \<and> rcu_nesting s = 0"

section \<open>The primitives, evaluated\<close>

lemma book_at_live [simp]: "heap s a = Some b \<Longrightarrow> book_at a s = Some (Inr (b, s))"
  by (simp add: book_at_def)

lemma next_book_live: "heap s a = Some b \<Longrightarrow> next_book K a s = Some (Inr (kl_next (k_list K) (books s) a, s))"
  by (simp add: next_book_def gets_def)

lemma rcu_read_lock_eq [simp]: "rcu_read_lock s = Some (Inr ((), s\<lparr>rcu_nesting := Suc (rcu_nesting s)\<rparr>))"
  by (simp add: rcu_read_lock_def modify_def)

lemma rcu_read_unlock_eq [simp]:
  "0 < rcu_nesting s \<Longrightarrow> rcu_read_unlock s = Some (Inr ((), s\<lparr>rcu_nesting := rcu_nesting s - 1\<rparr>))"
  by (simp add: rcu_read_unlock_def cmd_defs)

lemma spin_lock_eq [simp]: "\<not> books_lock s \<Longrightarrow> spin_lock s = Some (Inr ((), s\<lparr>books_lock := True\<rparr>))"
  by (simp add: spin_lock_def cmd_defs)

lemma spin_unlock_eq [simp]: "books_lock s \<Longrightarrow> spin_unlock s = Some (Inr ((), s\<lparr>books_lock := False\<rparr>))"
  by (simp add: spin_unlock_def cmd_defs)

lemma may_sleep_eq [simp]: "\<not> books_lock s \<Longrightarrow> rcu_nesting s = 0 \<Longrightarrow> may_sleep s = Some (Inr ((), s))"
  by (simp add: may_sleep_def cmd_defs)

lemma synchronize_rcu_eq [simp]:
  "\<not> books_lock s \<Longrightarrow> rcu_nesting s = 0 \<Longrightarrow> synchronize_rcu s = Some (Inr ((), s))"
  by (simp add: synchronize_rcu_def guard_cmd_def)

lemma store_book_eq [simp]:
  "heap s a = Some x \<Longrightarrow> store_book a b s = Some (Inr ((), s\<lparr>heap := (heap s)(a \<mapsto> b)\<rparr>))"
  by (simp add: store_book_def modify_def)

lemma kfree_eq [simp]:
  "heap s a = Some x \<Longrightarrow>
   kfree K a s = Some (Inr ((), s\<lparr>heap := (heap s)(a := None), kmem_state := km_free (k_mem K) a (kmem_state s)\<rparr>))"
  by (simp add: kfree_def cmd_defs)

lemma call_rcu_eq [simp]:
  "heap s a = Some x \<Longrightarrow> call_rcu a s = Some (Inr ((), s\<lparr>rcu_pending := rcu_pending s @ [a]\<rparr>))"
  by (simp add: call_rcu_def modify_def)

lemma klog_line_eq [simp]: "klog_line fmt args s = Some (Inr ((), s\<lparr>klog := klog s @ [emit fmt args]\<rparr>))"
  by (simp add: klog_line_def modify_def)

lemma on_list_eq [simp]: "on_list f s = Some (Inr ((), s\<lparr>books := f (books s)\<rparr>))"
  by (simp add: on_list_def modify_def)

lemma kzalloc_Some [simp]:
  "km_alloc (k_mem K) (kmem_state s) = (Some a, m') \<Longrightarrow>
   kzalloc K s = Some (Inr (Some a, s\<lparr>kmem_state := m', heap := (heap s)(a \<mapsto> zeroed_book)\<rparr>))"
  by (simp add: kzalloc_def return_def)

lemma kzalloc_None [simp]:
  "km_alloc (k_mem K) (kmem_state s) = (None, m') \<Longrightarrow> kzalloc K s = Some (Inr (None, s\<lparr>kmem_state := m'\<rparr>))"
  by (simp add: kzalloc_def return_def)

lemma for_each_book_cong [simp]:
  "for_each_book K body s = for_each (next_book K) body (kl_next (k_list K) (books s) HEAD) s"
  by (rule for_each_book_def)

section \<open>The abstract library on a split list\<close>

lemma split_first_book:
  obtains (miss) "\<And>a. a \<in> set xs \<Longrightarrow> b_id (the (h a)) \<noteq> i"
    | (hit) us a vs where "xs = us @ a # vs" "b_id (the (h a)) = i" "\<And>x. x \<in> set us \<Longrightarrow> b_id (the (h x)) \<noteq> i"
  using split_list_first_prop [of xs "\<lambda>a. b_id (the (h a)) = i"] by metis

lemma book_spec_skip:
  assumes "\<And>x. x \<in> set us \<Longrightarrow> b_id (f x) \<noteq> i"
  shows "find_book i (map f us @ bs) = find_book i bs"
    and "set_borrow i v (map f us @ bs) = map f us @ set_borrow i v bs"
    and "drop_book i (map f us @ bs) = map f us @ drop_book i bs"
  using assms by (induction us) auto

section \<open>Every operation implements the abstract library\<close>

locale book_client = kernel_list "k_list K" repr + kernel_memory "k_mem K" live
  for K :: "('l, 'm) kern" and repr and live
begin

lemma loop_miss:
  assumes "repr (books t) xs"
    and "\<And>a. a \<in> set xs \<Longrightarrow> heap t a \<noteq> None \<and> body a t = Some (Inr (None, t))"
  shows "for_each (next_book K) body (kl_next (k_list K) (books t) HEAD) t = Some (Inr (None, t))"
  by (rule for_each_miss [OF assms(1)]) (use assms(2) next_book_live in force)

lemma loop_hit:
  assumes "repr (books t) (us @ a # vs)"
    and "\<And>x. x \<in> set us \<Longrightarrow> heap t x \<noteq> None \<and> body x t = Some (Inr (None, t))"
    and "body a t = Some (Inr (Some r, t'))"
  shows "for_each (next_book K) body (kl_next (k_list K) (books t) HEAD) t = Some (Inr (Some r, t'))"
  by (rule for_each_hit [OF assms(1)]) (use assms(2,3) next_book_live in force)+

lemma log_irrelevant [simp]:
  "lib_inv repr live (t\<lparr>klog := l\<rparr>) xs = lib_inv repr live t xs" "shelf (t\<lparr>klog := l\<rparr>) xs = shelf t xs"
  by (simp_all add: lib_inv_def shelf_def)

lemma reclaim_implements:
  assumes "unlinked_inv repr live t ys a"
  shows "\<exists>t'. reclaim K async a t = Some (Inr ((), t')) \<and> lib_inv repr live t' ys \<and>
    shelf t' ys = shelf t ys \<and> length (rcu_pending t') = queued async (length (rcu_pending t)) \<and> klog t' = klog t"
proof -
  from assms have "a \<in> dom (heap t)" by (simp add: unlinked_inv_def)
  then obtain x where x: "heap t a = Some x" by blast
  from assms have live: "live (km_free (k_mem K) a (kmem_state t)) = live (kmem_state t) - {a}"
    using free_live [of a "kmem_state t"] by (auto simp: unlinked_inv_def)
  show ?thesis
  proof (cases "async = 0")
    case True
    with assms x live show ?thesis
      by (auto simp: reclaim_def unlinked_inv_def lib_inv_def shelf_def queued_def)
  next
    case False
    with assms x show ?thesis
      by (auto simp: reclaim_def unlinked_inv_def lib_inv_def shelf_def queued_def)
  qed
qed

lemma add_book_implements:
  assumes "lib_inv repr live s xs"
  shows "implements repr live (exec_op K (Add_book i n w)) s
    (spec_op (Add_book i n w) (fst (km_alloc (k_mem K) (kmem_state s)) \<noteq> None) (shelf s xs) (length (rcu_pending s))) (\<lambda>ls. ls = [])"
proof (cases "km_alloc (k_mem K) (kmem_state s)")
  case (Pair r m')
  note inv = assms [unfolded lib_inv_def]
  show ?thesis
  proof (cases r)
    case None
    with Pair inv alloc_failed [of "kmem_state s" m'] have "lib_inv repr live (s\<lparr>kmem_state := m'\<rparr>) xs"
      by (auto simp: lib_inv_def)
    moreover have "shelf (s\<lparr>kmem_state := m'\<rparr>) xs = shelf s xs" by (simp add: shelf_def)
    ultimately show ?thesis
      using None Pair inv unfolding implements_def
      by (intro exI [of _ 0] exI [of _ "s\<lparr>kmem_state := m'\<rparr>"] exI [of _ xs])
        (simp add: add_book_def void_def return_def)
  next
    case (Some a)
    with Pair alloc_fresh have a: "a \<noteq> NULL" "a \<notin> live (kmem_state s)" "live m' = insert a (live (kmem_state s))"
      by auto
    let ?b = "\<lparr>b_id = i, b_name = strncpy 64 n, b_author = strncpy 64 w, b_borrow = 0\<rparr>"
    let ?s = "s\<lparr>kmem_state := m', heap := (heap s)(a \<mapsto> ?b), books := kl_add (k_list K) a (books s), books_lock := False\<rparr>"
    from a inv have "a \<notin> set (HEAD # xs)" "a \<notin> set (rcu_pending s)" by auto
    moreover from this inv repr_add have "repr (kl_add (k_list K) a (books s)) (a # xs)" by blast
    ultimately have "lib_inv repr live ?s (a # xs)" "shelf ?s (a # xs) = ?b # shelf s xs"
      using a inv by (auto simp: lib_inv_def shelf_def)
    then show ?thesis
      using Some Pair inv unfolding implements_def
      by (intro exI [of _ 0] exI [of _ ?s] exI [of _ "a # xs"])
        (simp add: add_book_def void_def return_def)
  qed
qed

lemma invD:
  assumes "lib_inv repr live s xs"
  shows "repr (books s) xs" "\<not> books_lock s" "rcu_nesting s = 0" "\<And>a. a \<in> set xs \<Longrightarrow> \<exists>b. heap s a = Some b"
  using assms by (auto simp: lib_inv_def)

text \<open>Leaving the state as it was, up to the log and the allocator.\<close>

lemma implements_unchanged:
  assumes "lib_inv repr live s xs" and "c s = Some (Inr (r, s'))"
    and "heap s' = heap s" "books s' = books s" "rcu_pending s' = rcu_pending s" "live (kmem_state s') = live (kmem_state s)"
      "\<not> books_lock s'" "rcu_nesting s' = 0" and "\<exists>ls. klog s' = klog s @ ls \<and> says ls"
  shows "implements repr live c s (r, shelf s xs, length (rcu_pending s)) says"
proof -
  from assms(9) obtain ls where "klog s' = klog s @ ls" "says ls" by blast
  with assms(1-8) show ?thesis
    unfolding implements_def by (intro exI [of _ r] exI [of _ s'] exI [of _ xs] exI [of _ ls]) (auto simp: lib_inv_def shelf_def)
qed

lemma swapped_unlinked:
  assumes "lib_inv repr live s (us @ a # vs)" and "heap s a = Some x"
    and "km_alloc (k_mem K) (kmem_state s) = (Some n, m')"
    and "heap t = (heap s)(n \<mapsto> x\<lparr>b_borrow := v\<rparr>)" "books t = kl_replace (k_list K) a n (books s)"
      "kmem_state t = m'" "rcu_pending t = rcu_pending s" "\<not> books_lock t" "rcu_nesting t = 0"
  shows "unlinked_inv repr live t (us @ n # vs) a"
    and "shelf t (us @ n # vs) = shelf s us @ x\<lparr>b_borrow := v\<rparr> # shelf s vs"
proof -
  note inv = assms(1) [unfolded lib_inv_def]
  have n: "n \<noteq> NULL" "n \<notin> live (kmem_state s)" "live m' = insert n (live (kmem_state s))"
    using alloc_fresh [OF assms(3)] by auto
  with inv have fresh: "n \<notin> set (HEAD # us @ a # vs)" "n \<notin> set (rcu_pending s)" by auto
  have d: "distinct (us @ a # vs)" using repr_distinct inv by fastforce
  have "repr (books t) (us @ n # vs)" using repr_replace [OF _ fresh(1)] inv assms(5) by auto
  with inv n fresh d assms show "unlinked_inv repr live t (us @ n # vs) a"
    by (auto simp: unlinked_inv_def)
  show "shelf t (us @ n # vs) = shelf s us @ x\<lparr>b_borrow := v\<rparr> # shelf s vs"
    using fresh assms(4) by (auto simp: shelf_def)
qed

lemma update_loop:
  assumes inv: "lib_inv repr live s (us @ a # vs)" and x: "heap s a = Some x" "b_id x = i"
    and skip: "\<And>z. z \<in> set us \<Longrightarrow> b_id (the (heap s z)) \<noteq> i"
  defines "t \<equiv> s\<lparr>rcu_nesting := Suc (rcu_nesting s)\<rparr>"
  shows "for_each (next_book K) (find_to_update refuse i) (kl_next (k_list K) (books t) HEAD) t =
      Some (Inr (if refuse (b_borrow x) then (Some None, s\<lparr>rcu_nesting := 0\<rparr>) else (Some (Some a), t)))"
    and "find_book i (shelf s (us @ a # vs)) = Some x"
    and "set_borrow i v (shelf s (us @ a # vs)) = shelf s us @ x\<lparr>b_borrow := v\<rparr> # shelf s vs"
proof -
  have r: "repr (books t) (us @ a # vs)" using invD(1) [OF inv] by (simp add: t_def)
  have pass: "heap t z \<noteq> None \<and> find_to_update refuse i z t = Some (Inr (None, t))" if "z \<in> set us" for z
    using invD(4) [OF inv, of z] skip [OF that] that by (auto simp: find_to_update_def return_def t_def)
  have stop: "find_to_update refuse i a t =
      Some (Inr (Some (if refuse (b_borrow x) then None else Some a), if refuse (b_borrow x) then s\<lparr>rcu_nesting := 0\<rparr> else t))"
    using x invD [OF inv] by (simp add: find_to_update_def return_def t_def)
  from loop_hit [of t us a vs "find_to_update refuse i", OF r pass stop]
  show "for_each (next_book K) (find_to_update refuse i) (kl_next (k_list K) (books t) HEAD) t =
      Some (Inr (if refuse (b_borrow x) then (Some None, s\<lparr>rcu_nesting := 0\<rparr>) else (Some (Some a), t)))"
    by (simp split: if_splits)
  show "find_book i (shelf s (us @ a # vs)) = Some x"
    "set_borrow i v (shelf s (us @ a # vs)) = shelf s us @ x\<lparr>b_borrow := v\<rparr> # shelf s vs"
    using book_spec_skip(1,2) [of us "\<lambda>a. the (heap s a)" i] skip x by (simp_all add: shelf_def)
qed

text \<open>The update itself, once the copy is allocated.\<close>

lemma update_replaces:
  fixes v async :: int
  assumes inv: "lib_inv repr live s (us @ a # vs)" and x: "heap s a = Some x"
    and al: "km_alloc (k_mem K) (kmem_state s) = (Some n, m')"
  defines "u \<equiv> s\<lparr>kmem_state := m', heap := (heap s)(n \<mapsto> x\<lparr>b_borrow := v\<rparr>),
      books := kl_replace (k_list K) a n (books s), books_lock := False, rcu_nesting := 0\<rparr>"
  obtains t' where "n \<noteq> a" "reclaim K async a u = Some (Inr ((), t'))" "lib_inv repr live t' (us @ n # vs)"
    "shelf t' (us @ n # vs) = shelf s us @ x\<lparr>b_borrow := v\<rparr> # shelf s vs"
    "length (rcu_pending t') = queued async (length (rcu_pending s))" "klog t' = klog s"
proof -
  have u: "heap u = (heap s)(n \<mapsto> x\<lparr>b_borrow := v\<rparr>)" "books u = kl_replace (k_list K) a n (books s)"
    "kmem_state u = m'" "rcu_pending u = rcu_pending s" "\<not> books_lock u" "rcu_nesting u = 0"
    by (simp_all add: u_def)
  have "klog u = klog s" by (simp add: u_def)
  note sw = swapped_unlinked [OF inv x al u]
  have "n \<noteq> a" using alloc_fresh [OF al] x inv by (auto simp: lib_inv_def)
  with \<open>klog u = klog s\<close> that reclaim_implements [OF sw(1), of async] sw(2) u(4) show thesis by auto
qed

lemma update_book_implements:
  assumes "lib_inv repr live s xs"
  shows "implements repr live (update_book K refuse v msg i async) s
    (spec_update refuse v i async (fst (km_alloc (k_mem K) (kmem_state s)) \<noteq> None) (shelf s xs) (length (rcu_pending s)))
    (\<lambda>ls. ls = update_says K refuse msg i (fst (km_alloc (k_mem K) (kmem_state s)) \<noteq> None) (shelf s xs))"
proof (cases rule: split_first_book [of xs "heap s" i])
  case miss
  let ?t = "s\<lparr>rcu_nesting := Suc (rcu_nesting s)\<rparr>"
  have "for_each (next_book K) (find_to_update refuse i) (kl_next (k_list K) (books ?t) HEAD) ?t = Some (Inr (None, ?t))"
    by (rule loop_miss [of ?t xs]) (use invD [OF assms] miss in \<open>fastforce simp: find_to_update_def return_def\<close>)+
  moreover have "find_book i (shelf s xs) = None"
    using book_spec_skip(1) [of xs "\<lambda>a. the (heap s a)" i "[]"] miss by (simp add: shelf_def)
  ultimately show ?thesis
    using invD [OF assms]
    by (auto simp: spec_update_def update_says_def update_book_def return_def intro!: implements_unchanged [OF assms])
next
  case (hit us a vs)
  obtain x where x: "heap s a = Some x" using invD(4) [OF assms, of a] hit by auto
  note inv = assms [unfolded hit(1)]
  have id: "b_id x = i" using hit x by simp
  note loop = update_loop(1) [OF inv x id hit(3), of refuse] and sh = update_loop(2,3) [OF inv x id hit(3)]
  show ?thesis
  proof (cases "\<exists>n m'. \<not> refuse (b_borrow x) \<and> km_alloc (k_mem K) (kmem_state s) = (Some n, m')")
    case False
    then have stop: "refuse (b_borrow x) \<or> fst (km_alloc (k_mem K) (kmem_state s)) = None"
      by (metis option.exhaust prod.collapse)
    show ?thesis unfolding hit(1)
    proof (cases "refuse (b_borrow x)")
      case True
      with loop sh invD [OF inv]
      show "implements repr live (update_book K refuse v msg i async) s (spec_update refuse v i async
          (fst (km_alloc (k_mem K) (kmem_state s)) \<noteq> None) (shelf s (us @ a # vs)) (length (rcu_pending s)))
          (\<lambda>ls. ls = update_says K refuse msg i (fst (km_alloc (k_mem K) (kmem_state s)) \<noteq> None) (shelf s (us @ a # vs)))"
        by (auto simp: spec_update_def update_says_def update_book_def return_def intro!: implements_unchanged [OF inv])
    next
      case not_refused: False
      with stop obtain m' where "km_alloc (k_mem K) (kmem_state s) = (None, m')" by (metis prod.collapse)
      with not_refused loop sh invD [OF inv] alloc_failed [of "kmem_state s" m']
      show "implements repr live (update_book K refuse v msg i async) s (spec_update refuse v i async
          (fst (km_alloc (k_mem K) (kmem_state s)) \<noteq> None) (shelf s (us @ a # vs)) (length (rcu_pending s)))
          (\<lambda>ls. ls = update_says K refuse msg i (fst (km_alloc (k_mem K) (kmem_state s)) \<noteq> None) (shelf s (us @ a # vs)))"
        by (auto simp: spec_update_def update_says_def update_book_def return_def intro!: implements_unchanged [OF inv])
    qed
  next
    case True
    then obtain n m' where n: "\<not> refuse (b_borrow x)" "km_alloc (k_mem K) (kmem_state s) = (Some n, m')" by blast
    obtain t' where "n \<noteq> a" "reclaim K async a (s\<lparr>kmem_state := m', heap := (heap s)(n \<mapsto> x\<lparr>b_borrow := v\<rparr>),
          books := kl_replace (k_list K) a n (books s), books_lock := False, rcu_nesting := 0\<rparr>) = Some (Inr ((), t'))"
        "lib_inv repr live t' (us @ n # vs)" "shelf t' (us @ n # vs) = shelf s us @ x\<lparr>b_borrow := v\<rparr> # shelf s vs"
        "length (rcu_pending t') = queued async (length (rcu_pending s))" "klog t' = klog s"
      by (rule update_replaces [OF inv x n(2)])
    with loop sh n invD [OF inv] x show ?thesis unfolding hit(1)
      by (fastforce simp: implements_def spec_update_def update_says_def update_book_def return_def)
  qed
qed

lemma is_borrowed_implements:
  assumes "lib_inv repr live s xs"
  shows "implements repr live (is_borrowed_book K i) s
    (case find_book i (shelf s xs) of None \<Rightarrow> -1 | Some b \<Rightarrow> b_borrow b, shelf s xs, length (rcu_pending s))
    (\<lambda>ls. ls = lookup_says i (shelf s xs))"
proof (cases rule: split_first_book [of xs "heap s" i])
  case miss
  let ?t = "s\<lparr>rcu_nesting := Suc (rcu_nesting s)\<rparr>"
  have "for_each (next_book K) (is_borrowed_step i) (kl_next (k_list K) (books ?t) HEAD) ?t = Some (Inr (None, ?t))"
    by (rule loop_miss [of ?t xs]) (use invD [OF assms] miss in \<open>fastforce simp: is_borrowed_step_def return_def\<close>)+
  moreover have "find_book i (shelf s xs) = None"
    using book_spec_skip(1) [of xs "\<lambda>a. the (heap s a)" i "[]"] miss by (simp add: shelf_def)
  ultimately show ?thesis
    using invD [OF assms]
    by (auto simp: is_borrowed_book_def lookup_says_def return_def intro!: implements_unchanged [OF assms])
next
  case (hit us a vs)
  let ?t = "s\<lparr>rcu_nesting := Suc (rcu_nesting s)\<rparr>"
  obtain x where x: "heap s a = Some x" using invD(4) [OF assms, of a] hit by auto
  have skip: "heap ?t z \<noteq> None \<and> is_borrowed_step i z ?t = Some (Inr (None, ?t))" if "z \<in> set us" for z
    using invD(4) [OF assms, of z] hit(1) hit(3) [OF that] that by (auto simp: is_borrowed_step_def return_def)
  have sh: "find_book i (shelf s xs) = Some x"
    using book_spec_skip(1) [of us "\<lambda>a. the (heap s a)" i] hit x by (simp add: shelf_def)
  have r: "repr (books ?t) (us @ a # vs)" using invD(1) [OF assms] hit by simp
  have "is_borrowed_step i a ?t = Some (Inr (Some (b_borrow x), s\<lparr>rcu_nesting := 0\<rparr>))"
    using x hit invD [OF assms] by (simp add: is_borrowed_step_def return_def)
  from loop_hit [of ?t us a vs "is_borrowed_step i", OF r skip this] show ?thesis
    using sh invD [OF assms]
    by (auto simp: is_borrowed_book_def lookup_says_def return_def intro!: implements_unchanged [OF assms])
qed

text \<open>\<^verbatim>\<open>print_book\<close> prints the line of the first book with the id, or that there is none.\<close>

lemma print_book_spec:
  assumes "lib_inv repr live s xs"
  shows "\<exists>line. print_book K i s = Some (Inr ((), s\<lparr>klog := klog s @ [line], rcu_nesting := 0\<rparr>)) \<and>
    (case find_book i (shelf s xs) of
       None \<Rightarrow> line = emit ''not exist book\<newline>'' []
     | Some b \<Rightarrow> \<exists>a \<in> set xs. heap s a = Some b \<and> line = book_line a b)"
proof (cases rule: split_first_book [of xs "heap s" i])
  case miss
  let ?t = "s\<lparr>rcu_nesting := Suc (rcu_nesting s)\<rparr>"
  have "for_each (next_book K) (print_step i) (kl_next (k_list K) (books ?t) HEAD) ?t = Some (Inr (None, ?t))"
    by (rule loop_miss [of ?t xs]) (use invD [OF assms] miss in \<open>fastforce simp: print_step_def return_def\<close>)+
  moreover have "find_book i (shelf s xs) = None"
    using book_spec_skip(1) [of xs "\<lambda>a. the (heap s a)" i "[]"] miss by (simp add: shelf_def)
  ultimately show ?thesis using invD [OF assms] by (simp add: print_book_def return_def)
next
  case (hit us a vs)
  let ?t = "s\<lparr>rcu_nesting := Suc (rcu_nesting s)\<rparr>"
  obtain x where x: "heap s a = Some x" using invD(4) [OF assms, of a] hit by auto
  have skip: "heap ?t z \<noteq> None \<and> print_step i z ?t = Some (Inr (None, ?t))" if "z \<in> set us" for z
    using invD(4) [OF assms, of z] hit(1) hit(3) [OF that] that by (auto simp: print_step_def return_def)
  have sh: "find_book i (shelf s xs) = Some x"
    using book_spec_skip(1) [of us "\<lambda>a. the (heap s a)" i] hit x by (simp add: shelf_def)
  have r: "repr (books ?t) (us @ a # vs)" using invD(1) [OF assms] hit by simp
  have "print_step i a ?t = Some (Inr (Some (), s\<lparr>klog := klog s @ [book_line a x], rcu_nesting := 0\<rparr>))"
    using x hit invD [OF assms] by (simp add: print_step_def return_def)
  from loop_hit [of ?t us a vs "print_step i", OF r skip this] show ?thesis
    using sh invD [OF assms] x hit by (auto simp: print_book_def return_def)
qed

lemma delete_book_implements:
  assumes "lib_inv repr live s xs"
  shows "implements repr live (void (delete_book K i async)) s
    (0, drop_book i (shelf s xs),
     case find_book i (shelf s xs) of None \<Rightarrow> length (rcu_pending s) | Some _ \<Rightarrow> queued async (length (rcu_pending s)))
    (\<lambda>ls. ls = lookup_says i (shelf s xs))"
proof (cases rule: split_first_book [of xs "heap s" i])
  case miss
  let ?t = "s\<lparr>books_lock := True\<rparr>"
  have "for_each (next_book K) (delete_step K i async) (kl_next (k_list K) (books ?t) HEAD) ?t = Some (Inr (None, ?t))"
    by (rule loop_miss [of ?t xs]) (use invD [OF assms] miss in \<open>fastforce simp: delete_step_def return_def\<close>)+
  moreover have "drop_book i (shelf s xs) = shelf s xs" "find_book i (shelf s xs) = None"
    using book_spec_skip(1,3) [of xs "\<lambda>a. the (heap s a)" i "[]"] miss by (simp_all add: shelf_def)
  ultimately show ?thesis
    using invD [OF assms]
    by (auto simp: void_def delete_book_def lookup_says_def return_def intro!: implements_unchanged [OF assms])
next
  case (hit us a vs)
  let ?t = "s\<lparr>books_lock := True\<rparr>" and ?u = "s\<lparr>books := kl_del (k_list K) a (books s), books_lock := False\<rparr>"
  obtain x where x: "heap s a = Some x" using invD(4) [OF assms, of a] hit by auto
  have skip: "heap ?t z \<noteq> None \<and> delete_step K i async z ?t = Some (Inr (None, ?t))" if "z \<in> set us" for z
    using invD(4) [OF assms, of z] hit(1) hit(3) [OF that] that by (auto simp: delete_step_def return_def)
  have r: "repr (books ?t) (us @ a # vs)" using invD(1) [OF assms] hit by simp
  have "distinct (us @ a # vs)" using repr_distinct [OF r] by simp
  then have "unlinked_inv repr live ?u (us @ vs) a"
    using assms hit(1) repr_del [of "books s" us a vs] by (auto simp: lib_inv_def unlinked_inv_def)
  from reclaim_implements [OF this, of async] obtain t' where
      t': "reclaim K async a ?u = Some (Inr ((), t'))" "lib_inv repr live t' (us @ vs)" "shelf t' (us @ vs) = shelf ?u (us @ vs)"
      "length (rcu_pending t') = queued async (length (rcu_pending s))" "klog t' = klog s"
    by auto
  then have "delete_step K i async a ?t = Some (Inr (Some (), t'))"
    using x hit by (simp add: delete_step_def return_def)
  from loop_hit [of ?t us a vs "delete_step K i async", OF r skip this]
  have "void (delete_book K i async) s = Some (Inr (0, t'))"
    using invD [OF assms] by (simp add: void_def delete_book_def return_def)
  moreover have "drop_book i (shelf s xs) = shelf ?u (us @ vs)" "find_book i (shelf s xs) = Some x"
    using book_spec_skip(1,3) [of us "\<lambda>a. the (heap s a)" i] hit x by (simp_all add: shelf_def)
  ultimately show ?thesis using t' by (auto simp: implements_def lookup_says_def)
qed

lemma callbacks_reclaim:
  assumes "repr (books t) xs" "dom (heap t) = set xs \<union> set ps" "set xs \<inter> set ps = {}" "distinct ps"
    "rcu_pending t = []" "dom (heap t) \<subseteq> live (kmem_state t)" "\<not> books_lock t" "rcu_nesting t = 0"
  shows "\<exists>t'. all_of (map (book_reclaim_callback K) ps) t = Some (Inr ((), t')) \<and> lib_inv repr live t' xs \<and>
    rcu_pending t' = [] \<and> shelf t' xs = shelf t xs \<and>
    klog t' = klog t @ map (\<lambda>p. emit ''callback free : %lx, preempt_count : 0x%x\<newline>'' [FUInt p, FUInt (k_preempt K True)]) ps"
  using assms
proof (induction ps arbitrary: t)
  case Nil
  then show ?case by (auto simp: return_def lib_inv_def)
next
  case (Cons p ps)
  then have "p \<in> dom (heap t)" by simp
  then obtain x where x: "heap t p = Some x" by blast
  let ?l = "\<lambda>p. emit ''callback free : %lx, preempt_count : 0x%x\<newline>'' [FUInt p, FUInt (k_preempt K True)]"
  let ?u = "t\<lparr>klog := klog t @ [?l p], heap := (heap t)(p := None), kmem_state := km_free (k_mem K) p (kmem_state t)\<rparr>"
  have "live (kmem_state ?u) = live (kmem_state t) - {p}"
    using Cons.prems free_live [of p "kmem_state t"] by auto
  then have "\<exists>t'. all_of (map (book_reclaim_callback K) ps) ?u = Some (Inr ((), t')) \<and> lib_inv repr live t' xs \<and>
      rcu_pending t' = [] \<and> shelf t' xs = shelf ?u xs \<and> klog t' = klog ?u @ map ?l ps"
  proof (intro Cons.IH)
    show "dom (heap ?u) = set xs \<union> set ps" using Cons.prems by auto
  qed (use Cons.prems in auto)
  moreover have "shelf ?u xs = shelf t xs" using Cons.prems by (auto simp: shelf_def)
  moreover have "book_reclaim_callback K p t = Some (Inr ((), ?u))"
    using x by (simp add: book_reclaim_callback_def)
  ultimately show ?case by simp
qed

lemma run_callbacks_spec:
  assumes "lib_inv repr live s xs"
  shows "\<exists>t'. run_callbacks K s = Some (Inr ((), t')) \<and> lib_inv repr live t' xs \<and>
    rcu_pending t' = [] \<and> shelf t' xs = shelf s xs \<and>
    klog t' = klog s @ map (\<lambda>p. emit ''callback free : %lx, preempt_count : 0x%x\<newline>'' [FUInt p, FUInt (k_preempt K True)]) (rcu_pending s)"
proof -
  let ?l = "\<lambda>p. emit ''callback free : %lx, preempt_count : 0x%x\<newline>'' [FUInt p, FUInt (k_preempt K True)]"
  have "shelf (s\<lparr>rcu_pending := []\<rparr>) xs = shelf s xs" by (simp add: shelf_def)
  moreover have "\<exists>t'. all_of (map (book_reclaim_callback K) (rcu_pending s)) (s\<lparr>rcu_pending := []\<rparr>) = Some (Inr ((), t')) \<and>
      lib_inv repr live t' xs \<and> rcu_pending t' = [] \<and> shelf t' xs = shelf (s\<lparr>rcu_pending := []\<rparr>) xs \<and>
      klog t' = klog (s\<lparr>rcu_pending := []\<rparr>) @ map ?l (rcu_pending s)"
    by (rule callbacks_reclaim) (use assms in \<open>auto simp: lib_inv_def\<close>)
  ultimately show ?thesis by (simp add: run_callbacks_def)
qed

lemma print_book_implements:
  assumes "lib_inv repr live s xs"
  shows "implements repr live (void (print_book K i)) s (0, shelf s xs, length (rcu_pending s)) (spec_says K (Print_book i) mem (shelf s xs) n)"
proof -
  obtain line where l: "print_book K i s = Some (Inr ((), s\<lparr>klog := klog s @ [line], rcu_nesting := 0\<rparr>))"
    "case find_book i (shelf s xs) of None \<Rightarrow> line = emit ''not exist book\<newline>'' []
     | Some b \<Rightarrow> \<exists>a \<in> set xs. heap s a = Some b \<and> line = book_line a b"
    using print_book_spec [OF assms] by blast
  have "spec_says K (Print_book i) mem (shelf s xs) n [line]"
    using l(2) by (auto simp: lookup_says_def split: option.splits)
  moreover have "void (print_book K i) s = Some (Inr (0, s\<lparr>klog := klog s @ [line], rcu_nesting := 0\<rparr>))"
    using l(1) by (simp add: void_def return_def)
  ultimately show ?thesis
    using invD [OF assms]
    by (intro implements_unchanged [OF assms, of _ 0 "s\<lparr>klog := klog s @ [line], rcu_nesting := 0\<rparr>"] exI [of _ "[line]"])
      (simp_all del: spec_says.simps)
qed

lemma exec_op_implements:
  assumes "lib_inv repr live s xs"
  shows "implements repr live (exec_op K c) s
    (spec_op c (fst (km_alloc (k_mem K) (kmem_state s)) \<noteq> None) (shelf s xs) (length (rcu_pending s)))
    (spec_says K c (fst (km_alloc (k_mem K) (kmem_state s)) \<noteq> None) (shelf s xs) (length (rcu_pending s)))"
proof (cases c)
  case (Add_book i n w)
  with add_book_implements [OF assms] show ?thesis by (simp only: spec_says_fun)
next
  case (Borrow_book i async)
  with update_book_implements [OF assms] show ?thesis by (simp only: exec_op.simps spec_op.simps spec_says_fun borrow_book_def)
next
  case (Return_book i async)
  with update_book_implements [OF assms] show ?thesis by (simp only: exec_op.simps spec_op.simps spec_says_fun return_book_def)
next
  case (Delete_book i async)
  with delete_book_implements [OF assms] show ?thesis by (simp add: spec_says_fun)
next
  case (Is_borrowed_book i)
  with is_borrowed_implements [OF assms] show ?thesis by (simp add: spec_says_fun)
next
  case (Print_book i)
  with print_book_implements [OF assms] show ?thesis by (simp del: spec_says.simps)
next
  case Grace_period
  with run_callbacks_spec [OF assms] show ?thesis
    by (fastforce simp: void_def return_def implements_def)
qed

text \<open>Sequences of operations.\<close>

lemma run_ops_spec:
  assumes "lib_inv repr live s xs"
  shows "\<exists>rs s' ys mem. run_ops K cs s = Some (Inr (rs, s')) \<and> lib_inv repr live s' ys \<and> length mem = length cs \<and>
    (rs, shelf s' ys, length (rcu_pending s')) = spec_ops (zip cs mem) (shelf s xs) (length (rcu_pending s))"
  using assms
proof (induction cs arbitrary: s xs)
  case Nil
  then show ?case by (intro exI [of _ "[]"] exI [of _ s] exI [of _ xs]) (simp add: return_def)
next
  case (Cons c cs)
  let ?m = "fst (km_alloc (k_mem K) (kmem_state s)) \<noteq> None"
  from exec_op_implements [OF Cons.prems, of c] obtain r t zs where
      t: "exec_op K c s = Some (Inr (r, t))" "lib_inv repr live t zs"
         "(r, shelf t zs, length (rcu_pending t)) = spec_op c ?m (shelf s xs) (length (rcu_pending s))"
    unfolding implements_def by blast
  from Cons.IH [OF t(2)] obtain rs s' ys mem where
      r: "run_ops K cs t = Some (Inr (rs, s'))" "lib_inv repr live s' ys" "length mem = length cs"
         "(rs, shelf s' ys, length (rcu_pending s')) = spec_ops (zip cs mem) (shelf t zs) (length (rcu_pending t))"
    by blast
  have "spec_ops (zip (c # cs) (?m # mem)) (shelf s xs) (length (rcu_pending s)) =
      (r # rs, shelf s' ys, length (rcu_pending s'))"
    unfolding zip_Cons_Cons spec_ops.simps fst_conv snd_conv t(3) [symmetric] by (simp flip: r(4))
  with t r show ?case
    by (intro exI [of _ "r # rs"] exI [of _ s'] exI [of _ ys] exI [of _ "?m # mem"]) (simp add: return_def)
qed

lemma fresh_library_inv: "lib_inv repr live (fresh_library K m) []"
  by (simp add: lib_inv_def fresh_library_def repr_init)

end

context book_client
begin

lemma exec_op_does:
  assumes "lib_inv repr live s xs"
  defines "mem \<equiv> fst (km_alloc (k_mem K) (kmem_state s)) \<noteq> None" and "n \<equiv> length (rcu_pending s)"
  obtains r s' ys ls where "exec_op K c s = Some (Inr (r, s'))" "lib_inv repr live s' ys" "r = fst (spec_op c mem (shelf s xs) n)"
    "(shelf s' ys, length (rcu_pending s')) = snd (spec_op c mem (shelf s xs) n)"
    "klog s' = klog s @ ls" "spec_says K c mem (shelf s xs) n ls"
  using exec_op_implements [OF assms(1), of c] unfolding implements_def mem_def [symmetric] n_def [symmetric]
  by (metis fst_conv snd_conv)

lemma unit_does:
  assumes "exec_op K c = void d"
  shows "does K repr live d (c, None)"
  unfolding does_def
proof (intro allI impI)
  fix s xs assume "lib_inv repr live s xs"
  from exec_op_does [OF this, of c] obtain r s' ys ls where e: "exec_op K c s = Some (Inr (r, s'))" "lib_inv repr live s' ys"
    "(shelf s' ys, length (rcu_pending s')) = snd (spec_op c (fst (km_alloc (k_mem K) (kmem_state s)) \<noteq> None) (shelf s xs) (length (rcu_pending s)))"
    "klog s' = klog s @ ls" "spec_says K c (fst (km_alloc (k_mem K) (kmem_state s)) \<noteq> None) (shelf s xs) (length (rcu_pending s)) ls"
    by metis
  moreover have "d s = Some (Inr ((), s'))"
    using e(1) assms by (auto simp: void_def bind_cmd_def return_def split: option.splits sum.splits)
  ultimately show "\<exists>s' ys ls. d s = Some (Inr ((), s')) \<and> lib_inv repr live s' ys \<and> klog s' = klog s @ ls \<and>
        (let mem = (fst (km_alloc (k_mem K) (kmem_state s)) \<noteq> None); n = length (rcu_pending s) in
         (shelf s' ys, length (rcu_pending s')) = snd (spec_op (fst (c, None)) mem (shelf s xs) n) \<and>
         stmt_says K (c, None) mem (shelf s xs) n ls)"
    unfolding Let_def fst_conv by (intro exI [of _ s'] exI [of _ ys] exI [of _ ls]) (simp add: stmt_says_def del: spec_says.simps)
qed

lemma ignored_does:
  assumes "exec_op K c = d"
  shows "does K repr live (bind_cmd d (\<lambda>_. return ())) (c, None)"
proof -
  show ?thesis
    unfolding does_def
  proof (intro allI impI)
    fix s xs assume "lib_inv repr live s xs"
    from exec_op_does [OF this, of c] obtain r s' ys ls where e: "d s = Some (Inr (r, s'))" "lib_inv repr live s' ys"
      "(shelf s' ys, length (rcu_pending s')) = snd (spec_op c (fst (km_alloc (k_mem K) (kmem_state s)) \<noteq> None) (shelf s xs) (length (rcu_pending s)))"
      "klog s' = klog s @ ls" "spec_says K c (fst (km_alloc (k_mem K) (kmem_state s)) \<noteq> None) (shelf s xs) (length (rcu_pending s)) ls"
      unfolding assms by metis
    then show "\<exists>s' ys ls. bind_cmd d (\<lambda>_. return ()) s = Some (Inr ((), s')) \<and> lib_inv repr live s' ys \<and> klog s' = klog s @ ls \<and>
        (let mem = (fst (km_alloc (k_mem K) (kmem_state s)) \<noteq> None); n = length (rcu_pending s) in
         (shelf s' ys, length (rcu_pending s')) = snd (spec_op (fst (c, None)) mem (shelf s xs) n) \<and>
         stmt_says K (c, None) mem (shelf s xs) n ls)"
      unfolding Let_def fst_conv
      by (intro exI [of _ s'] exI [of _ ys] exI [of _ ls]) (simp add: stmt_says_def return_def del: spec_says.simps)
  qed
qed

lemma logged_does:
  assumes "exec_op K c = d"
  shows "does K repr live (bind_cmd d (\<lambda>r. klog_line fmt [FInt r])) (c, Some fmt)"
  unfolding does_def
proof (intro allI impI)
  fix s xs assume "lib_inv repr live s xs"
  let ?m = "fst (km_alloc (k_mem K) (kmem_state s)) \<noteq> None" and ?n = "length (rcu_pending s)"
  from exec_op_does [OF \<open>lib_inv repr live s xs\<close>, of c] obtain r s' ys ls where e: "d s = Some (Inr (r, s'))" "lib_inv repr live s' ys"
    "r = fst (spec_op c ?m (shelf s xs) ?n)" "(shelf s' ys, length (rcu_pending s')) = snd (spec_op c ?m (shelf s xs) ?n)"
    "klog s' = klog s @ ls" "spec_says K c ?m (shelf s xs) ?n ls"
    unfolding assms by metis
  then show "\<exists>s' ys ls. bind_cmd d (\<lambda>r. klog_line fmt [FInt r]) s = Some (Inr ((), s')) \<and> lib_inv repr live s' ys \<and> klog s' = klog s @ ls \<and>
        (let mem = ?m; n = ?n in
         (shelf s' ys, length (rcu_pending s')) = snd (spec_op (fst (c, Some fmt)) mem (shelf s xs) n) \<and>
         stmt_says K (c, Some fmt) mem (shelf s xs) n ls)"
    unfolding Let_def fst_conv
    by (intro exI [of _ "s'\<lparr>klog := klog s' @ [emit fmt [FInt r]]\<rparr>"] exI [of _ ys] exI [of _ "ls @ [emit fmt [FInt r]]"])
      (auto simp: stmt_says_def simp del: spec_says.simps)
qed

text \<open>A sequence of statements logs what it may say, with some answers of the allocator.\<close>

lemma all_of_does:
  assumes "list_all2 (does K repr live) ds cs" and "lib_inv repr live s xs"
  shows "\<exists>s' ys ls mem. all_of ds s = Some (Inr ((), s')) \<and> lib_inv repr live s' ys \<and> klog s' = klog s @ ls \<and>
     length mem = length cs \<and> ((\<forall>m. fst (km_alloc (k_mem K) m) \<noteq> None) \<longrightarrow> set mem \<subseteq> {True}) \<and>
     (shelf s' ys, length (rcu_pending s')) = spec_left (zip cs mem) (shelf s xs, length (rcu_pending s)) \<and>
     spec_log K (zip cs mem) (shelf s xs) (length (rcu_pending s)) ls"
  using assms
proof (induction ds cs arbitrary: s xs rule: list_all2_induct)
  case Nil
  then show ?case
    by (intro exI [of _ s] exI [of _ xs] exI [of _ "[]"] exI [of _ "[]"]) (simp add: return_def spec_left_def)
next
  case (Cons d ds c cs)
  let ?m = "fst (km_alloc (k_mem K) (kmem_state s)) \<noteq> None" and ?n = "length (rcu_pending s)"
  from Cons.hyps(1) Cons.prems obtain t ys us where t: "d s = Some (Inr ((), t))" "lib_inv repr live t ys" "klog t = klog s @ us"
      "(shelf t ys, length (rcu_pending t)) = snd (spec_op (fst c) ?m (shelf s xs) ?n)" "stmt_says K c ?m (shelf s xs) ?n us"
    unfolding does_def Let_def by blast
  from Cons.IH [OF t(2)] obtain s' zs vs mem where r: "all_of ds t = Some (Inr ((), s'))" "lib_inv repr live s' zs"
      "klog s' = klog t @ vs" "length mem = length cs" "(\<forall>m. fst (km_alloc (k_mem K) m) \<noteq> None) \<longrightarrow> set mem \<subseteq> {True}"
      "(shelf s' zs, length (rcu_pending s')) = spec_left (zip cs mem) (shelf t ys, length (rcu_pending t))"
      "spec_log K (zip cs mem) (shelf t ys) (length (rcu_pending t)) vs" by blast
  obtain r0 where op: "spec_op (fst c) ?m (shelf s xs) ?n = (r0, shelf t ys, length (rcu_pending t))"
    using t(4) by (metis prod.collapse)
  have "spec_left (zip (c # cs) (?m # mem)) (shelf s xs, ?n) = (shelf s' zs, length (rcu_pending s'))"
    using r(6) op by (simp add: spec_left_def)
  moreover have "spec_log K (zip (c # cs) (?m # mem)) (shelf s xs) ?n (us @ vs)"
    using op t(5) r(7) by auto
  moreover have "all_of (d # ds) s = Some (Inr ((), s'))" using t(1) r(1) by simp
  moreover have "klog s' = klog s @ us @ vs" using t(3) r(3) by simp
  moreover have "(\<forall>m. fst (km_alloc (k_mem K) m) \<noteq> None) \<longrightarrow> set (?m # mem) \<subseteq> {True}" using r(5) by auto
  ultimately show ?case using r(2,4)
    by (intro exI [of _ s'] exI [of _ zs] exI [of _ "us @ vs"] exI [of _ "?m # mem"]) simp
qed

lemma test_example_does: "list_all2 (does K repr live)
     [add_book K 0 ''book1'' ''jb'', add_book K 1 ''book2'' ''jb'',
      print_book K 0, print_book K 1,
      show_borrowed K ''book1 borrow : %d\<newline>'' 0, show_borrowed K ''book2 borrow : %d\<newline>'' 1,
      bind_cmd (borrow_book K 0 async) (\<lambda>_. return ()), bind_cmd (borrow_book K 1 async) (\<lambda>_. return ()),
      print_book K 0, print_book K 1,
      bind_cmd (return_book K 0 async) (\<lambda>_. return ()), bind_cmd (return_book K 1 async) (\<lambda>_. return ()),
      print_book K 0, print_book K 1,
      delete_book K 0 async, delete_book K 1 async,
      print_book K 0, print_book K 1] (test_calls async)"
  unfolding test_calls_def show_borrowed_def
  by (intro list.rel_intros unit_does ignored_does logged_does) simp_all

end

lemma spec_log_append:
  "spec_log K cs bs n us \<Longrightarrow> spec_log K ds (fst (spec_left cs (bs, n))) (snd (spec_left cs (bs, n))) vs \<Longrightarrow>
   spec_log K (cs @ ds) bs n (us @ vs)"
proof (induction cs arbitrary: bs n us)
  case (Cons c cs)
  obtain r bs' n' where op: "spec_op (fst (fst c)) (snd c) bs n = (r, bs', n')" by (metis prod.exhaust)
  from Cons.prems(1) op obtain ls ks where "us = ls @ ks" "stmt_says K (fst c) (snd c) bs n ls" "spec_log K cs bs' n' ks" by auto
  moreover have "spec_left (c # cs) (bs, n) = spec_left cs (bs', n')" using op by (simp add: spec_left_def split_beta)
  ultimately show ?case using Cons.IH [of bs' n' ks] Cons.prems(2) op by auto
qed (simp add: spec_left_def)

text \<open>Whichever allocations fail, the statements leave no book; if none does, the second round queues six callbacks.\<close>

lemma length_18: "length mem = 18 \<Longrightarrow>
  \<exists>a b c d e f g h i j k l m n p q r t. mem = [a, b, c, d, e, f, g, h, i, j, k, l, m, n, p, q, r, t]"
  by (auto simp: numeral_eq_Suc length_Suc_conv)

lemma length_test_calls: "length (test_calls async) = 18"
  by (simp add: test_calls_def)

lemma test_calls_leave:
  assumes "length mem = 18"
  shows "fst (spec_left (zip (test_calls async) mem) ([], n)) = []"
proof -
  obtain a b c d e f g h i j k l m' o' p q r t where mem: "mem = [a, b, c, d, e, f, g, h, i, j, k, l, m', o', p, q, r, t]"
    using length_18 [OF assms] by blast
  show ?thesis
    unfolding mem test_calls_def spec_left_def
    by (cases a; cases b; cases g; cases h; cases k; cases l) (simp_all add: spec_update_def queued_def)
qed

context book_client
begin

lemma init_spec:
  "\<exists>s mem. list_rcu_example_init K (fresh_library K m) = Some (Inr (0, s)) \<and> lib_inv repr live s [] \<and> length mem = 36 \<and>
     ((\<forall>m. fst (km_alloc (k_mem K) m) \<noteq> None) \<longrightarrow> set mem \<subseteq> {True}) \<and>
     ([], length (rcu_pending s)) = spec_left (zip (test_calls 0 @ test_calls 1) mem) ([], 0) \<and>
     spec_log K (zip (test_calls 0 @ test_calls 1) mem) [] 0 (klog s)"
proof -
  let ?s = "fresh_library K m"
  have z: "shelf ?s [] = []" "length (rcu_pending ?s) = 0" "klog ?s = []" by (simp_all add: shelf_def fresh_library_def)
  note len = length_test_calls
  obtain t xs us mem0 where t: "test_example K 0 ?s = Some (Inr ((), t))" "lib_inv repr live t xs" "klog t = us" "length mem0 = 18"
      "(\<forall>m. fst (km_alloc (k_mem K) m) \<noteq> None) \<longrightarrow> set mem0 \<subseteq> {True}"
      "(shelf t xs, length (rcu_pending t)) = spec_left (zip (test_calls 0) mem0) ([], 0)"
      "spec_log K (zip (test_calls 0) mem0) [] 0 us"
    using all_of_does [OF test_example_does [of 0] fresh_library_inv [of m]] unfolding test_example_def [symmetric] z len append_Nil
    by blast
  have "shelf t xs = []" using test_calls_leave [OF t(4), of 0 0] t(6) by (metis fst_conv)
  then obtain u ys vs mem1 where u: "test_example K 1 t = Some (Inr ((), u))" "lib_inv repr live u ys" "klog u = us @ vs" "length mem1 = 18"
      "(\<forall>m. fst (km_alloc (k_mem K) m) \<noteq> None) \<longrightarrow> set mem1 \<subseteq> {True}"
      "(shelf u ys, length (rcu_pending u)) = spec_left (zip (test_calls 1) mem1) ([], length (rcu_pending t))"
      "spec_log K (zip (test_calls 1) mem1) [] (length (rcu_pending t)) vs"
    using all_of_does [OF test_example_does [of 1] t(2)] unfolding test_example_def [symmetric] len t(3) \<open>shelf t xs = []\<close> by blast
  have "shelf u ys = []" using test_calls_leave [OF u(4), of 1] u(6) by (metis fst_conv)
  then have ys: "ys = []" by (simp add: shelf_def)
  have zip: "zip (test_calls 0 @ test_calls 1) (mem0 @ mem1) = zip (test_calls 0) mem0 @ zip (test_calls 1) mem1"
    using len t(4) by simp
  have left: "spec_left (zip (test_calls 0) mem0) ([], 0) = ([], length (rcu_pending t))" using t(6) \<open>shelf t xs = []\<close> by simp
  have "([], length (rcu_pending u)) = spec_left (zip (test_calls 0 @ test_calls 1) (mem0 @ mem1)) ([], 0)"
    using u(6) left \<open>shelf u ys = []\<close> unfolding zip by (simp add: spec_left_def)
  moreover have "spec_log K (zip (test_calls 0 @ test_calls 1) (mem0 @ mem1)) [] 0 (klog u)"
    unfolding zip u(3) by (rule spec_log_append [OF t(7)]) (use left u(7) in simp)
  moreover have "?s\<lparr>books_lock := False\<rparr> = ?s" by (simp add: fresh_library_def)
  then have "list_rcu_example_init K ?s = Some (Inr (0, u))" using t(1) u(1) by (simp add: list_rcu_example_init_def return_def)
  ultimately show ?thesis using u(2,4,5) t(4,5) ys by (intro exI [of _ u] exI [of _ "mem0 @ mem1"]) auto
qed

end

lemma test_calls_queue:
  "spec_left (zip (test_calls 0) (replicate 18 True)) ([], n) = ([], n)"
  "spec_left (zip (test_calls 1) (replicate 18 True)) ([], n) = ([], n + 6)"
  by (simp_all add: test_calls_def spec_left_def spec_update_def queued_def numeral_eq_Suc)

text \<open>The contracts hold of the pointer list and the allocators.\<close>

definition demo_kern :: "(links, pool) kern" where
  "demo_kern = \<lparr>k_list = ptr_list, k_mem = pool_mem, k_preempt = (\<lambda>irq. if irq then 256 else 0)\<rparr>"

definition rich_kern :: "(links, pool) kern" where
  "rich_kern = demo_kern\<lparr>k_mem := rich_mem\<rparr>"

lemma kern_simps [simp]:
  "k_list demo_kern = ptr_list" "k_mem demo_kern = pool_mem" "k_list rich_kern = ptr_list" "k_mem rich_kern = rich_mem"
  by (simp_all add: demo_kern_def rich_kern_def)

interpretation demo_books: book_client demo_kern ring pool_live
  by (simp add: book_client_def ptr_list.kernel_list_axioms pool.kernel_memory_axioms)

interpretation rich_books: book_client rich_kern ring pool_live
  by (simp add: book_client_def ptr_list.kernel_list_axioms rich.kernel_memory_axioms)

section \<open>Properties\<close>

text \<open>
  C1: every call of the module, from a well-formed library, returns without a fault (no access to
  a freed book, no double free, no lock left held or taken twice, no sleep in an atomic section),
  keeps the library well-formed, and has exactly the effect of the abstract call on the list of
  books and on the number of callbacks queued, whether or not memory is available.
\<close>

theorem exec_op_refines:
  assumes "kernel_list (k_list K) repr" and "kernel_memory (k_mem K) live" and "lib_inv repr live s xs"
  shows "\<exists>r s' ys. exec_op K c s = Some (Inr (r, s')) \<and> lib_inv repr live s' ys \<and>
     (r, shelf s' ys, length (rcu_pending s')) =
       spec_op c (fst (km_alloc (k_mem K) (kmem_state s)) \<noteq> None) (shelf s xs) (length (rcu_pending s))"
  using book_client.exec_op_implements [of K repr live s xs c] assms
  unfolding book_client_def implements_def by fast

theorem exec_op_refines_witness:
  "\<exists>r s' ys. exec_op demo_kern (Add_book 7 ''SICP'' ''HA'') (fresh_library demo_kern \<lparr>used = [], fails = []\<rparr>) = Some (Inr (r, s')) \<and>
     lib_inv ring pool_live s' ys \<and> map b_id (shelf s' ys) = [7] \<and> r = 0"
proof -
  let ?s = "fresh_library demo_kern \<lparr>used = [], fails = []\<rparr>"
  have "fst (km_alloc (k_mem demo_kern) (kmem_state ?s)) \<noteq> None" "shelf ?s [] = []"
    by (simp_all add: fresh_library_def pool_mem_def pool_alloc_def shelf_def)
  with exec_op_refines [of demo_kern ring pool_live ?s "[]" "Add_book 7 ''SICP'' ''HA''"]
    demo_books.fresh_library_inv ptr_list.kernel_list_axioms pool.kernel_memory_axioms
  show ?thesis by (fastforce simp del: One_nat_def)
qed

text \<open>
  C8: so does any sequence of calls and grace periods, started from the freshly loaded module: it
  always returns, with the results and the books of the abstract run, and at its end every live
  book is either on the list or waiting for its callback, so none is lost.
\<close>

theorem run_ops_refines:
  assumes "kernel_list (k_list K) repr" and "kernel_memory (k_mem K) live"
  shows "\<exists>rs s ys mem. run_ops K cs (fresh_library K m) = Some (Inr (rs, s)) \<and> length mem = length cs \<and>
     (rs, shelf s ys, length (rcu_pending s)) = spec_ops (zip cs mem) [] 0 \<and>
     repr (books s) ys \<and> dom (heap s) = set ys \<union> set (rcu_pending s) \<and> set ys \<inter> set (rcu_pending s) = {} \<and>
     \<not> books_lock s \<and> rcu_nesting s = 0"
proof -
  have b: "book_client K repr live" using assms by (simp add: book_client_def)
  have "shelf (fresh_library K m) [] = []" "length (rcu_pending (fresh_library K m)) = 0"
    by (simp_all add: shelf_def fresh_library_def)
  with book_client.run_ops_spec [OF b book_client.fresh_library_inv [OF b], of cs m]
  obtain rs s ys mem where "run_ops K cs (fresh_library K m) = Some (Inr (rs, s))" "lib_inv repr live s ys"
      "length mem = length cs" "(rs, shelf s ys, length (rcu_pending s)) = spec_ops (zip cs mem) [] 0"
    by auto
  then show ?thesis
    by (intro exI [of _ rs] exI [of _ s] exI [of _ ys] exI [of _ mem]) (simp add: lib_inv_def)
qed

theorem run_ops_refines_witness:
  "\<exists>rs s ys mem. run_ops demo_kern [Add_book 7 ''SICP'' ''HA'', Borrow_book 7 1, Grace_period]
       (fresh_library demo_kern \<lparr>used = [], fails = []\<rparr>) = Some (Inr (rs, s)) \<and>
     length mem = length [Add_book 7 ''SICP'' ''HA'', Borrow_book 7 1, Grace_period] \<and>
     (rs, shelf s ys, length (rcu_pending s)) =
       spec_ops (zip [Add_book 7 ''SICP'' ''HA'', Borrow_book 7 1, Grace_period] mem) [] 0 \<and>
     ring (books s) ys \<and> dom (heap s) = set ys \<union> set (rcu_pending s) \<and> set ys \<inter> set (rcu_pending s) = {} \<and>
     \<not> books_lock s \<and> rcu_nesting s = 0"
  by (rule run_ops_refines [of demo_kern ring pool_live])
    (simp_all only: kern_simps ptr_list.kernel_list_axioms pool.kernel_memory_axioms)



text \<open>
  The module can be unloaded while its callbacks are still queued: after a load, \<^verbatim>\<open>exit\<close> returns
  at once with six calls of \<^verbatim>\<open>book_reclaim_callback\<close> outstanding.
\<close>

theorem exit_with_callbacks_queued:
  assumes "kernel_list (k_list K) repr" and "plentiful_memory (k_mem K) live"
  shows "\<exists>s. bind_cmd (list_rcu_example_init K) (\<lambda>_. list_rcu_example_exit) (fresh_library K m) = Some (Inr ((), s)) \<and>
     length (rcu_pending s) = 6"
proof -
  have c: "book_client K repr live" using assms by (simp add: book_client_def plentiful_memory_def)
  have "\<forall>m. fst (km_alloc (k_mem K) m) \<noteq> None" using plentiful_memory.alloc_succeeds [OF assms(2)] by blast
  then obtain s mem where s: "list_rcu_example_init K (fresh_library K m) = Some (Inr (0, s))" "length mem = 36"
      "set mem \<subseteq> {True}" "([], length (rcu_pending s)) = spec_left (zip (test_calls 0 @ test_calls 1) mem) ([], 0)"
    using book_client.init_spec [OF c, of m] by blast
  have "mem = replicate 18 True @ replicate 18 True"
    using replicate_eqI [of mem 36 True] s(2,3) by (auto simp flip: replicate_add)
  then have "spec_left (zip (test_calls 0 @ test_calls 1) mem) ([], 0) =
     spec_left (zip (test_calls 1) (replicate 18 True)) (spec_left (zip (test_calls 0) (replicate 18 True)) ([], 0))"
    using length_test_calls by (simp add: spec_left_def)
  with s(1,4) show ?thesis unfolding test_calls_queue by (auto simp: list_rcu_example_exit_def return_def)
qed

theorem exit_with_callbacks_queued_witness:
  "\<exists>s. bind_cmd (list_rcu_example_init rich_kern) (\<lambda>_. list_rcu_example_exit) (fresh_library rich_kern \<lparr>used = [], fails = []\<rparr>) =
     Some (Inr ((), s)) \<and> length (rcu_pending s) = 6"
  by (rule exit_with_callbacks_queued [of rich_kern ring pool_live])
    (simp_all add: ptr_list.kernel_list_axioms rich.plentiful_memory_axioms)

text \<open>
  What \<^verbatim>\<open>print_book\<close> shows as the name of a book added with name \<open>n\<close> is \<open>n\<close> if it is shorter than
  the array; a name that fills the array is printed together with the author behind it.
\<close>

theorem name_printed:
  "let b = \<lparr>b_id = i, b_name = strncpy 64 n, b_author = strncpy 64 w, b_borrow = v\<rparr> in
     name_str b = (if length (c_str n) < 64 then c_str n else take 64 (c_str n) @ author_str b)"
proof -
  have no: "NUL \<notin> set (take k (c_str n))" for k
    by (auto simp: c_str_def dest!: in_set_takeD set_takeWhileD)
  have "c_str (strncpy 64 n @ rest) = (if length (c_str n) < 64 then c_str n else take 64 (c_str n) @ c_str rest)" for rest
  proof (cases "length (c_str n) < 64")
    case True
    then obtain k where "64 - length (c_str n) = Suc k" by (metis Suc_diff_Suc)
    with True no [of 64] show ?thesis
      unfolding strncpy_def by (subst c_str_def) (auto simp: takeWhile_append)
  next
    case False
    with no [of 64] show ?thesis
      unfolding strncpy_def by (subst c_str_def) (auto simp: takeWhile_append c_str_def [of rest])
  qed
  then show ?thesis by (simp add: name_str_def author_str_def)
qed

end
