(* ===== verification/Rcu_Concurrent.thy ===== *)
theory Rcu_Concurrent
  imports Rcu_Books Transitions
begin

text \<open>
  \<^verbatim>\<open>ksync/rcu_example/list_rcu_example.c\<close> with its operations called from several threads at once.
  Each call is cut at the points where another thread can come in between: taking and leaving a
  read-side section, the spinlock, every step of a list traversal, every change of the list, the
  start and the end of a grace period. A grace period for a book records the threads that were
  inside a read-side section when it began and ends when all of them have left theirs.
  The primitives are those of \<open>Rcu_Books\<close>; here they act on the library the threads share.

  The theory shows that the synchronisation never deadlocks, whatever is called; that readers and
  adders are safe against one remover at a time (the way \<open>c\<close> of the comment in \<^verbatim>\<open>delete_book\<close>), with
  the single exception of the flag that \<^verbatim>\<open>is_borrowed_book\<close> reads after it left its section; and
  that two concurrent updates of the same book replace it twice.
\<close>

section \<open>Program points\<close>

type_synonym tid = nat

datatype updater = Borrow | Return

text \<open>What a traversal of the list is looking for, with the arguments of the call.\<close>

datatype goal =
    ToPrint int
  | ToTell int
  | ToUpdate updater int int
  | ToDelete int int

text \<open>
  Where a thread stands. \<open>At g p\<close> is about to look at the entry \<open>p\<close> of the traversal, \<open>Next g p\<close> to
  follow its next pointer; \<open>Stale p\<close> is \<^verbatim>\<open>is_borrowed_book\<close> between its unlock and its return; from
  \<open>Found\<close> to \<open>Unlocked\<close> an updater has its old book, and its new one while that is private;
  \<open>Reclaim\<close> and \<open>Wait\<close> hold the book that was taken off the list.
\<close>

datatype pc =
    Done int
  | Ready op
  | Enter goal
  | At goal addr
  | Next goal addr
  | Stale addr
  | Found updater int int addr
  | Copied updater int int addr addr
  | Locked updater int int addr addr
  | Replaced updater int int addr
  | Unlocked updater int int addr
  | Removed int addr
  | Reclaim int addr "(updater \<times> int) option"
  | Wait addr "(updater \<times> int) option"
  | Add_new addr
  | Add_locked addr
  | Add_linked

record ('l, 'm) world =
  shared :: "('l, 'm) library"
  threads :: "pc list"
  grace :: "addr \<Rightarrow> tid list"

section \<open>One thread\<close>

primrec refuses :: "updater \<Rightarrow> int \<Rightarrow> bool" where
  "refuses Borrow b = (b \<noteq> 0)"
| "refuses Return b = (b = 0)"

primrec new_flag :: "updater \<Rightarrow> int" where
  "new_flag Borrow = 1"
| "new_flag Return = 0"

primrec success_msg :: "updater \<Rightarrow> string" where
  "success_msg Borrow = ''borrow success %d, preempt_count : 0x%x\<newline>''"
| "success_msg Return = ''return success %d, preempt_count : 0x%x\<newline>''"

primrec wanted :: "goal \<Rightarrow> int" where
  "wanted (ToPrint i) = i"
| "wanted (ToTell i) = i"
| "wanted (ToUpdate u i async) = i"
| "wanted (ToDelete i async) = i"

text \<open>The end of the list: the book is not there.\<close>

primrec not_found :: "goal \<Rightarrow> (('l, 'm) library, pc) cmd" where
  "not_found (ToPrint i) = bind_cmd rcu_read_unlock (\<lambda>_. bind_cmd (klog_line ''not exist book\<newline>'' []) (\<lambda>_. return (Done 0)))"
| "not_found (ToTell i) = bind_cmd rcu_read_unlock (\<lambda>_. bind_cmd (klog_line ''not exist book\<newline>'' []) (\<lambda>_. return (Done (-1))))"
| "not_found (ToUpdate u i async) = bind_cmd rcu_read_unlock (\<lambda>_. return (Done (-1)))"
| "not_found (ToDelete i async) = bind_cmd spin_unlock (\<lambda>_. bind_cmd (klog_line ''not exist book\<newline>'' []) (\<lambda>_. return (Done 0)))"

text \<open>The entry \<open>p\<close>, holding the book \<open>x\<close>, is the one looked for.\<close>

primrec found :: "('l, 'm) kern \<Rightarrow> goal \<Rightarrow> addr \<Rightarrow> book \<Rightarrow> (('l, 'm) library, pc) cmd" where
  "found K (ToPrint i) p x =
     bind_cmd (modify (\<lambda>s. s\<lparr>klog := klog s @ [book_line p x]\<rparr>)) (\<lambda>_. bind_cmd rcu_read_unlock (\<lambda>_. return (Done 0)))"
| "found K (ToTell i) p x = bind_cmd rcu_read_unlock (\<lambda>_. return (Stale p))"
| "found K (ToUpdate u i async) p x =
     (if refuses u (b_borrow x) then bind_cmd rcu_read_unlock (\<lambda>_. return (Done (-1)))
      else return (Found u i async p))"
| "found K (ToDelete i async) p x = bind_cmd (on_list (kl_del (k_list K) p)) (\<lambda>_. return (Removed async p))"

primrec start :: "('l, 'm) kern \<Rightarrow> op \<Rightarrow> (('l, 'm) library, pc) cmd" where
  "start K (Add_book i name author) =
     bind_cmd (kzalloc K) (\<lambda>b. case b of
       None \<Rightarrow> return (Done 0)
     | Some b \<Rightarrow>
         bind_cmd (store_book b \<lparr>b_id = i, b_name = strncpy 64 name, b_author = strncpy 64 author, b_borrow = 0\<rparr>)
           (\<lambda>_. return (Add_new b)))"
| "start K (Borrow_book i async) = bind_cmd rcu_read_lock (\<lambda>_. return (Enter (ToUpdate Borrow i async)))"
| "start K (Return_book i async) = bind_cmd rcu_read_lock (\<lambda>_. return (Enter (ToUpdate Return i async)))"
| "start K (Delete_book i async) = bind_cmd spin_lock (\<lambda>_. return (Enter (ToDelete i async)))"
| "start K (Is_borrowed_book i) = bind_cmd rcu_read_lock (\<lambda>_. return (Enter (ToTell i)))"
| "start K (Print_book i) = bind_cmd rcu_read_lock (\<lambda>_. return (Enter (ToPrint i)))"
| "start K Grace_period = return (Done 0)"

definition finish :: "('l, 'm) kern \<Rightarrow> (updater \<times> int) option \<Rightarrow> (('l, 'm) library, pc) cmd" where
  "finish K msg = (case msg of
     None \<Rightarrow> return (Done 0)
   | Some (u, i) \<Rightarrow> bind_cmd (klog_line (success_msg u) [FInt i, FUInt (k_preempt K False)]) (\<lambda>_. return (Done 0)))"

primrec proceed :: "('l, 'm) kern \<Rightarrow> pc \<Rightarrow> (('l, 'm) library, pc) cmd" where
  "proceed K (Done r) = return (Done r)"
| "proceed K (Ready c) = start K c"
| "proceed K (Enter g) = bind_cmd (gets (\<lambda>s. kl_next (k_list K) (books s) HEAD)) (\<lambda>p. return (At g p))"
| "proceed K (At g p) =
     (if p = HEAD then not_found g
      else bind_cmd (book_at p) (\<lambda>x. if b_id x = wanted g then found K g p x else return (Next g p)))"
| "proceed K (Next g p) = bind_cmd (next_book K p) (\<lambda>q. return (At g q))"
| "proceed K (Stale p) = bind_cmd (book_at p) (\<lambda>x. return (Done (b_borrow x)))"
| "proceed K (Found u i async old_b) =
     bind_cmd (kzalloc K) (\<lambda>n. case n of
       None \<Rightarrow> bind_cmd rcu_read_unlock (\<lambda>_. return (Done (-1)))
     | Some new_b \<Rightarrow>
         bind_cmd (book_at old_b) (\<lambda>x.
         bind_cmd (store_book new_b (x\<lparr>b_borrow := new_flag u\<rparr>)) (\<lambda>_.
         return (Copied u i async old_b new_b))))"
| "proceed K (Copied u i async old_b new_b) = bind_cmd spin_lock (\<lambda>_. return (Locked u i async old_b new_b))"
| "proceed K (Locked u i async old_b new_b) =
     bind_cmd (on_list (kl_replace (k_list K) old_b new_b)) (\<lambda>_. return (Replaced u i async old_b))"
| "proceed K (Replaced u i async old_b) = bind_cmd spin_unlock (\<lambda>_. return (Unlocked u i async old_b))"
| "proceed K (Unlocked u i async old_b) = bind_cmd rcu_read_unlock (\<lambda>_. return (Reclaim async old_b (Some (u, i))))"
| "proceed K (Removed async b) = bind_cmd spin_unlock (\<lambda>_. return (Reclaim async b None))"
| "proceed K (Reclaim async b msg) =
     (if async \<noteq> 0 then bind_cmd (call_rcu b) (\<lambda>_. finish K msg) else return (Wait b msg))"
| "proceed K (Wait b msg) = bind_cmd (kfree K b) (\<lambda>_. finish K msg)"
| "proceed K (Add_new b) = bind_cmd spin_lock (\<lambda>_. return (Add_locked b))"
| "proceed K (Add_locked b) = bind_cmd (on_list (kl_add (k_list K) b)) (\<lambda>_. return Add_linked)"
| "proceed K Add_linked = bind_cmd spin_unlock (\<lambda>_. return (Done 0))"

section \<open>Threads together\<close>

text \<open>Program points inside a read-side section, with the spinlock held, and about to take it.\<close>

primrec deletes :: "goal \<Rightarrow> bool" where
  "deletes (ToPrint i) = False"
| "deletes (ToTell i) = False"
| "deletes (ToUpdate u i async) = False"
| "deletes (ToDelete i async) = True"

fun in_section :: "pc \<Rightarrow> bool" where
  "in_section (Enter g) = (\<not> deletes g)"
| "in_section (At g p) = (\<not> deletes g)"
| "in_section (Next g p) = (\<not> deletes g)"
| "in_section (Found u i async a) = True"
| "in_section (Copied u i async a b) = True"
| "in_section (Locked u i async a b) = True"
| "in_section (Replaced u i async a) = True"
| "in_section (Unlocked u i async a) = True"
| "in_section _ = False"

fun holds_lock :: "pc \<Rightarrow> bool" where
  "holds_lock (Enter g) = deletes g"
| "holds_lock (At g p) = deletes g"
| "holds_lock (Next g p) = deletes g"
| "holds_lock (Locked u i async a b) = True"
| "holds_lock (Replaced u i async a) = True"
| "holds_lock (Removed async a) = True"
| "holds_lock (Add_locked a) = True"
| "holds_lock Add_linked = True"
| "holds_lock _ = False"

fun takes_lock :: "pc \<Rightarrow> bool" where
  "takes_lock (Ready (Delete_book i async)) = True"
| "takes_lock (Copied u i async a b) = True"
| "takes_lock (Add_new a) = True"
| "takes_lock _ = False"

fun waits_for :: "pc \<Rightarrow> addr list" where
  "waits_for (Wait a msg) = [a]"
| "waits_for _ = []"

text \<open>
  A thread can go on unless it spins on the lock or sleeps in \<^verbatim>\<open>synchronize_rcu\<close>.
\<close>

definition runnable :: "('l, 'm) world \<Rightarrow> tid \<Rightarrow> bool" where
  "runnable w t \<longleftrightarrow> t < length (threads w) \<and>
     (takes_lock (threads w ! t) \<longrightarrow> \<not> books_lock (shared w)) \<and>
     list_all (\<lambda>a. grace w a = []) (waits_for (threads w ! t))"

definition readers :: "('l, 'm) world \<Rightarrow> tid list" where
  "readers w = filter (\<lambda>t. in_section (threads w ! t)) [0..<length (threads w)]"

text \<open>
  The grace periods after thread \<open>t\<close> went from \<open>p\<close> to \<open>p'\<close>: one starts for the book that is handed
  to \<^verbatim>\<open>call_rcu\<close> or \<^verbatim>\<open>synchronize_rcu\<close>, and no grace period waits for a thread that left its section.
\<close>

definition next_grace :: "('l, 'm) world \<Rightarrow> tid \<Rightarrow> pc \<Rightarrow> pc \<Rightarrow> addr \<Rightarrow> tid list" where
  "next_grace w t p p' =
     (case p of Reclaim async a msg \<Rightarrow> (grace w)(a := readers w)
      | _ \<Rightarrow> if in_section p \<and> \<not> in_section p' then (\<lambda>a. removeAll t (grace w a)) else grace w)"

definition thread_step :: "('l, 'm) kern \<Rightarrow> tid \<Rightarrow> ('l, 'm) world \<Rightarrow> (fault + ('l, 'm) world) option" where
  "thread_step K t w =
     (case proceed K (threads w ! t) (shared w) of
        None \<Rightarrow> None
      | Some (Inl e) \<Rightarrow> Some (Inl e)
      | Some (Inr (p', s')) \<Rightarrow>
          Some (Inr \<lparr>shared = s', threads = (threads w)[t := p'], grace = next_grace w t (threads w ! t) p'\<rparr>))"

definition callback_step :: "('l, 'm) kern \<Rightarrow> addr \<Rightarrow> ('l, 'm) world \<Rightarrow> (fault + ('l, 'm) world) option" where
  "callback_step K a w =
     (case book_reclaim_callback K a ((shared w)\<lparr>rcu_pending := remove1 a (rcu_pending (shared w))\<rparr>) of
        None \<Rightarrow> None
      | Some (Inl e) \<Rightarrow> Some (Inl e)
      | Some (Inr (_, s')) \<Rightarrow> Some (Inr (w\<lparr>shared := s'\<rparr>)))"

text \<open>A callback may run once the grace period of its book is over.\<close>

definition callback_due :: "('l, 'm) world \<Rightarrow> addr \<Rightarrow> bool" where
  "callback_due w a \<longleftrightarrow> a \<in> set (rcu_pending (shared w)) \<and> grace w a = []"

definition boot :: "('l, 'm) kern \<Rightarrow> 'm \<Rightarrow> nat \<Rightarrow> ('l, 'm) world" where
  "boot K m n = \<lparr>shared = fresh_library K m, threads = replicate n (Done 0), grace = (\<lambda>_. [])\<rparr>"

text \<open>
  What happens next: a call is made by an idle thread, when the state \<open>admit\<close>s it, a thread moves, or a
  callback runs; and the states that \<open>n\<close> threads can bring the library into.
\<close>

datatype action = Call tid op | Move tid | Callback addr

inductive world_step ::
  "('l, 'm) kern \<Rightarrow> (('l, 'm) world \<Rightarrow> op \<Rightarrow> bool) \<Rightarrow> ('l, 'm) world \<Rightarrow> action \<Rightarrow> ('l, 'm) world \<Rightarrow> bool"
  for K admit
where
  called: "t < length (threads w) \<Longrightarrow> threads w ! t = Done r \<Longrightarrow> admit w c \<Longrightarrow>
     world_step K admit w (Call t c) (w\<lparr>threads := (threads w)[t := Ready c]\<rparr>)"
| stepped: "runnable w t \<Longrightarrow> thread_step K t w = Some (Inr w') \<Longrightarrow> world_step K admit w (Move t) w'"
| reclaimed: "callback_due w a \<Longrightarrow> callback_step K a w = Some (Inr w') \<Longrightarrow> world_step K admit w (Callback a) w'"

inductive_cases world_stepE: "world_step K admit w e w'"

definition reachable ::
  "('l, 'm) kern \<Rightarrow> (('l, 'm) world \<Rightarrow> op \<Rightarrow> bool) \<Rightarrow> 'm \<Rightarrow> nat \<Rightarrow> ('l, 'm) world \<Rightarrow> bool" where
  "reachable K admit m n w \<longleftrightarrow> (\<exists>es. run (world_step K admit) (boot K m n) es w)"

text \<open>The next move of some thread, or of a callback, is the fault \<open>e\<close>.\<close>

definition can_fault :: "('l, 'm) kern \<Rightarrow> ('l, 'm) world \<Rightarrow> fault \<Rightarrow> bool" where
  "can_fault K w e \<longleftrightarrow>
     (\<exists>t. runnable w t \<and> thread_step K t w = Some (Inl e)) \<or>
     (\<exists>a. callback_due w a \<and> callback_step K a w = Some (Inl e))"

text \<open>
  A call that takes books off the list, up to the point where it has handed the book to
  \<^verbatim>\<open>call_rcu\<close> or \<^verbatim>\<open>synchronize_rcu\<close>.
\<close>

primrec goal_removes :: "goal \<Rightarrow> bool" where
  "goal_removes (ToPrint i) = False"
| "goal_removes (ToTell i) = False"
| "goal_removes (ToUpdate u i async) = True"
| "goal_removes (ToDelete i async) = True"

primrec op_removes :: "op \<Rightarrow> bool" where
  "op_removes (Add_book i nm au) = False"
| "op_removes (Borrow_book i async) = True"
| "op_removes (Return_book i async) = True"
| "op_removes (Delete_book i async) = True"
| "op_removes (Is_borrowed_book i) = False"
| "op_removes (Print_book i) = False"
| "op_removes Grace_period = False"

primrec removes :: "pc \<Rightarrow> bool" where
  "removes (Done r) = False"
| "removes (Ready c) = op_removes c"
| "removes (Enter g) = goal_removes g"
| "removes (At g p) = goal_removes g"
| "removes (Next g p) = goal_removes g"
| "removes (Stale p) = False"
| "removes (Found u i async a) = True"
| "removes (Copied u i async a b) = True"
| "removes (Locked u i async a b) = True"
| "removes (Replaced u i async a) = True"
| "removes (Unlocked u i async a) = True"
| "removes (Removed async a) = True"
| "removes (Reclaim async a msg) = True"
| "removes (Wait a msg) = False"
| "removes (Add_new b) = False"
| "removes (Add_locked b) = False"
| "removes Add_linked = False"

definition any_call :: "('l, 'm) world \<Rightarrow> op \<Rightarrow> bool" where
  "any_call w c \<longleftrightarrow> True"

definition one_remover :: "('l, 'm) world \<Rightarrow> op \<Rightarrow> bool" where
  "one_remover w c \<longleftrightarrow> \<not> op_removes c \<or> \<not> list_ex removes (threads w)"

text \<open>The same as a function, for evaluation.\<close>

definition happens ::
  "('l, 'm) kern \<Rightarrow> (('l, 'm) world \<Rightarrow> op \<Rightarrow> bool) \<Rightarrow> ('l, 'm) world \<Rightarrow> action \<Rightarrow> ('l, 'm) world option" where
  "happens K admit w e = (case e of
     Call t c \<Rightarrow> if t < length (threads w) \<and> (case threads w ! t of Done r \<Rightarrow> True | _ \<Rightarrow> False) \<and> admit w c
       then Some (w\<lparr>threads := (threads w)[t := Ready c]\<rparr>) else None
   | Move t \<Rightarrow> if runnable w t then (case thread_step K t w of Some (Inr w') \<Rightarrow> Some w' | _ \<Rightarrow> None) else None
   | Callback a \<Rightarrow> if callback_due w a then (case callback_step K a w of Some (Inr w') \<Rightarrow> Some w' | _ \<Rightarrow> None) else None)"

lemma happens_iff: "happens K admit w e = Some w' \<longleftrightarrow> world_step K admit w e w'"
proof
  show "happens K admit w e = Some w' \<Longrightarrow> world_step K admit w e w'"
    by (auto simp: happens_def intro: world_step.intros split: action.splits pc.splits if_splits option.splits sum.splits)
  show "world_step K admit w e w' \<Longrightarrow> happens K admit w e = Some w'"
    by (erule world_stepE) (auto simp: happens_def)
qed

interpretation world: playable "world_step K admit" "happens K admit" for K admit
  by unfold_locales (rule happens_iff)

section \<open>Counting threads\<close>

definition count_of :: "(pc \<Rightarrow> bool) \<Rightarrow> pc list \<Rightarrow> nat" where
  "count_of P ps = length (filter P ps)"

lemma count_of_update:
  "t < length ps \<Longrightarrow> count_of P (ps[t := p]) + of_bool (P (ps ! t)) = count_of P ps + of_bool (P p)"
  unfolding count_of_def
proof (induction ps arbitrary: t)
  case (Cons q ps)
  then show ?case using Cons.IH [of "t - 1"] by (cases t) auto
qed simp

lemma count_of_pos: "t < length ps \<Longrightarrow> P (ps ! t) \<Longrightarrow> 0 < count_of P ps"
  by (auto simp: count_of_def filter_empty_conv intro: nth_mem)

lemma count_of_none: "\<not> list_ex P ps \<Longrightarrow> count_of P ps = 0"
  by (auto simp: count_of_def list_ex_iff filter_empty_conv)

lemma count_of_unique:
  assumes "count_of P ps \<le> 1" and "t < length ps" "P (ps ! t)" and "u < length ps" "P (ps ! u)"
  shows "u = t"
proof (rule ccontr)
  assume "u \<noteq> t"
  obtain q where q: "\<not> P q \<or> (\<forall>x. P x)" by blast
  show False
  proof (cases "\<forall>x. P x")
    case True
    with assms have "length ps \<le> 1" by (simp add: count_of_def)
    with assms \<open>u \<noteq> t\<close> show False by auto
  next
    case False
    then obtain q where "\<not> P q" by blast
    with count_of_update [of t ps P q] count_of_pos [of u "ps[t := q]" P] assms \<open>u \<noteq> t\<close>
    show False by simp
  qed
qed

section \<open>Locks and grace periods, under any calls\<close>

definition sync_inv :: "('l, 'm) world \<Rightarrow> bool" where
  "sync_inv w \<longleftrightarrow>
     count_of holds_lock (threads w) = of_bool (books_lock (shared w)) \<and>
     count_of in_section (threads w) = rcu_nesting (shared w) \<and>
     (\<forall>a r. r \<in> set (grace w a) \<longrightarrow> r < length (threads w) \<and> in_section (threads w ! r)) \<and>
     (\<forall>t < length (threads w). \<forall>g. threads w ! t \<noteq> Next g HEAD)"

text \<open>When a command succeeds, and with what.\<close>

named_theorems succeeds \<open>success of the primitives\<close>

lemma bind_succeeds [succeeds]:
  "bind_cmd m f s = Some (Inr r) \<longleftrightarrow> (\<exists>x s1. m s = Some (Inr (x, s1)) \<and> f x s1 = Some (Inr r))"
  by (auto simp: bind_cmd_def split: option.splits sum.splits)

lemma primitives_succeed [succeeds]:
  "return x s = Some (Inr (y, s')) \<longleftrightarrow> y = x \<and> s' = s"
  "modify g s = Some (Inr (u, s')) \<longleftrightarrow> s' = g s"
  "gets h s = Some (Inr (z, s')) \<longleftrightarrow> z = h s \<and> s' = s"
  "guard_cmd P e s = Some (Inr (u, s')) \<longleftrightarrow> P s \<and> s' = s"
  by (auto simp: cmd_defs)

lemma locks_succeed [succeeds]:
  "rcu_read_lock s = Some (Inr (u, s')) \<longleftrightarrow> s' = s\<lparr>rcu_nesting := Suc (rcu_nesting s)\<rparr>"
  "rcu_read_unlock s = Some (Inr (u, s')) \<longleftrightarrow> 0 < rcu_nesting s \<and> s' = s\<lparr>rcu_nesting := rcu_nesting s - 1\<rparr>"
  "spin_lock s = Some (Inr (u, s')) \<longleftrightarrow> \<not> books_lock s \<and> s' = s\<lparr>books_lock := True\<rparr>"
  "spin_unlock s = Some (Inr (u, s')) \<longleftrightarrow> books_lock s \<and> s' = s\<lparr>books_lock := False\<rparr>"
  "on_list f s = Some (Inr (u, s')) \<longleftrightarrow> s' = s\<lparr>books := f (books s)\<rparr>"
  "klog_line fmt args s = Some (Inr (u, s')) \<longleftrightarrow> s' = s\<lparr>klog := klog s @ [emit fmt args]\<rparr>"
  by (auto simp: rcu_read_lock_def rcu_read_unlock_def spin_lock_def spin_unlock_def succeeds)

lemma memory_succeeds [succeeds]:
  "book_at a s = Some (Inr (x, s')) \<longleftrightarrow> heap s a = Some x \<and> s' = s"
  "store_book a b s = Some (Inr (u, s')) \<longleftrightarrow> heap s a \<noteq> None \<and> s' = s\<lparr>heap := (heap s)(a \<mapsto> b)\<rparr>"
  "next_book K a s = Some (Inr (q, s')) \<longleftrightarrow> heap s a \<noteq> None \<and> q = kl_next (k_list K) (books s) a \<and> s' = s"
  "call_rcu a s = Some (Inr (u, s')) \<longleftrightarrow> heap s a \<noteq> None \<and> s' = s\<lparr>rcu_pending := rcu_pending s @ [a]\<rparr>"
  "kfree K a s = Some (Inr (u, s')) \<longleftrightarrow>
     heap s a \<noteq> None \<and> s' = s\<lparr>heap := (heap s)(a := None), kmem_state := km_free (k_mem K) a (kmem_state s)\<rparr>"
  "kzalloc K s = Some (Inr (r, s')) \<longleftrightarrow>
     (\<exists>m'. r = None \<and> km_alloc (k_mem K) (kmem_state s) = (None, m') \<and> s' = s\<lparr>kmem_state := m'\<rparr>) \<or>
     (\<exists>a m'. r = Some a \<and> km_alloc (k_mem K) (kmem_state s) = (Some a, m') \<and>
        s' = s\<lparr>kmem_state := m', heap := (heap s)(a \<mapsto> zeroed_book)\<rparr>)"
  by (auto simp: book_at_def store_book_def next_book_def call_rcu_def kfree_def kzalloc_def succeeds
      split: option.splits prod.splits)

definition done_lines :: "('l, 'm) kern \<Rightarrow> (updater \<times> int) option \<Rightarrow> string list" where
  "done_lines K msg = (case msg of None \<Rightarrow> []
     | Some (u, i) \<Rightarrow> [emit (success_msg u) [FInt i, FUInt (k_preempt K False)]])"

lemma finish_succeeds [succeeds]:
  "finish K msg s = Some (Inr (p, s')) \<longleftrightarrow> p = Done 0 \<and> s' = s\<lparr>klog := klog s @ done_lines K msg\<rparr>"
  by (auto simp: finish_def done_lines_def succeeds split: option.splits)

text \<open>When it faults.\<close>

named_theorems faults \<open>faults of the primitives\<close>

lemma bind_faults [faults]:
  "bind_cmd m f s = Some (Inl e) \<longleftrightarrow>
     m s = Some (Inl e) \<or> (\<exists>x s1. m s = Some (Inr (x, s1)) \<and> f x s1 = Some (Inl e))"
  by (auto simp: bind_cmd_def split: option.splits sum.splits)

lemma primitives_fault [faults]:
  "return x s \<noteq> Some (Inl e)" "modify g s \<noteq> Some (Inl e)" "gets h s \<noteq> Some (Inl e)"
  "guard_cmd P d s = Some (Inl e) \<longleftrightarrow> \<not> P s \<and> e = d"
  by (auto simp: cmd_defs)

lemma locks_fault [faults]:
  "rcu_read_lock s \<noteq> Some (Inl e)"
  "rcu_read_unlock s = Some (Inl e) \<longleftrightarrow> rcu_nesting s = 0 \<and> e = Unbalanced"
  "spin_lock s = Some (Inl e) \<longleftrightarrow> books_lock s \<and> e = SelfDeadlock"
  "spin_unlock s = Some (Inl e) \<longleftrightarrow> \<not> books_lock s \<and> e = Unbalanced"
  "on_list f s \<noteq> Some (Inl e)" "klog_line fmt args s \<noteq> Some (Inl e)"
  by (auto simp: rcu_read_lock_def rcu_read_unlock_def spin_lock_def spin_unlock_def faults succeeds)

lemma memory_faults [faults]:
  "book_at a s = Some (Inl e) \<longleftrightarrow> heap s a = None \<and> e = UseAfterFree a"
  "store_book a b s = Some (Inl e) \<longleftrightarrow> heap s a = None \<and> e = UseAfterFree a"
  "next_book K a s = Some (Inl e) \<longleftrightarrow> heap s a = None \<and> e = UseAfterFree a"
  "call_rcu a s = Some (Inl e) \<longleftrightarrow> heap s a = None \<and> e = UseAfterFree a"
  "kfree K a s = Some (Inl e) \<longleftrightarrow> heap s a = None \<and> e = DoubleFree a"
  "kzalloc K s \<noteq> Some (Inl e)" "finish K msg s \<noteq> Some (Inl e)"
  by (auto simp: book_at_def store_book_def next_book_def call_rcu_def kfree_def kzalloc_def finish_def
      faults succeeds return_def split: option.splits prod.splits)

declare bind_cmd_Inr [simp del] kzalloc_Some [simp del] kzalloc_None [simp del] store_book_eq [simp del]
  book_at_live [simp del] rcu_read_unlock_eq [simp del] spin_lock_eq [simp del] spin_unlock_eq [simp del]
  kfree_eq [simp del] call_rcu_eq [simp del]

text \<open>What one move does to the lock and to the number of read-side sections.\<close>

definition keeps_sync :: "pc \<Rightarrow> ('l, 'm) library \<Rightarrow> pc \<Rightarrow> ('l, 'm) library \<Rightarrow> bool" where
  "keeps_sync p s p' s' \<longleftrightarrow>
     of_bool (books_lock s') + of_bool (holds_lock p) = (of_bool (books_lock s) + of_bool (holds_lock p') :: nat) \<and>
     rcu_nesting s' + of_bool (in_section p) = rcu_nesting s + of_bool (in_section p')"

lemma start_sync: "start K c s = Some (Inr (p', s')) \<Longrightarrow> keeps_sync (Ready c) s p' s'"
  by (cases c) (auto simp: keeps_sync_def succeeds)

lemma not_found_sync: "not_found g s = Some (Inr (p', s')) \<Longrightarrow> keeps_sync (At g q) s p' s'"
  by (cases g) (auto simp: keeps_sync_def succeeds)

lemma found_sync: "found K g q x s = Some (Inr (p', s')) \<Longrightarrow> keeps_sync (At g q) s p' s'"
  by (cases g) (auto simp: keeps_sync_def succeeds split: if_splits)

lemma proceed_sync: "proceed K p s = Some (Inr (p', s')) \<Longrightarrow> keeps_sync p s p' s'"
  by (cases p)
    (auto simp: succeeds start_sync not_found_sync found_sync split: if_splits, auto simp: keeps_sync_def)

text \<open>A traversal never follows the next pointer of the list head after its start.\<close>

lemma proceed_next: "proceed K p s = Some (Inr (Next g a, s')) \<Longrightarrow> a \<noteq> HEAD"
proof (cases p)
  case (Ready c)
  then show "proceed K p s = Some (Inr (Next g a, s')) \<Longrightarrow> ?thesis" by (cases c) (auto simp: succeeds)
next
  case (At h b)
  then show "proceed K p s = Some (Inr (Next g a, s')) \<Longrightarrow> ?thesis"
    by (cases h) (auto simp: succeeds split: if_splits)
qed (auto simp: succeeds split: if_splits)

lemma thread_stepE:
  assumes "thread_step K t w = Some (Inr w')"
  obtains p' s' where "proceed K (threads w ! t) (shared w) = Some (Inr (p', s'))"
    and "w' = \<lparr>shared = s', threads = (threads w)[t := p'], grace = next_grace w t (threads w ! t) p'\<rparr>"
  using assms by (auto simp: thread_step_def split: option.splits sum.splits)

lemma callback_stepE:
  assumes "callback_step K a w = Some (Inr w')"
  obtains s' where "book_reclaim_callback K a ((shared w)\<lparr>rcu_pending := remove1 a (rcu_pending (shared w))\<rparr>) = Some (Inr ((), s'))"
    and "w' = w\<lparr>shared := s'\<rparr>"
  using assms by (auto simp: callback_step_def split: option.splits sum.splits)

lemma in_readers: "r \<in> set (readers w) \<longleftrightarrow> r < length (threads w) \<and> in_section (threads w ! r)"
  by (auto simp: readers_def)

lemma in_next_grace:
  "r \<in> set (next_grace w t p p' a) \<Longrightarrow>
     (r \<in> set (grace w a) \<and> (r = t \<longrightarrow> in_section p \<longrightarrow> in_section p')) \<or>
     (\<exists>async msg. p = Reclaim async a msg \<and> r \<in> set (readers w))"
  by (auto simp: next_grace_def split: pc.splits if_splits)

lemma sync_inv_step:
  assumes "sync_inv w" and "t < length (threads w)" and "thread_step K t w = Some (Inr w')"
  shows "sync_inv w'"
proof -
  let ?p = "threads w ! t"
  from assms(3) obtain p' s' where adv: "proceed K ?p (shared w) = Some (Inr (p', s'))"
    and w': "w' = \<lparr>shared = s', threads = (threads w)[t := p'], grace = next_grace w t ?p p'\<rparr>"
    by (rule thread_stepE)
  note sync = proceed_sync [OF adv, unfolded keeps_sync_def] and inv = assms(1) [unfolded sync_inv_def]
  have "r < length (threads w') \<and> in_section (threads w' ! r)" if "r \<in> set (grace w' a)" for a r
    using in_next_grace [of r w t ?p p' a] that inv assms(2) in_readers [of r w] w'
    by (cases "r = t") auto
  moreover have "\<forall>u < length (threads w'). \<forall>g. threads w' ! u \<noteq> Next g HEAD"
    using inv w' assms(2) proceed_next [of K ?p "shared w" _ HEAD s'] adv by (auto simp: nth_list_update split: if_splits)
  ultimately show ?thesis
    using inv sync w' count_of_update [OF assms(2), of holds_lock p'] count_of_update [OF assms(2), of in_section p']
    unfolding sync_inv_def by simp
qed

lemma sync_inv_callback: "sync_inv w \<Longrightarrow> callback_step K a w = Some (Inr w') \<Longrightarrow> sync_inv w'"
  by (auto elim!: callback_stepE simp: book_reclaim_callback_def succeeds sync_inv_def)

lemma sync_inv_call:
  assumes "sync_inv w" and "t < length (threads w)" and "threads w ! t = Done r"
  shows "sync_inv (w\<lparr>threads := (threads w)[t := Ready c]\<rparr>)"
  using assms count_of_update [OF assms(2), of holds_lock "Ready c"] count_of_update [OF assms(2), of in_section "Ready c"]
  by (fastforce simp: sync_inv_def nth_list_update)

lemma sync_inv_boot: "sync_inv (boot K m n)"
  by (simp add: sync_inv_def boot_def fresh_library_def count_of_def)

lemma length_boot: "length (threads (boot K m n)) = n"
  by (simp add: boot_def)

lemma step_sync: "world_step K admit w e w' \<Longrightarrow> sync_inv w \<Longrightarrow> sync_inv w'"
  by (erule world_stepE) (auto simp: runnable_def intro: sync_inv_call sync_inv_step sync_inv_callback)

lemma step_length: "world_step K admit w e w' \<Longrightarrow> length (threads w') = length (threads w)"
  by (erule world_stepE) (auto elim!: thread_stepE callback_stepE)

interpretation world_sync: inductive_invariant "\<lambda>w. \<exists>m. w = boot K m n" "\<lambda>w. sync_inv w \<and> length (threads w) = n"
    "world_step K admit" for K admit n
  by unfold_locales (auto simp: sync_inv_boot length_boot step_length intro: step_sync)

lemma reachable_sync: "reachable K admit m n w \<Longrightarrow> sync_inv w"
  and length_threads: "reachable K admit m n w \<Longrightarrow> length (threads w) = n"
  by (auto simp: reachable_def dest: world_sync.reached_inv [rotated, OF _ exI, OF _ refl])

section \<open>No deadlock\<close>

primrec active :: "pc \<Rightarrow> bool" where
  "active (Done r) = False"
| "active (Ready c) = True"
| "active (Enter g) = True"
| "active (At g p) = True"
| "active (Next g p) = True"
| "active (Stale p) = True"
| "active (Found u i async a) = True"
| "active (Copied u i async a b) = True"
| "active (Locked u i async a b) = True"
| "active (Replaced u i async a) = True"
| "active (Unlocked u i async a) = True"
| "active (Removed async a) = True"
| "active (Reclaim async a msg) = True"
| "active (Wait a msg) = True"
| "active (Add_new b) = True"
| "active (Add_locked b) = True"
| "active Add_linked = True"

lemma lock_holder_runs: "t < length (threads w) \<Longrightarrow> holds_lock (threads w ! t) \<Longrightarrow> runnable w t \<and> active (threads w ! t)"
  by (cases "threads w ! t") (auto simp: runnable_def)

lemma section_or_lock_runs:
  "t < length (threads w) \<Longrightarrow> active (threads w ! t) \<Longrightarrow> in_section (threads w ! t) \<Longrightarrow> \<not> books_lock (shared w) \<Longrightarrow> runnable w t"
  by (cases "threads w ! t") (auto simp: runnable_def)

lemma lock_held_by:
  assumes "sync_inv w" and "books_lock (shared w)"
  obtains t where "t < length (threads w)" and "holds_lock (threads w ! t)"
proof -
  from assms have "filter holds_lock (threads w) \<noteq> []" by (auto simp: sync_inv_def count_of_def)
  then show ?thesis using that by (auto simp: filter_empty_conv in_set_conv_nth)
qed

lemma in_section_active: "in_section p \<Longrightarrow> active p"
  by (cases p) auto

lemma some_thread_runs:
  assumes "sync_inv w" and "t < length (threads w)" and "active (threads w ! t)"
  shows "\<exists>u. runnable w u \<and> active (threads w ! u)"
proof (cases "books_lock (shared w)")
  case True
  with assms(1) obtain u where "u < length (threads w)" "holds_lock (threads w ! u)" by (rule lock_held_by)
  then show ?thesis using lock_holder_runs by blast
next
  case free: False
  show ?thesis
  proof (cases "\<exists>a r. r \<in> set (grace w a)")
    case True
    then obtain r where "r < length (threads w)" "in_section (threads w ! r)"
      using assms(1) by (auto simp: sync_inv_def)
    then show ?thesis using section_or_lock_runs free in_section_active by blast
  next
    case False
    then have "grace w a = []" for a by (cases "grace w a") auto
    with free assms(2) have "runnable w t" by (simp add: runnable_def list_all_iff)
    with assms(3) show ?thesis by blast
  qed
qed

section \<open>Who owns which book\<close>

text \<open>
  The books a thread owns: its new book before it is linked, the book it took off the list, and the
  book whose grace period it waits for; the entries it relies on being on the list; and the entry a
  reader stands on.
\<close>

fun fresh :: "pc \<Rightarrow> addr list" where
  "fresh (Copied u i async a b) = [b]"
| "fresh (Locked u i async a b) = [b]"
| "fresh (Add_new b) = [b]"
| "fresh (Add_locked b) = [b]"
| "fresh _ = []"

fun retired :: "pc \<Rightarrow> addr list" where
  "retired (Replaced u i async a) = [a]"
| "retired (Unlocked u i async a) = [a]"
| "retired (Removed async a) = [a]"
| "retired (Reclaim async a msg) = [a]"
| "retired _ = []"

definition owned :: "pc \<Rightarrow> addr list" where
  "owned p = fresh p @ retired p @ waits_for p"

definition cursor :: "pc \<Rightarrow> (goal \<times> addr) option" where
  "cursor p = (case p of At g a \<Rightarrow> if a = HEAD then None else Some (g, a)
     | Next g a \<Rightarrow> if a = HEAD then None else Some (g, a) | _ \<Rightarrow> None)"

definition target :: "pc \<Rightarrow> addr list" where
  "target p = (case p of Found u i async a \<Rightarrow> [a] | Copied u i async a b \<Rightarrow> [a] | Locked u i async a b \<Rightarrow> [a]
     | _ \<Rightarrow> (case cursor p of Some (g, a) \<Rightarrow> if goal_removes g then [a] else [] | None \<Rightarrow> []))"

definition reads_at :: "pc \<Rightarrow> addr list" where
  "reads_at p = (case cursor p of Some (g, a) \<Rightarrow> if goal_removes g then [] else [a] | None \<Rightarrow> [])"

definition holdings :: "pc list \<Rightarrow> addr multiset" where
  "holdings ps = mset (concat (map owned ps))"

definition retired_in :: "pc list \<Rightarrow> addr set" where
  "retired_in ps = {a. \<exists>t < length ps. a \<in> set (retired (ps ! t))}"

lemma holdings_update:
  "t < length ps \<Longrightarrow> holdings (ps[t := p]) + mset (owned (ps ! t)) = holdings ps + mset (owned p)"
  unfolding holdings_def
proof (induction ps arbitrary: t)
  case (Cons q ps)
  then show ?case using Cons.IH [of "t - 1"] by (cases t) (auto simp: ac_simps)
qed simp

lemma in_holdings: "t < length ps \<Longrightarrow> a \<in> set (owned (ps ! t)) \<Longrightarrow> a \<in># holdings ps"
  by (auto simp: holdings_def)

lemma in_retired: "a \<in> retired_in ps \<longleftrightarrow> (\<exists>t < length ps. a \<in> set (retired (ps ! t)))"
  by (simp add: retired_in_def)

lemma retired_in_holdings: "a \<in> retired_in ps \<Longrightarrow> a \<in># holdings ps"
  unfolding in_retired by (auto intro!: in_holdings simp: owned_def)

lemma retired_removes: "a \<in> set (retired p) \<Longrightarrow> removes p"
  by (cases p) auto

lemma retired_in_same: "t < length ps \<Longrightarrow> retired p = retired (ps ! t) \<Longrightarrow> retired_in (ps[t := p]) = retired_in ps"
  by (force simp: in_retired set_eq_iff nth_list_update)

lemma retired_in_only:
  assumes "count_of removes ps \<le> 1" and "t < length ps" and "removes (ps ! t)"
  shows "retired_in ps = set (retired (ps ! t))" and "retired_in (ps[t := p]) = set (retired p)"
proof -
  have other: "retired (ps ! u) = []" if "u < length ps" "u \<noteq> t" for u
    using count_of_unique [OF assms that(1)] that(2) retired_removes [of _ "ps ! u"] by (cases "retired (ps ! u)") auto
  show "retired_in ps = set (retired (ps ! t))"
    unfolding set_eq_iff in_retired using other assms(2) by (metis empty_iff empty_set)
  show "retired_in (ps[t := p]) = set (retired p)"
    unfolding set_eq_iff in_retired using other assms(2)
    by (metis empty_iff empty_set length_list_update nth_list_update_eq nth_list_update_neq)
qed

section \<open>The invariant with one remover at a time\<close>

text \<open>
  Thread \<open>r\<close>, inside its section, may go on from an entry that is on the list, that was taken off it
  and waits for no one yet, or whose grace period waits for \<open>r\<close>.
\<close>

definition may_read :: "('l, 'm) world \<Rightarrow> addr list \<Rightarrow> tid \<Rightarrow> addr \<Rightarrow> bool" where
  "may_read w xs r a \<longleftrightarrow> a = HEAD \<or> a \<in> set xs \<or> a \<in> retired_in (threads w) \<or> r \<in> set (grace w a)"

text \<open>The books whose grace period has begun: those queued for their callback and those a thread waits for.\<close>

definition parked :: "('l, 'm) world \<Rightarrow> addr \<Rightarrow> bool" where
  "parked w a \<longleftrightarrow> a \<in> set (rcu_pending (shared w)) \<or> (\<exists>t < length (threads w). a \<in> set (waits_for (threads w ! t)))"

definition memory_inv ::
  "('l \<Rightarrow> addr list \<Rightarrow> bool) \<Rightarrow> ('m \<Rightarrow> addr set) \<Rightarrow> ('l, 'm) world \<Rightarrow> addr list \<Rightarrow> bool" where
  "memory_inv repr live w xs \<longleftrightarrow>
     repr (books (shared w)) xs \<and> finite (dom (heap (shared w))) \<and> NULL \<notin> dom (heap (shared w)) \<and>
     dom (heap (shared w)) \<subseteq> live (kmem_state (shared w)) \<and>
     mset xs + mset (rcu_pending (shared w)) + holdings (threads w) = mset_set (dom (heap (shared w)))"

definition remover_inv :: "('l, 'm) kern \<Rightarrow> ('l, 'm) world \<Rightarrow> addr list \<Rightarrow> bool" where
  "remover_inv K w xs \<longleftrightarrow>
     count_of removes (threads w) \<le> 1 \<and>
     (\<forall>t < length (threads w). set (target (threads w ! t)) \<subseteq> set xs) \<and>
     (\<forall>a \<in> retired_in (threads w). kl_next (k_list K) (books (shared w)) a \<in> insert HEAD (set xs))"

definition reader_inv :: "('l, 'm) kern \<Rightarrow> ('l, 'm) world \<Rightarrow> addr list \<Rightarrow> bool" where
  "reader_inv K w xs \<longleftrightarrow>
     (\<forall>r < length (threads w). \<forall>a \<in> set (reads_at (threads w ! r)). may_read w xs r a) \<and>
     (\<forall>a r. r \<in> set (grace w a) \<longrightarrow>
        parked w a \<and> may_read w xs r (kl_next (k_list K) (books (shared w)) a))"

definition rcu_inv ::
  "('l, 'm) kern \<Rightarrow> ('l \<Rightarrow> addr list \<Rightarrow> bool) \<Rightarrow> ('m \<Rightarrow> addr set) \<Rightarrow> ('l, 'm) world \<Rightarrow> addr list \<Rightarrow> bool" where
  "rcu_inv K repr live w xs \<longleftrightarrow> memory_inv repr live w xs \<and> remover_inv K w xs \<and> reader_inv K w xs"

lemmas inv_defs = rcu_inv_def memory_inv_def remover_inv_def reader_inv_def

text \<open>The world after thread \<open>t\<close> moved to \<open>p\<close>, leaving the library \<open>s\<close> and the grace periods \<open>g\<close>.\<close>

abbreviation moved :: "('l, 'm) world \<Rightarrow> tid \<Rightarrow> pc \<Rightarrow> ('l, 'm) library \<Rightarrow> (addr \<Rightarrow> tid list) \<Rightarrow> ('l, 'm) world" where
  "moved w t p s g \<equiv> \<lparr>shared = s, threads = (threads w)[t := p], grace = g\<rparr>"

text \<open>A thread's own cursor is the only thing a step must look at when all others keep theirs.\<close>

lemma deleter_removes: "deletes g \<Longrightarrow> goal_removes g"
  by (cases g) auto

lemma reads_in_section: "a \<in> set (reads_at p) \<Longrightarrow> in_section p"
  by (cases p) (auto simp: reads_at_def cursor_def dest: deleter_removes split: if_splits)

lemma reader_inv_moved:
  assumes "reader_inv K w xs" and "t < length (threads w)"
    and "\<And>a. a \<in> set (reads_at p') \<Longrightarrow> may_read (moved w t p' s' g') xs' t a"
    and "\<And>r a. r \<noteq> t \<Longrightarrow> r < length (threads w) \<Longrightarrow> in_section (threads w ! r) \<Longrightarrow> may_read w xs r a \<Longrightarrow>
      may_read (moved w t p' s' g') xs' r a"
    and "\<And>a r. r \<in> set (g' a) \<Longrightarrow> parked (moved w t p' s' g') a \<and>
      may_read (moved w t p' s' g') xs' r (kl_next (k_list K) (books s') a)"
  shows "reader_inv K (moved w t p' s' g') xs'"
  using assms reads_in_section unfolding reader_inv_def by (auto simp: nth_list_update)

lemma parked_same:
  "t < length (threads w) \<Longrightarrow> waits_for p' = waits_for (threads w ! t) \<Longrightarrow> rcu_pending s' = rcu_pending (shared w) \<Longrightarrow>
   parked (moved w t p' s' g') a = parked w a"
  by (force simp: parked_def nth_list_update)

lemma parked_moved:
  "parked w a \<Longrightarrow> a \<notin> set (waits_for (threads w ! t)) \<Longrightarrow> set (rcu_pending (shared w)) \<subseteq> set (rcu_pending s') \<Longrightarrow>
   parked (moved w t p' s' g') a"
  unfolding parked_def by (auto, metis nth_list_update_neq)

text \<open>A move that leaves the list alone and takes no book off it.\<close>

definition calm :: "('l, 'm) world \<Rightarrow> addr list \<Rightarrow> tid \<Rightarrow> pc \<Rightarrow> ('l, 'm) library \<Rightarrow> bool" where
  "calm w xs t p' s' \<longleftrightarrow>
     books s' = books (shared w) \<and> retired p' = retired (threads w ! t) \<and>
     count_of removes ((threads w)[t := p']) \<le> 1 \<and> set (target p') \<subseteq> set xs \<and>
     (\<forall>a \<in> set (reads_at p'). may_read w xs t a)"

lemma remover_inv_calm:
  assumes "remover_inv K w xs" and "t < length (threads w)" and "calm w xs t p' s'"
  shows "remover_inv K (moved w t p' s' g') xs"
  using assms retired_in_same [OF assms(2), of p'] by (auto simp: remover_inv_def calm_def nth_list_update)

text \<open>The grace periods stay, or stop waiting for a thread that reads no longer.\<close>

definition grace_kept :: "('l, 'm) world \<Rightarrow> tid \<Rightarrow> pc \<Rightarrow> (addr \<Rightarrow> tid list) \<Rightarrow> bool" where
  "grace_kept w t p' g' \<longleftrightarrow> (\<forall>a. set (g' a) = set (grace w a)) \<or>
     reads_at p' = [] \<and> (\<forall>a. set (g' a) = set (grace w a) - {t})"

lemma next_grace_kept:
  "(\<And>async a msg. p \<noteq> Reclaim async a msg) \<Longrightarrow> (\<not> in_section p' \<Longrightarrow> reads_at p' = []) \<Longrightarrow>
   grace_kept w t p' (next_grace w t p p')"
  by (auto simp: next_grace_def grace_kept_def split: pc.splits)

lemma reader_inv_calm:
  assumes inv: "reader_inv K w xs" and t: "t < length (threads w)" and c: "calm w xs t p' s'"
    and g: "grace_kept w t p' g'"
    and parked: "\<And>a. parked w a \<Longrightarrow> grace w a \<noteq> [] \<Longrightarrow> parked (moved w t p' s' g') a"
  shows "reader_inv K (moved w t p' s' g') xs"
proof -
  have ret: "retired_in ((threads w)[t := p']) = retired_in (threads w)"
    using c t by (simp add: calm_def retired_in_same)
  have mono: "may_read (moved w t p' s' g') xs r a" if "may_read w xs r a" "r \<noteq> t \<or> (\<forall>a. set (g' a) = set (grace w a))" for r a
    using that g ret by (auto simp: may_read_def grace_kept_def)
  show ?thesis
  proof (rule reader_inv_moved [of K w xs, OF inv t])
    show "may_read (moved w t p' s' g') xs t a" if "a \<in> set (reads_at p')" for a
      by (rule mono) (use that c g in \<open>auto simp: calm_def grace_kept_def\<close>)
    show "parked (moved w t p' s' g') a \<and> may_read (moved w t p' s' g') xs r (kl_next (k_list K) (books s') a)"
      if "r \<in> set (g' a)" for a r
    proof -
      have r: "r \<in> set (grace w a)" "r \<noteq> t \<or> (\<forall>a. set (g' a) = set (grace w a))"
        using that g by (auto simp: grace_kept_def)
      from r(1) inv have "may_read w xs r (kl_next (k_list K) (books (shared w)) a)" "parked w a"
        by (auto simp: reader_inv_def)
      moreover from r(1) have "grace w a \<noteq> []" by auto
      ultimately show ?thesis using mono [OF _ r(2)] parked c by (simp add: calm_def)
    qed
  qed (rule mono, auto)
qed

text \<open>Every book of the heap has exactly one owner: the list, the callback queue, or a thread.\<close>

lemma memory_invD:
  assumes "memory_inv repr live w xs"
  shows "a \<in> set xs \<Longrightarrow> a \<in> dom (heap (shared w))"
    and "a \<in> set (rcu_pending (shared w)) \<Longrightarrow> a \<in> dom (heap (shared w))"
    and "a \<in># holdings (threads w) \<Longrightarrow> a \<in> dom (heap (shared w))"
    and "a \<in> set xs \<Longrightarrow> a \<notin> set (rcu_pending (shared w)) \<and> a \<notin># holdings (threads w)"
proof -
  let ?D = "dom (heap (shared w))"
  from assms have fin: "finite ?D"
    and eq: "mset xs + mset (rcu_pending (shared w)) + holdings (threads w) = mset_set ?D"
    by (auto simp: memory_inv_def)
  have mem: "a \<in># mset xs + mset (rcu_pending (shared w)) + holdings (threads w) \<longleftrightarrow> a \<in> ?D"
    using fin eq by simp
  then show "a \<in> set xs \<Longrightarrow> a \<in> ?D" "a \<in> set (rcu_pending (shared w)) \<Longrightarrow> a \<in> ?D"
    "a \<in># holdings (threads w) \<Longrightarrow> a \<in> ?D" by auto
  have "count (mset_set ?D) a \<le> 1" by (simp add: count_mset_set')
  then have "count (mset xs) a + count (mset (rcu_pending (shared w))) a + count (holdings (threads w)) a \<le> 1"
    by (simp flip: eq)
  then show "a \<in> set xs \<Longrightarrow> a \<notin> set (rcu_pending (shared w)) \<and> a \<notin># holdings (threads w)"
    by (auto simp: not_in_iff simp flip: count_greater_zero_iff set_mset_mset)
qed

lemma memory_inv_moved:
  assumes "memory_inv repr live w xs" and t: "t < length (threads w)"
    and "repr (books s') xs'" "finite (dom (heap s'))" "NULL \<notin> dom (heap s')" "dom (heap s') \<subseteq> live (kmem_state s')"
    and bal: "mset xs' + mset (rcu_pending s') + mset (owned p') + mset_set (dom (heap (shared w))) =
      mset xs + mset (rcu_pending (shared w)) + mset (owned (threads w ! t)) + mset_set (dom (heap s'))"
  shows "memory_inv repr live (moved w t p' s' g') xs'"
proof -
  let ?H = "holdings (threads w)" and ?H' = "holdings ((threads w)[t := p'])"
  let ?P = "mset (rcu_pending (shared w))" and ?P' = "mset (rcu_pending s')"
  let ?D = "mset_set (dom (heap (shared w)))" and ?D' = "mset_set (dom (heap s'))"
  let ?O = "mset (owned (threads w ! t))" and ?O' = "mset (owned p')"
  have h: "?H' + ?O = ?H + ?O'" by (rule holdings_update [OF t])
  have d: "mset xs + ?P + ?H = ?D" using assms(1) by (simp add: memory_inv_def)
  have "(mset xs' + ?P' + ?H') + (?O + ?D) = (mset xs' + ?P' + ?D) + (?H' + ?O)" by (simp only: ac_simps)
  also have "\<dots> = (mset xs' + ?P' + ?O' + ?D) + ?H" unfolding h by (simp only: ac_simps)
  also have "\<dots> = (mset xs + ?P + ?H) + ?O + ?D'" unfolding bal by (simp only: ac_simps)
  also have "\<dots> = ?D' + (?O + ?D)" unfolding d by (simp only: ac_simps)
  finally have "mset xs' + ?P' + ?H' = ?D'" by (rule add_right_imp_eq)
  then show ?thesis using assms(3-6) by (simp add: memory_inv_def)
qed

lemma owned_in_heap:
  "memory_inv repr live w xs \<Longrightarrow> t < length (threads w) \<Longrightarrow> a \<in> set (owned (threads w ! t)) \<Longrightarrow> a \<in> dom (heap (shared w))"
  using memory_invD(3) in_holdings by blast

lemma parked_holdings: "parked w a \<Longrightarrow> a \<in> set (rcu_pending (shared w)) \<or> a \<in># holdings (threads w)"
  by (auto simp: parked_def owned_def intro: in_holdings)

lemma parked_off_list: "memory_inv repr live w xs \<Longrightarrow> parked w a \<Longrightarrow> a \<notin> set xs \<and> a \<in> dom (heap (shared w))"
  using parked_holdings memory_invD by meson

lemma may_read_in_heap:
  assumes "memory_inv repr live w xs" and "reader_inv K w xs" and "may_read w xs r a" and "a \<noteq> HEAD"
  shows "a \<in> dom (heap (shared w))"
  using assms(3,4) memory_invD(1,3) [OF assms(1), of a] retired_in_holdings [of a] parked_off_list [OF assms(1), of a] assms(2)
  by (auto simp: may_read_def reader_inv_def)

text \<open>A move that changes the list: off the list nothing moves, and what leaves the list is retired.\<close>

lemma reader_inv_relink:
  assumes inv: "memory_inv repr live w xs" "reader_inv K w xs" and t: "t < length (threads w)"
    and mem: "memory_inv repr live (moved w t p' s' (grace w)) xs'"
    and frame: "\<And>a. a \<notin> set (HEAD # xs @ xs') \<Longrightarrow> kl_next (k_list K) (books s') a = kl_next (k_list K) (books (shared w)) a"
    and cover: "set xs \<union> retired_in (threads w) \<subseteq> set xs' \<union> retired_in ((threads w)[t := p'])"
    and quiet: "waits_for p' = waits_for (threads w ! t)" "rcu_pending s' = rcu_pending (shared w)" "reads_at p' = []"
  shows "reader_inv K (moved w t p' s' (grace w)) xs'"
proof (rule reader_inv_moved [OF inv(2) t])
  show mono: "may_read (moved w t p' s' (grace w)) xs' r a" if "may_read w xs r a" for r a
    using that cover by (auto simp: may_read_def)
  show "parked (moved w t p' s' (grace w)) a \<and> may_read (moved w t p' s' (grace w)) xs' r (kl_next (k_list K) (books s') a)"
    if "r \<in> set (grace w a)" for a r
  proof -
    have p: "parked w a" "may_read w xs r (kl_next (k_list K) (books (shared w)) a)"
      using that inv(2) by (auto simp: reader_inv_def)
    then have p': "parked (moved w t p' s' (grace w)) a" using parked_same [OF t quiet(1,2)] by simp
    from parked_off_list [OF inv(1) p(1)] parked_off_list [OF mem p'] inv(1)
    have "a \<notin> set (HEAD # xs @ xs')" by (auto simp: memory_inv_def)
    then show ?thesis using frame p p' mono by simp
  qed
qed (simp add: quiet)

text \<open>The start of a grace period.\<close>

lemma target_removes: "a \<in> set (target p) \<Longrightarrow> removes p"
  by (cases p) (auto simp: target_def cursor_def split: if_splits)

lemma grace_begins:
  assumes inv: "rcu_inv K repr live w xs" "sync_inv w" and t: "t < length (threads w)"
    and p: "threads w ! t = Reclaim async a msg"
    and s': "books s' = books (shared w)" "heap s' = heap (shared w)" "kmem_state s' = kmem_state (shared w)"
    and p': "p' = Wait a msg \<and> rcu_pending s' = rcu_pending (shared w) \<or>
      p' = Done 0 \<and> rcu_pending s' = rcu_pending (shared w) @ [a]"
  shows "rcu_inv K repr live (moved w t p' s' ((grace w)(a := readers w))) xs" (is "rcu_inv K repr live ?w' xs")
proof -
  have one: "count_of removes (threads w) \<le> 1" using inv(1) by (simp add: inv_defs)
  have ret: "retired_in (threads w) = {a}" "retired_in ((threads w)[t := p']) = {}"
    using retired_in_only [OF one t] p p' by auto
  have "count_of removes ((threads w)[t := p']) \<le> 1"
    using count_of_update [OF t, of removes p'] one p p' by auto
  then have "remover_inv K ?w' xs"
    using inv(1) ret s' p' t by (auto simp: inv_defs nth_list_update target_def cursor_def)
  moreover have "memory_inv repr live ?w' xs"
    by (rule memory_inv_moved [of _ _ w xs, OF _ t]) (use inv(1) p p' s' in \<open>auto simp: inv_defs owned_def\<close>)
  moreover have "reader_inv K ?w' xs"
  proof (rule reader_inv_moved [OF _ t])
    show mono: "may_read ?w' xs r b" if "r < length (threads w)" "in_section (threads w ! r)" "may_read w xs r b" for r b
      using that ret in_readers [of r w] by (auto simp: may_read_def)
    show "parked ?w' b \<and> may_read ?w' xs r (kl_next (k_list K) (books s') b)" if "r \<in> set (((grace w)(a := readers w)) b)" for b r
    proof (cases "b = a")
      case True
      have "parked ?w' a" using p' t by (auto simp: parked_def)
      moreover have "kl_next (k_list K) (books (shared w)) a \<in> insert HEAD (set xs)"
        using inv(1) ret by (auto simp: inv_defs)
      ultimately show ?thesis using True s' by (auto simp: may_read_def)
    next
      case False
      with that inv have r: "r < length (threads w)" "in_section (threads w ! r)"
        and h: "may_read w xs r (kl_next (k_list K) (books (shared w)) b)" "parked w b"
        by (auto simp: sync_inv_def inv_defs)
      from h(2) have "parked ?w' b" by (rule parked_moved) (use p p' in auto)
      with mono [OF r h(1)] show ?thesis using s' by simp
    qed
    show "reader_inv K w xs" using inv(1) by (simp add: rcu_inv_def)
  qed (use p' in \<open>auto simp: reads_at_def cursor_def\<close>)
  ultimately show ?thesis by (simp add: rcu_inv_def)
qed

text \<open>The calls of \<^verbatim>\<open>kfree\<close>, when nobody reads the book any more.\<close>

lemma mset_set_remove: "finite A \<Longrightarrow> a \<in> A \<Longrightarrow> add_mset a (mset_set (A - {a})) = mset_set A"
  using mset_set.remove by metis

lemma free_waited:
  assumes inv: "rcu_inv K repr live w xs" and M: "kernel_memory (k_mem K) live" and t: "t < length (threads w)"
    and p: "threads w ! t = Wait a msg" and g: "grace w a = []"
    and s': "books s' = books (shared w)" "rcu_pending s' = rcu_pending (shared w)"
      "heap s' = (heap (shared w))(a := None)" "kmem_state s' = km_free (k_mem K) a (kmem_state (shared w))"
  shows "rcu_inv K repr live (moved w t (Done 0) s' (grace w)) xs" (is "rcu_inv K repr live ?w' xs")
proof -
  have mem: "memory_inv repr live w xs" using inv by (simp add: rcu_inv_def)
  have a: "a \<in> dom (heap (shared w))" using owned_in_heap [OF mem t, of a] p by (simp add: owned_def)
  then have free: "live (kmem_state s') = live (kmem_state (shared w)) - {a}"
    using kernel_memory.free_live [OF M] s' mem by (auto simp: memory_inv_def)
  have "memory_inv repr live ?w' xs"
    by (rule memory_inv_moved [OF mem t])
      (use mem a free s' p in \<open>auto simp: memory_inv_def owned_def dom_fun_upd mset_set_remove simp del: fun_upd_apply\<close>)
  moreover have c: "calm w xs t (Done 0) s'"
    using inv s' p count_of_update [OF t, of removes "Done 0"]
    by (auto simp: calm_def inv_defs target_def reads_at_def cursor_def)
  moreover have "remover_inv K ?w' xs" using remover_inv_calm [OF _ t c] inv by (simp add: rcu_inv_def)
  moreover have "reader_inv K ?w' xs"
  proof (rule reader_inv_calm [OF _ t c])
    show "parked ?w' b" if "parked w b" "grace w b \<noteq> []" for b
      using that(1) by (rule parked_moved) (use that g p s' in auto)
  qed (use inv in \<open>auto simp: rcu_inv_def grace_kept_def\<close>)
  ultimately show ?thesis by (simp add: rcu_inv_def)
qed

lemma free_queued:
  assumes inv: "rcu_inv K repr live w xs" and M: "kernel_memory (k_mem K) live"
    and due: "callback_due w a" and c: "callback_step K a w = Some (Inr w')"
  shows "rcu_inv K repr live w' xs"
proof -
  have mem: "memory_inv repr live w xs" using inv by (simp add: rcu_inv_def)
  from c obtain l where w': "w' = w\<lparr>shared := (shared w)\<lparr>rcu_pending := remove1 a (rcu_pending (shared w)),
      klog := l, heap := (heap (shared w))(a := None), kmem_state := km_free (k_mem K) a (kmem_state (shared w))\<rparr>\<rparr>"
    by (auto elim!: callback_stepE simp: book_reclaim_callback_def succeeds)
  from due have a: "a \<in> set (rcu_pending (shared w))" "grace w a = []" by (auto simp: callback_due_def)
  from a(1) have ad: "a \<in> dom (heap (shared w))" by (rule memory_invD(2) [OF mem])
  then have free: "live (km_free (k_mem K) a (kmem_state (shared w))) = live (kmem_state (shared w)) - {a}"
    using kernel_memory.free_live [OF M] mem by (auto simp: memory_inv_def)
  have q: "mset (rcu_pending (shared w)) = add_mset a (mset (remove1 a (rcu_pending (shared w))))" using a(1) by simp
  have "add_mset a (mset xs + mset (remove1 a (rcu_pending (shared w))) + holdings (threads w)) = mset_set (dom (heap (shared w)))"
    using mem unfolding memory_inv_def q by simp
  then have "mset xs + mset (remove1 a (rcu_pending (shared w))) + holdings (threads w) = mset_set (dom (heap (shared w)) - {a})"
    using mset_set_remove [OF _ ad] mem unfolding memory_inv_def by (metis add_mset_eq_singleton_iff union_iff add_mset_add_mset_same_iff)
  then have "memory_inv repr live w' xs" using mem free w' by (auto simp: memory_inv_def)
  moreover have kept: "books (shared w') = books (shared w)" "threads w' = threads w" "grace w' = grace w"
    using w' by simp_all
  moreover have "parked w' b" if "parked w b" "r \<in> set (grace w b)" for b r
    using that a(2) w' by (cases "b = a") (auto simp: parked_def)
  then have "reader_inv K w' xs" using inv unfolding rcu_inv_def reader_inv_def may_read_def kept by blast
  moreover have "remover_inv K w' xs" using inv kept by (simp add: inv_defs)
  ultimately show ?thesis by (simp add: rcu_inv_def)
qed

section \<open>Every move keeps the invariant\<close>

text \<open>A move that changes neither the list nor who owns what.\<close>

definition silent :: "('m \<Rightarrow> addr set) \<Rightarrow> ('l, 'm) world \<Rightarrow> addr list \<Rightarrow> tid \<Rightarrow> pc \<Rightarrow> ('l, 'm) library \<Rightarrow> bool" where
  "silent live w xs t p' s' \<longleftrightarrow>
     books s' = books (shared w) \<and> heap s' = heap (shared w) \<and> rcu_pending s' = rcu_pending (shared w) \<and>
     live (kmem_state s') = live (kmem_state (shared w)) \<and>
     fresh p' = fresh (threads w ! t) \<and> retired p' = retired (threads w ! t) \<and> waits_for p' = waits_for (threads w ! t) \<and>
     (removes p' \<longrightarrow> removes (threads w ! t)) \<and> set (target p') \<subseteq> set xs \<and>
     (\<forall>a \<in> set (reads_at p'). may_read w xs t a)"

locale rcu_client = rcu_list "k_list K" repr + kernel_memory "k_mem K" live
  for K :: "('l, 'm) kern" and repr and live
begin

text \<open>What the invariant says of the thread that moves.\<close>

lemma inv_thread:
  assumes "rcu_inv K repr live w xs" and "t < length (threads w)"
  shows "set (target (threads w ! t)) \<subseteq> set xs" and "\<forall>a \<in> set (reads_at (threads w ! t)). may_read w xs t a"
    and "set (owned (threads w ! t)) \<subseteq> dom (heap (shared w))"
    and "set xs \<subseteq> dom (heap (shared w))" and "repr (books (shared w)) xs"
    and "kl_next (k_list K) (books (shared w)) HEAD \<in> insert HEAD (set xs)"
proof -
  have mem: "memory_inv repr live w xs" using assms(1) by (simp add: rcu_inv_def)
  show "set (owned (threads w ! t)) \<subseteq> dom (heap (shared w))" using owned_in_heap [OF mem assms(2)] by blast
  show "set xs \<subseteq> dom (heap (shared w))" using memory_invD(1) [OF mem] by blast
  show "repr (books (shared w)) xs" using mem by (simp add: memory_inv_def)
  then show "kl_next (k_list K) (books (shared w)) HEAD \<in> insert HEAD (set xs)"
    by (simp add: next_head first_of_def split: list.splits)
qed (use assms in \<open>auto simp: rcu_inv_def remover_inv_def reader_inv_def\<close>)

lemma next_on_list:
  assumes "repr l xs" and "a \<in> set xs" shows "kl_next (k_list K) l a \<in> insert HEAD (set xs)"
proof -
  obtain us vs where "xs = us @ a # vs" using assms(2) split_list by metis
  with assms(1) next_entry show ?thesis by (auto simp: first_of_def split: list.splits)
qed

text \<open>A reader that follows a next pointer arrives at an entry it may read.\<close>

lemma may_read_next:
  assumes "rcu_inv K repr live w xs" and "may_read w xs r a" and "a \<noteq> HEAD"
  shows "may_read w xs r (kl_next (k_list K) (books (shared w)) a)"
proof -
  have r: "repr (books (shared w)) xs" using assms(1) by (simp add: inv_defs)
  from assms(2,3) consider "a \<in> set xs" | "a \<in> retired_in (threads w)" | "r \<in> set (grace w a)"
    by (auto simp: may_read_def)
  then show ?thesis
  proof cases
    case 1
    then show ?thesis using next_on_list [OF r 1] by (auto simp: may_read_def)
  next
    case 2
    then show ?thesis using assms(1) by (auto simp: rcu_inv_def remover_inv_def may_read_def)
  next
    case 3
    then show ?thesis using assms(1) by (auto simp: rcu_inv_def reader_inv_def)
  qed
qed

lemma calm_keeps:
  assumes inv: "rcu_inv K repr live w xs" and t: "t < length (threads w)"
    and c: "calm w xs t p' s'" and g: "grace_kept w t p' g'"
    and same: "owned p' = owned (threads w ! t)" "waits_for p' = waits_for (threads w ! t)"
      "rcu_pending s' = rcu_pending (shared w)" "heap s' = heap (shared w)" "live (kmem_state s') = live (kmem_state (shared w))"
  shows "rcu_inv K repr live (moved w t p' s' g') xs"
proof -
  have "memory_inv repr live (moved w t p' s' g') xs"
    by (rule memory_inv_moved [of _ _ w xs, OF _ t]) (use inv c same in \<open>auto simp: inv_defs calm_def\<close>)
  moreover have "reader_inv K (moved w t p' s' g') xs"
    by (rule reader_inv_calm [OF _ t c g]) (use inv parked_same [OF t same(2,3)] in \<open>auto simp: rcu_inv_def\<close>)
  ultimately show ?thesis using remover_inv_calm [OF _ t c] inv by (simp add: rcu_inv_def)
qed

lemma alloc_keeps:
  assumes inv: "rcu_inv K repr live w xs" and t: "t < length (threads w)"
    and c: "calm w xs t p' s'" and g: "grace_kept w t p' g'"
    and alloc: "km_alloc (k_mem K) (kmem_state (shared w)) = (Some a, kmem_state s')"
    and new: "owned p' = a # owned (threads w ! t)" "waits_for p' = waits_for (threads w ! t)"
      "rcu_pending s' = rcu_pending (shared w)" "dom (heap s') = insert a (dom (heap (shared w)))"
  shows "rcu_inv K repr live (moved w t p' s' g') xs"
proof -
  from alloc_fresh [OF alloc] have a: "a \<noteq> NULL" "a \<notin> live (kmem_state (shared w))"
    "live (kmem_state s') = insert a (live (kmem_state (shared w)))" by auto
  with inv have "a \<notin> dom (heap (shared w))" by (auto simp: inv_defs)
  with a have "memory_inv repr live (moved w t p' s' g') xs"
    by (intro memory_inv_moved [of _ _ w xs, OF _ t]) (use inv c new in \<open>auto simp: inv_defs calm_def\<close>)
  moreover have "reader_inv K (moved w t p' s' g') xs"
    by (rule reader_inv_calm [OF _ t c g]) (use inv parked_same [OF t new(2,3)] in \<open>auto simp: rcu_inv_def\<close>)
  ultimately show ?thesis using remover_inv_calm [OF _ t c] inv by (simp add: rcu_inv_def)
qed

text \<open>The three ways the list changes.\<close>

lemma add_keeps:
  assumes inv: "rcu_inv K repr live w xs" and t: "t < length (threads w)" and p: "threads w ! t = Add_locked b"
    and s': "books s' = kl_add (k_list K) b (books (shared w))" "heap s' = heap (shared w)"
      "rcu_pending s' = rcu_pending (shared w)" "kmem_state s' = kmem_state (shared w)"
  shows "rcu_inv K repr live (moved w t Add_linked s' (grace w)) (b # xs)" (is "rcu_inv K repr live ?w' _")
proof -
  have mem: "memory_inv repr live w xs" and rd: "reader_inv K w xs" using inv by (simp_all add: rcu_inv_def)
  have r: "repr (books (shared w)) xs" using mem by (simp add: memory_inv_def)
  have "b \<in># holdings (threads w)" using in_holdings [OF t, of b] p by (simp add: owned_def)
  then have "b \<in> dom (heap (shared w))" "b \<notin> set xs" using memory_invD(3,4) [OF mem] by auto
  then have b: "b \<notin> set (HEAD # xs)" using mem by (auto simp: memory_inv_def)
  have mem': "memory_inv repr live ?w' (b # xs)"
    by (rule memory_inv_moved [OF mem t]) (use mem p s' repr_add [OF r b] in \<open>auto simp: memory_inv_def owned_def\<close>)
  have ret: "retired_in ((threads w)[t := Add_linked]) = retired_in (threads w)"
    using t p by (simp add: retired_in_same)
  have frame: "kl_next (k_list K) (books s') a = kl_next (k_list K) (books (shared w)) a" if "a \<notin> set (HEAD # b # xs)" for a
    using add_frame [OF r b that] s' by simp
  have "reader_inv K ?w' (b # xs)"
    by (rule reader_inv_relink [OF mem rd t mem']) (use frame ret p s' in \<open>auto simp: reads_at_def cursor_def\<close>)
  moreover have "a \<notin> set (HEAD # b # xs)" if "a \<in> retired_in (threads w)" for a
  proof -
    have "a \<in># holdings (threads ?w')" using that ret retired_in_holdings by simp
    with memory_invD(3,4) [OF mem', of a] mem' show ?thesis by (auto simp: memory_inv_def)
  qed
  then have "remover_inv K ?w' (b # xs)"
    using inv frame ret p t count_of_update [OF t, of removes Add_linked]
    by (auto simp: inv_defs nth_list_update target_def cursor_def)
  ultimately show ?thesis using mem' by (simp add: rcu_inv_def)
qed

lemma unlink_keeps:
  assumes inv: "rcu_inv K repr live w xs" and t: "t < length (threads w)"
    and p: "removes (threads w ! t)" "retired (threads w ! t) = []" "waits_for (threads w ! t) = []"
    and p': "retired p' = [a]" "fresh p' = []" "waits_for p' = []" "target p' = []" "reads_at p' = []" "removes p'"
    and s': "repr (books s') xs'" "heap s' = heap (shared w)"
      "rcu_pending s' = rcu_pending (shared w)" "kmem_state s' = kmem_state (shared w)"
    and a: "mset xs' + {#a#} = mset xs + mset (fresh (threads w ! t))"
      "kl_next (k_list K) (books s') a \<in> insert HEAD (set xs')"
    and frame: "\<And>c. c \<notin> set (HEAD # xs @ xs') \<Longrightarrow> kl_next (k_list K) (books s') c = kl_next (k_list K) (books (shared w)) c"
  shows "rcu_inv K repr live (moved w t p' s' (grace w)) xs'" (is "rcu_inv K repr live ?w' _")
proof -
  have mem: "memory_inv repr live w xs" and rd: "reader_inv K w xs" using inv by (simp_all add: rcu_inv_def)
  have one: "count_of removes (threads w) \<le> 1" using inv by (simp add: inv_defs)
  have mem': "memory_inv repr live ?w' xs'"
    by (rule memory_inv_moved [OF mem t]) (use mem p p' s' a(1) in \<open>auto simp: memory_inv_def owned_def ac_simps\<close>)
  have ret: "retired_in (threads w) = {}" "retired_in ((threads w)[t := p']) = {a}"
    using retired_in_only [OF one t p(1)] p p' by auto
  have sub: "set xs \<subseteq> set xs' \<union> {a}" using arg_cong [OF a(1), of set_mset] by auto
  have "reader_inv K ?w' xs'"
    by (rule reader_inv_relink [OF mem rd t mem' frame]) (use ret p p' s' sub in auto)
  moreover have "target (threads w ! u) = []" if "u < length (threads w)" "u \<noteq> t" for u
    using count_of_unique [OF one t p(1) that(1)] that(2) target_removes [of _ "threads w ! u"]
    by (cases "target (threads w ! u)") auto
  then have "remover_inv K ?w' xs'"
    using one p p' ret a(2) t count_of_update [OF t, of removes p'] by (auto simp: remover_inv_def nth_list_update)
  ultimately show ?thesis using mem' by (simp add: rcu_inv_def)
qed

lemma replace_keeps:
  assumes inv: "rcu_inv K repr live w xs" and t: "t < length (threads w)" and p: "threads w ! t = Locked u i async a b"
    and s': "s' = (shared w)\<lparr>books := kl_replace (k_list K) a b (books (shared w))\<rparr>"
  shows "\<exists>ys. rcu_inv K repr live (moved w t (Replaced u i async a) s' (grace w)) ys"
proof -
  have mem: "memory_inv repr live w xs" using inv by (simp add: rcu_inv_def)
  have "a \<in> set xs" using inv_thread(1) [OF inv t] p by (simp add: target_def)
  then obtain us vs where xs: "xs = us @ a # vs" using split_list by metis
  have "b \<in># holdings (threads w)" using in_holdings [OF t, of b] p by (simp add: owned_def)
  then have "b \<in> dom (heap (shared w))" "b \<notin> set xs" using memory_invD(3,4) [OF mem] by auto
  then have b: "b \<notin> set (HEAD # us @ a # vs)" using mem xs by (auto simp: memory_inv_def)
  have r: "repr (books (shared w)) (us @ a # vs)" using mem xs by (simp add: memory_inv_def)
  have "rcu_inv K repr live (moved w t (Replaced u i async a) s' (grace w)) (us @ b # vs)"
  proof (rule unlink_keeps [OF inv t])
    show "repr (books s') (us @ b # vs)" using repr_replace [OF r b] s' by simp
    show "kl_next (k_list K) (books s') a \<in> insert HEAD (set (us @ b # vs))"
      using replace_keeps_next [OF r b] s' by (auto simp: first_of_def split: list.splits)
    show "kl_next (k_list K) (books s') c = kl_next (k_list K) (books (shared w)) c"
      if "c \<notin> set (HEAD # xs @ us @ b # vs)" for c
      using replace_frame [OF r b, of c] that xs s' by simp
  qed (use p s' xs in \<open>auto simp: target_def reads_at_def cursor_def\<close>)
  then show ?thesis by blast
qed

lemma delete_keeps:
  assumes inv: "rcu_inv K repr live w xs" and t: "t < length (threads w)"
    and p: "threads w ! t = At (ToDelete i async) a" "a \<noteq> HEAD"
    and s': "s' = (shared w)\<lparr>books := kl_del (k_list K) a (books (shared w))\<rparr>"
  shows "\<exists>ys. rcu_inv K repr live (moved w t (Removed async a) s' (grace w)) ys"
proof -
  have "a \<in> set xs" using inv_thread(1) [OF inv t] p by (simp add: target_def cursor_def)
  then obtain us vs where xs: "xs = us @ a # vs" using split_list by metis
  have r: "repr (books (shared w)) (us @ a # vs)" using inv xs by (simp add: inv_defs)
  have "rcu_inv K repr live (moved w t (Removed async a) s' (grace w)) (us @ vs)"
  proof (rule unlink_keeps [OF inv t])
    show "repr (books s') (us @ vs)" using repr_del [OF r] s' by simp
    show "kl_next (k_list K) (books s') a \<in> insert HEAD (set (us @ vs))"
      using del_keeps_next [OF r] s' by (auto simp: first_of_def split: list.splits)
    show "kl_next (k_list K) (books s') c = kl_next (k_list K) (books (shared w)) c"
      if "c \<notin> set (HEAD # xs @ us @ vs)" for c
      using del_frame [OF r, of c] that xs s' by simp
  qed (use p s' xs in \<open>auto simp: target_def reads_at_def cursor_def\<close>)
  then show ?thesis by blast
qed

text \<open>All other moves.\<close>

lemma silent_keeps:
  assumes inv: "rcu_inv K repr live w xs" and t: "t < length (threads w)" and q: "silent live w xs t p' s'"
    and no: "\<And>async a msg. threads w ! t \<noteq> Reclaim async a msg"
  shows "\<exists>ys. rcu_inv K repr live (moved w t p' s' (next_grace w t (threads w ! t) p')) ys"
proof -
  have "count_of removes ((threads w)[t := p']) \<le> 1"
    using count_of_update [OF t, of removes p'] q inv by (cases "removes p'") (auto simp: silent_def inv_defs)
  then have "calm w xs t p' s'" using q by (simp add: calm_def silent_def)
  moreover have "grace_kept w t p' (next_grace w t (threads w ! t) p')"
    using reads_in_section [of _ p'] by (intro next_grace_kept no) (cases "reads_at p'"; auto)
  ultimately have "rcu_inv K repr live (moved w t p' s' (next_grace w t (threads w ! t) p')) xs"
    by (rule calm_keeps [OF inv t]) (use q in \<open>auto simp: silent_def owned_def\<close>)
  then show ?thesis by blast
qed

lemma start_keeps:
  assumes inv: "rcu_inv K repr live w xs" and t: "t < length (threads w)" and p: "threads w ! t = Ready c"
    and adv: "start K c (shared w) = Some (Inr (p', s'))"
  shows "\<exists>ys. rcu_inv K repr live (moved w t p' s' (next_grace w t (Ready c) p')) ys"
proof (cases "\<exists>b. p' = Add_new b")
  case True
  then obtain b where b: "p' = Add_new b" ..
  then obtain i n a where c: "c = Add_book i n a" using adv by (cases c) (auto simp: succeeds)
  have "count_of removes ((threads w)[t := p']) \<le> 1"
    using count_of_update [OF t, of removes p'] b p c inv by (simp add: inv_defs)
  then have "rcu_inv K repr live (moved w t p' s' (next_grace w t (Ready c) p')) xs"
    using adv b c p
    by (intro alloc_keeps [OF inv t, where a = b])
      (auto simp: succeeds calm_def target_def reads_at_def cursor_def grace_kept_def next_grace_def owned_def)
  then show ?thesis by blast
next
  case False
  with adv have "silent live w xs t p' s'"
    using p alloc_failed by (cases c) (auto simp: succeeds silent_def target_def reads_at_def cursor_def)
  then show ?thesis using silent_keeps [OF inv t] p by simp
qed

lemma at_keeps:
  assumes inv: "rcu_inv K repr live w xs" and t: "t < length (threads w)" and p: "threads w ! t = At g a"
    and adv: "proceed K (At g a) (shared w) = Some (Inr (p', s'))"
  shows "\<exists>ys. rcu_inv K repr live (moved w t p' s' (next_grace w t (At g a) p')) ys"
proof (cases "\<exists>async. p' = Removed async a")
  case True
  with adv obtain i async where "g = ToDelete i async" "p' = Removed async a" "a \<noteq> HEAD"
      "s' = (shared w)\<lparr>books := kl_del (k_list K) a (books (shared w))\<rparr>"
    by (cases g) (auto simp: succeeds split: if_splits)
  then show ?thesis using delete_keeps [OF inv t, of i async a s'] p by (simp add: next_grace_def)
next
  case False
  have on: "a \<in> set xs" if "goal_removes g" "a \<noteq> HEAD"
    using inv_thread(1) [OF inv t] that p by (simp add: target_def cursor_def)
  have may_read: "may_read w xs t a" if "\<not> goal_removes g" "a \<noteq> HEAD"
    using inv_thread(2) [OF inv t] that p by (simp add: reads_at_def cursor_def)
  have "silent live w xs t p' s'"
    using adv False p on may_read
    by (cases g) (auto simp: succeeds silent_def target_def reads_at_def cursor_def split: if_splits)
  then show ?thesis using silent_keeps [OF inv t] p by simp
qed

lemma next_keeps:
  assumes inv: "rcu_inv K repr live w xs" and t: "t < length (threads w)" and p: "threads w ! t = Next g a"
    and adv: "proceed K (Next g a) (shared w) = Some (Inr (p', s'))"
  shows "\<exists>ys. rcu_inv K repr live (moved w t p' s' (next_grace w t (Next g a) p')) ys"
proof -
  have a: "a \<noteq> HEAD" using adv inv by (auto simp: succeeds inv_defs)
  have on: "kl_next (k_list K) (books (shared w)) a \<in> insert HEAD (set xs)" if "goal_removes g"
    using inv_thread(1) [OF inv t] that p a next_on_list [OF inv_thread(5) [OF inv t]] by (simp add: target_def cursor_def)
  have may_read: "may_read w xs t (kl_next (k_list K) (books (shared w)) a)" if "\<not> goal_removes g"
    using inv_thread(2) [OF inv t] that p a may_read_next [OF inv _ a] by (simp add: reads_at_def cursor_def)
  have "silent live w xs t p' s'"
    using adv p on may_read by (auto simp: succeeds silent_def target_def reads_at_def cursor_def split: if_splits)
  then show ?thesis using silent_keeps [OF inv t] p by simp
qed

lemma found_keeps:
  assumes inv: "rcu_inv K repr live w xs" and t: "t < length (threads w)" and p: "threads w ! t = Found u i async a"
    and adv: "proceed K (Found u i async a) (shared w) = Some (Inr (p', s'))"
  shows "\<exists>ys. rcu_inv K repr live (moved w t p' s' (next_grace w t (Found u i async a) p')) ys"
proof (cases "\<exists>b. p' = Copied u i async a b")
  case True
  then obtain b where b: "p' = Copied u i async a b" ..
  have on: "a \<in> set xs" using inv_thread(1) [OF inv t] p by (simp add: target_def)
  have "count_of removes ((threads w)[t := p']) \<le> 1"
    using count_of_update [OF t, of removes p'] b p inv by (simp add: inv_defs)
  then have "rcu_inv K repr live (moved w t p' s' (next_grace w t (Found u i async a) p')) xs"
    using adv b p on
    by (intro alloc_keeps [OF inv t, where a = b])
      (auto simp: succeeds calm_def target_def reads_at_def cursor_def grace_kept_def next_grace_def owned_def)
  then show ?thesis by blast
next
  case False
  with adv have "silent live w xs t p' s'"
    using p alloc_failed by (auto simp: succeeds silent_def target_def reads_at_def cursor_def)
  then show ?thesis using silent_keeps [OF inv t] p by simp
qed

lemma step_keeps:
  assumes inv: "rcu_inv K repr live w xs" "sync_inv w" and run: "runnable w t" and step: "thread_step K t w = Some (Inr w')"
  shows "\<exists>ys. rcu_inv K repr live w' ys"
proof -
  from run have t: "t < length (threads w)" by (simp add: runnable_def)
  from step obtain p' s' where adv: "proceed K (threads w ! t) (shared w) = Some (Inr (p', s'))"
    and w': "w' = moved w t p' s' (next_grace w t (threads w ! t) p')" by (rule thread_stepE)
  note keeps = silent_keeps [OF inv(1) t] and tgt = inv_thread(1) [OF inv(1) t] and first = inv_thread(6) [OF inv(1) t]
  show ?thesis
  proof (cases "threads w ! t")
    case (Ready c)
    with adv w' start_keeps [OF inv(1) t] show ?thesis by simp
  next
    case (At g a)
    with adv w' at_keeps [OF inv(1) t At, of p' s'] show ?thesis by simp
  next
    case (Next g a)
    with adv w' next_keeps [OF inv(1) t Next, of p' s'] show ?thesis by simp
  next
    case (Found u i async a)
    with adv w' found_keeps [OF inv(1) t Found, of p' s'] show ?thesis by simp
  next
    case (Locked u i async a b)
    with adv w' replace_keeps [OF inv(1) t Locked] show ?thesis by (auto simp: succeeds next_grace_def)
  next
    case (Add_locked b)
    with adv w' add_keeps [OF inv(1) t Add_locked, of s'] show ?thesis
      by (intro exI [of _ "b # xs"]) (auto simp: succeeds next_grace_def)
  next
    case (Reclaim async a msg)
    then have "rcu_inv K repr live (moved w t p' s' ((grace w)(a := readers w))) xs"
      using adv by (intro grace_begins [OF inv t Reclaim]) (auto simp: succeeds split: if_splits)
    with w' Reclaim show ?thesis by (auto simp: next_grace_def)
  next
    case (Wait a msg)
    then have "rcu_inv K repr live (moved w t (Done 0) s' (grace w)) xs"
      using adv run by (intro free_waited [OF inv(1) kernel_memory_axioms t Wait]) (auto simp: succeeds runnable_def)
    with w' Wait adv show ?thesis by (auto simp: next_grace_def succeeds)
  next
    case (Enter g)
    with adv first have "silent live w xs t p' s'"
      by (auto simp: succeeds silent_def target_def reads_at_def cursor_def may_read_def split: if_splits)
    with keeps w' Enter show ?thesis by simp
  qed (use adv w' keeps [of p' s'] tgt in
      \<open>auto simp: succeeds silent_def target_def reads_at_def cursor_def split: if_splits\<close>)
qed

lemma call_keeps:
  assumes inv: "rcu_inv K repr live w xs" and t: "t < length (threads w)" "threads w ! t = Done r" and "one_remover w c"
  shows "rcu_inv K repr live (w\<lparr>threads := (threads w)[t := Ready c]\<rparr>) xs"
proof -
  have "count_of removes ((threads w)[t := Ready c]) \<le> 1"
    using count_of_update [OF t(1), of removes "Ready c"] inv t(2) assms(4) count_of_none [of removes "threads w"]
    by (cases "op_removes c") (auto simp: one_remover_def inv_defs)
  then have "rcu_inv K repr live (moved w t (Ready c) (shared w) (grace w)) xs"
    using t(2) by (intro calm_keeps [OF inv t(1)])
      (auto simp: calm_def target_def reads_at_def cursor_def grace_kept_def owned_def)
  moreover have "w\<lparr>threads := (threads w)[t := Ready c]\<rparr> = moved w t (Ready c) (shared w) (grace w)" by (cases w) simp
  ultimately show ?thesis by (simp only:)
qed

lemma boot_inv: "rcu_inv K repr live (boot K m n) []"
  by (auto simp: inv_defs boot_def fresh_library_def repr_init holdings_def owned_def count_of_def retired_in_def
      target_def reads_at_def cursor_def)

lemma world_step_keeps:
  assumes "world_step K one_remover w e w'" and "sync_inv w" and "rcu_inv K repr live w xs"
  shows "\<exists>ys. rcu_inv K repr live w' ys"
  using assms(1)
proof cases
  case (called t r c)
  with call_keeps [OF assms(3)] show ?thesis by blast
next
  case (stepped t)
  with step_keeps [OF assms(3,2)] show ?thesis by blast
next
  case (reclaimed a)
  with free_queued [OF assms(3) kernel_memory_axioms] show ?thesis by blast
qed

end

text \<open>The contracts of the kernel make the ownership of every book an invariant of the shared library.\<close>

sublocale rcu_client \<subseteq> shared: inductive_invariant "\<lambda>w. \<exists>m n. w = boot K m n"
    "\<lambda>w. sync_inv w \<and> (\<exists>xs. rcu_inv K repr live w xs)" "world_step K one_remover"
proof
  show "sync_inv w \<and> (\<exists>xs. rcu_inv K repr live w xs)" if "\<exists>m n. w = boot K m n" for w
    using that by (auto intro: sync_inv_boot boot_inv)
  show "sync_inv w' \<and> (\<exists>xs. rcu_inv K repr live w' xs)"
    if "world_step K one_remover w e w'" "sync_inv w \<and> (\<exists>xs. rcu_inv K repr live w xs)" for w e w'
    using that step_sync world_step_keeps by blast
qed

context rcu_client
begin

lemma reachable_inv: "reachable K one_remover m n w \<Longrightarrow> \<exists>xs. rcu_inv K repr live w xs"
  by (auto simp: reachable_def dest: shared.reached_inv [rotated, OF _ exI, OF _ exI, OF _ refl])

text \<open>The only fault left.\<close>

lemma thread_fault:
  assumes inv: "rcu_inv K repr live w xs" "sync_inv w" and run: "runnable w t"
    and fault: "proceed K (threads w ! t) (shared w) = Some (Inl e)"
  shows "\<exists>a. threads w ! t = Stale a \<and> e = UseAfterFree a"
proof -
  from run have t: "t < length (threads w)" by (simp add: runnable_def)
  have lock: "holds_lock (threads w ! t) \<Longrightarrow> books_lock (shared w)" "in_section (threads w ! t) \<Longrightarrow> 0 < rcu_nesting (shared w)"
    using inv(2) count_of_pos [OF t, of holds_lock] count_of_pos [OF t, of in_section] by (auto simp: sync_inv_def)
  have tgt: "a \<in> set (target (threads w ! t)) \<Longrightarrow> a \<in> dom (heap (shared w))" for a
    using inv_thread(1,4) [OF inv(1) t] by blast
  have own: "a \<in> set (owned (threads w ! t)) \<Longrightarrow> a \<in> dom (heap (shared w))" for a
    using inv_thread(3) [OF inv(1) t] by blast
  have cur: "a \<in> set (reads_at (threads w ! t)) \<Longrightarrow> a \<noteq> HEAD \<Longrightarrow> a \<in> dom (heap (shared w))" for a
    using inv_thread(2) [OF inv(1) t] may_read_in_heap [of repr live w xs K t a] inv(1) unfolding rcu_inv_def by blast
  show ?thesis
  proof (cases "threads w ! t")
    case (At g a)
    with fault lock tgt [of a] cur [of a] show ?thesis
      by (cases g) (auto simp: faults succeeds target_def reads_at_def cursor_def split: if_splits)
  next
    case (Ready c)
    with fault run show ?thesis by (cases c) (auto simp: faults succeeds runnable_def)
  next
    case (Next g a)
    then have "a \<noteq> HEAD" using inv(2) t by (auto simp: sync_inv_def)
    with Next fault tgt [of a] cur [of a] show ?thesis
      by (cases "goal_removes g") (auto simp: faults target_def reads_at_def cursor_def)
  qed (use fault lock run own tgt cur in \<open>auto simp: faults succeeds target_def owned_def reads_at_def cursor_def
      runnable_def split: if_splits\<close>)
qed

end

lemma demo_rcu_client: "rcu_client demo_kern ring pool_live"
  by (simp add: rcu_client_def ptr_rcu.rcu_list_axioms pool.kernel_memory_axioms)

interpretation demo_rcu: rcu_client demo_kern ring pool_live
  by (rule demo_rcu_client)

section \<open>Moves always have an outcome\<close>

definition returns :: "('s, 'a) cmd \<Rightarrow> bool" where
  "returns c \<longleftrightarrow> (\<forall>s. c s \<noteq> None)"

named_theorems returning \<open>commands that always return or fault\<close>

lemma bind_returns [returning]: "returns m \<Longrightarrow> (\<And>x. returns (f x)) \<Longrightarrow> returns (bind_cmd m f)"
  by (auto simp: returns_def bind_cmd_def split: option.splits sum.splits)

lemma primitives_return [returning]:
  "returns (return x)" "returns (modify g)" "returns (gets h)" "returns (guard_cmd P d)" "returns (book_at a)" "returns (kzalloc K)"
  by (auto simp: returns_def cmd_defs book_at_def kzalloc_def split: option.splits prod.splits)

lemma commands_return [returning]:
  "returns rcu_read_lock" "returns rcu_read_unlock" "returns spin_lock" "returns spin_unlock" "returns (on_list f)"
  "returns (klog_line fmt args)" "returns (store_book a b)" "returns (next_book K a)" "returns (call_rcu a)" "returns (kfree K a)"
  unfolding rcu_read_lock_def rcu_read_unlock_def spin_lock_def spin_unlock_def on_list_def klog_line_def store_book_def
    next_book_def call_rcu_def kfree_def
  by (intro returning)+

lemma finish_returns [returning]: "returns (finish K msg)"
  unfolding finish_def by (auto intro!: returning split: option.splits)

lemma proceed_returns: "returns (proceed K p)"
proof (cases p)
  case (Ready c)
  then show ?thesis by (cases c) (auto intro!: returning split: option.splits)
next
  case (At g a)
  then show ?thesis by (cases g) (auto intro!: returning)
qed (auto intro!: returning split: option.splits)

section \<open>Scripted runs\<close>

definition demo_boot :: "(links, pool) world" where
  "demo_boot = boot demo_kern \<lparr>used = [], fails = []\<rparr> 2"

text \<open>Thread 0 adds book 7, thread 1 looks for its flag and leaves its section, thread 0 deletes and frees the book.\<close>

definition late_reader :: "action list" where
  "late_reader = Call 0 (Add_book 7 ''SICP'' ''HA'') # replicate 4 (Move 0) @
     Call 1 (Is_borrowed_book 7) # replicate 3 (Move 1) @ Call 0 (Delete_book 7 0) # replicate 6 (Move 0)"

text \<open>Both threads find book 7 for borrowing before either replaces it.\<close>

definition two_borrowers :: "action list" where
  "two_borrowers = Call 0 (Add_book 7 ''SICP'' ''HA'') # replicate 4 (Move 0) @
     Call 0 (Borrow_book 7 0) # Call 1 (Borrow_book 7 0) # replicate 3 (Move 0) @ replicate 4 (Move 1) @
     replicate 4 (Move 0) @ [Move 1]"

definition at_end :: "(('l, 'm) world \<Rightarrow> bool) \<Rightarrow> ('l, 'm) world option \<Rightarrow> bool" where
  "at_end P r = (case r of None \<Rightarrow> False | Some w \<Rightarrow> P w)"

lemma late_reader_run:
  "at_end (\<lambda>w. runnable w 1 \<and> threads w ! 1 = Stale 1 \<and> heap (shared w) 1 = None)
     (play (happens demo_kern one_remover) demo_boot late_reader)"
  by code_simp

lemma two_borrowers_run:
  "at_end (\<lambda>w. runnable w 1 \<and> threads w ! 1 = Locked Borrow 7 0 1 2 \<and> ring (books (shared w)) [3])
     (play (happens demo_kern any_call) demo_boot two_borrowers)"
  by code_simp

lemma at_end_reachable:
  assumes "at_end P (play (happens demo_kern admit) demo_boot es)"
  obtains w where "reachable demo_kern admit \<lparr>used = [], fails = []\<rparr> 2 w" and "P w"
proof -
  from assms obtain w where w: "play (happens demo_kern admit) demo_boot es = Some w" "P w"
    by (auto simp: at_end_def split: option.splits)
  then have "reachable demo_kern admit \<lparr>used = [], fails = []\<rparr> 2 w"
    unfolding reachable_def demo_boot_def world.play_iff by blast
  with w(2) show ?thesis by (rule that [rotated])
qed

section \<open>Properties\<close>

text \<open>
  C9: whatever calls are made, from however many threads, the library never deadlocks: as long as a
  call is in progress, some thread in a call can move, and its move has an outcome.
\<close>

theorem calls_never_deadlock:
  assumes "reachable K admit m n w" and "t < n" and "active (threads w ! t)"
  shows "\<exists>u < n. runnable w u \<and> active (threads w ! u) \<and> thread_step K u w \<noteq> None"
proof -
  from length_threads [OF assms(1)] assms(2,3) some_thread_runs [OF reachable_sync [OF assms(1)]]
  obtain u where "runnable w u" "active (threads w ! u)" by blast
  moreover from this length_threads [OF assms(1)] have "u < n" by (simp add: runnable_def)
  moreover have "thread_step K u w \<noteq> None"
    using proceed_returns [of K "threads w ! u"] by (auto simp: returns_def thread_step_def split: option.splits sum.splits)
  ultimately show ?thesis by blast
qed

theorem calls_never_deadlock_witness:
  "\<exists>w u. reachable demo_kern any_call \<lparr>used = [], fails = []\<rparr> 2 w \<and> threads w ! 1 = Locked Borrow 7 0 1 2 \<and>
     u < 2 \<and> runnable w u \<and> active (threads w ! u) \<and> thread_step demo_kern u w \<noteq> None"
proof -
  obtain w where w: "reachable demo_kern any_call \<lparr>used = [], fails = []\<rparr> 2 w" "threads w ! 1 = Locked Borrow 7 0 1 2"
    using at_end_reachable [OF two_borrowers_run] by metis
  with calls_never_deadlock [OF w(1), of 1] show ?thesis by auto
qed

text \<open>
  C4: as long as at most one thread at a time removes or updates books, whatever the other threads
  add or read and however the calls interleave, the links always represent a list, every allocated
  book is on the list, or queued for its callback, or owned by exactly one thread, and never two of
  these, and every entry a traversal stands on is allocated.
\<close>

theorem shared_library_invariant:
  assumes "rcu_list (k_list K) repr" and "kernel_memory (k_mem K) live" and "reachable K one_remover m n w"
  shows "\<exists>xs. repr (books (shared w)) xs \<and>
     mset xs + mset (rcu_pending (shared w)) + mset (concat (map owned (threads w))) = mset_set (dom (heap (shared w))) \<and>
     (\<forall>t < n. \<forall>g a. (threads w ! t = At g a \<or> threads w ! t = Next g a) \<and> a \<noteq> HEAD \<longrightarrow> heap (shared w) a \<noteq> None)"
proof -
  have c: "rcu_client K repr live" using assms(1,2) by (simp add: rcu_client_def)
  obtain xs where inv: "rcu_inv K repr live w xs" using rcu_client.reachable_inv [OF c assms(3)] by blast
  have "a \<in> dom (heap (shared w))" if "t < n" "threads w ! t = At g a \<or> threads w ! t = Next g a" "a \<noteq> HEAD" for t g a
  proof -
    from that have t: "t < length (threads w)" using length_threads [OF assms(3)] by simp
    have "goal_removes g \<Longrightarrow> a \<in> set xs" "\<not> goal_removes g \<Longrightarrow> may_read w xs t a"
      using rcu_client.inv_thread(1,2) [OF c inv t] that by (auto simp: target_def reads_at_def cursor_def)
    then show ?thesis
      using rcu_client.inv_thread(4) [OF c inv t] may_read_in_heap [of repr live w xs K t a] inv that(3)
      unfolding rcu_inv_def by blast
  qed
  then show ?thesis using inv by (intro exI [of _ xs]) (auto simp: inv_defs holdings_def)
qed

theorem shared_library_invariant_witness:
  "\<exists>w xs. reachable demo_kern one_remover \<lparr>used = [], fails = []\<rparr> 2 w \<and> threads w ! 1 = Stale 1 \<and> ring (books (shared w)) xs \<and>
     mset xs + mset (rcu_pending (shared w)) + mset (concat (map owned (threads w))) = mset_set (dom (heap (shared w)))"
proof -
  obtain w where w: "reachable demo_kern one_remover \<lparr>used = [], fails = []\<rparr> 2 w" "threads w ! 1 = Stale 1"
    using at_end_reachable [OF late_reader_run] by metis
  with shared_library_invariant [of demo_kern ring pool_live, OF _ _ w(1)] show ?thesis
    by (auto simp: ptr_rcu.rcu_list_axioms pool.kernel_memory_axioms)
qed

text \<open>
  C3: under the same discipline no interleaving can touch a freed book, free one twice, unlock what is
  not locked or call back into freed memory, except at one place: the flag that \<^verbatim>\<open>is_borrowed_book\<close>
  reads after its \<^verbatim>\<open>rcu_read_unlock\<close>.
\<close>

theorem only_stale_reads_fault:
  assumes "rcu_list (k_list K) repr" and "kernel_memory (k_mem K) live" and "reachable K one_remover m n w"
    and "can_fault K w e"
  shows "\<exists>t a. t < n \<and> threads w ! t = Stale a \<and> e = UseAfterFree a"
proof -
  have c: "rcu_client K repr live" using assms(1,2) by (simp add: rcu_client_def)
  obtain xs where inv: "rcu_inv K repr live w xs" using rcu_client.reachable_inv [OF c assms(3)] by blast
  from assms(4) consider (thread) t where "runnable w t" "thread_step K t w = Some (Inl e)"
    | (callback) a where "callback_due w a" "callback_step K a w = Some (Inl e)" by (auto simp: can_fault_def)
  then show ?thesis
  proof cases
    case thread
    then have "proceed K (threads w ! t) (shared w) = Some (Inl e)"
      by (auto simp: thread_step_def split: option.splits sum.splits)
    with rcu_client.thread_fault [OF c inv reachable_sync [OF assms(3)] thread(1)] thread(1) length_threads [OF assms(3)]
    show ?thesis by (auto simp: runnable_def)
  next
    case callback
    then have "heap (shared w) a = None"
      by (auto simp: callback_step_def book_reclaim_callback_def faults succeeds split: option.splits sum.splits)
    moreover have "a \<in> dom (heap (shared w))"
      using callback(1) inv memory_invD(2) [of repr live w xs a] by (simp add: callback_due_def rcu_inv_def)
    ultimately show ?thesis by auto
  qed
qed

text \<open>
  That fault does happen: thread 1 has found the book and left its section, thread 0 deletes the
  book and, as no reader is left, frees it, and thread 1 reads its flag.
\<close>

theorem stale_flag_read:
  "\<exists>w. reachable demo_kern one_remover \<lparr>used = [], fails = []\<rparr> 2 w \<and> can_fault demo_kern w (UseAfterFree 1)"
proof -
  obtain w where "reachable demo_kern one_remover \<lparr>used = [], fails = []\<rparr> 2 w"
      "runnable w 1 \<and> threads w ! 1 = Stale 1 \<and> heap (shared w) 1 = None"
    by (rule at_end_reachable [OF late_reader_run])
  moreover from this have "thread_step demo_kern 1 w = Some (Inl (UseAfterFree 1))"
    by (simp add: thread_step_def bind_cmd_def book_at_def)
  ultimately show ?thesis unfolding can_fault_def by blast
qed

text \<open>The premises of the safety property hold in the state of the late reader.\<close>

theorem only_stale_reads_fault_witness:
  "\<exists>w t a. reachable demo_kern one_remover \<lparr>used = [], fails = []\<rparr> 2 w \<and> can_fault demo_kern w (UseAfterFree 1) \<and>
     t < 2 \<and> threads w ! t = Stale a \<and> UseAfterFree 1 = UseAfterFree a"
proof -
  obtain w where w: "reachable demo_kern one_remover \<lparr>used = [], fails = []\<rparr> 2 w"
      "runnable w 1 \<and> threads w ! 1 = Stale 1 \<and> heap (shared w) 1 = None"
    by (rule at_end_reachable [OF late_reader_run])
  then have f: "can_fault demo_kern w (UseAfterFree 1)"
    unfolding can_fault_def by (intro disjI1 exI [of _ 1]) (simp add: thread_step_def bind_cmd_def book_at_def)
  from only_stale_reads_fault [of demo_kern ring pool_live, OF _ _ w(1) f] w f show ?thesis
    by (auto simp: ptr_rcu.rcu_list_axioms pool.kernel_memory_axioms)
qed

end
