(* ===== verification/Rcu_Races.thy ===== *)
theory Rcu_Races
  imports Rcu_Concurrent
begin

text \<open>
  What the shared library of \<^verbatim>\<open>ksync/rcu_example/list_rcu_example.c\<close> does without the discipline of one remover at a
  time. \<^verbatim>\<open>borrow_book\<close> looks for the book in a read-side section only and does not look again when it holds
  the lock, so two calls can both replace the same book and both free it. The run is evaluated for every kernel list and allocator that keep
  their contracts and every identifier of the book.
\<close>

section \<open>The run\<close>






section \<open>The property\<close>



end
