(* ===== verification/Rcu_Interleaving.thy ===== *)
theory Rcu_Interleaving
  imports Rcu_Concurrent
begin

text \<open>
  The two views of \<^verbatim>\<open>ksync/rcu_example/list_rcu_example.c\<close> agree: what an operation of \<open>Rcu_Books\<close> does in
  one piece is what a thread of \<open>Rcu_Concurrent\<close> does that makes the call and then moves alone until it
  returns, and the end of a grace period is the callbacks run one after the other. So the
  results about sequences of operations hold of the interleavings in which calls do not overlap.
\<close>

section \<open>A thread that moves alone\<close>

inductive solo :: "('l, 'm) kern \<Rightarrow> pc \<Rightarrow> ('l, 'm) library \<Rightarrow> pc \<Rightarrow> ('l, 'm) library \<Rightarrow> bool" for K where
  solo_refl: "solo K p s p s"
| solo_step: "proceed K p s = Some (Inr (p1, s1)) \<Longrightarrow> solo K p1 s1 p' s' \<Longrightarrow> solo K p s p' s'"

lemma solo_trans: "solo K p s p1 s1 \<Longrightarrow> solo K p1 s1 p' s' \<Longrightarrow> solo K p s p' s'"
  by (induction rule: solo.induct) (auto intro: solo.intros)

text \<open>A body that goes on leaves the state alone and has seen a book that is not the one wanted.\<close>

definition searches :: "('l, 'm) kern \<Rightarrow> goal \<Rightarrow> (addr \<Rightarrow> (('l, 'm) library, 'r option) cmd) \<Rightarrow> bool" where
  "searches K g body \<longleftrightarrow> (\<forall>p s s1. body p s = Some (Inr (None, s1)) \<longrightarrow>
     s1 = s \<and> (\<exists>x. heap s p = Some x \<and> b_id x \<noteq> wanted g))"

lemma solo_miss:
  assumes "p \<noteq> HEAD" and "heap s p = Some x" and "b_id x \<noteq> wanted g"
    and "solo K (At g (kl_next (k_list K) (books s) p)) s p' s'"
  shows "solo K (At g p) s p' s'"
proof -
  have "proceed K (At g p) s = Some (Inr (Next g p, s))" using assms(1-3) by (simp add: succeeds)
  moreover have "proceed K (Next g p) s = Some (Inr (At g (kl_next (k_list K) (books s) p), s))"
    using assms(2) by (simp add: succeeds)
  ultimately show ?thesis using assms(4) by (blast intro: solo_step)
qed

definition loop_ends ::
  "('l, 'm) kern \<Rightarrow> goal \<Rightarrow> (addr \<Rightarrow> (('l, 'm) library, 'r option) cmd) \<Rightarrow> addr \<Rightarrow> ('l, 'm) library \<Rightarrow> 'r option \<Rightarrow>
   ('l, 'm) library \<Rightarrow> bool" where
  "loop_ends K g body p s res s' \<longleftrightarrow> (case res of
      None \<Rightarrow> s' = s \<and> solo K (At g p) s (At g HEAD) s
    | Some v \<Rightarrow> \<exists>q. q \<noteq> HEAD \<and> body q s = Some (Inr (Some v, s')) \<and> solo K (At g p) s (At g q) s)"

lemma loop_ends_miss:
  assumes "p \<noteq> HEAD" and "heap s p = Some x" and "b_id x \<noteq> wanted g"
    and "loop_ends K g body (kl_next (k_list K) (books s) p) s res s'"
  shows "loop_ends K g body p s res s'"
  using assms(4) solo_miss [OF assms(1-3)] by (cases res) (auto simp: loop_ends_def)

lemma solo_loop:
  assumes "for_each (next_book K) body p s = Some (Inr (res, s'))" and "searches K g body"
  shows "loop_ends K g body p s res s'"
proof -
  let ?P = "\<lambda>nxt body p s (r :: fault + _). nxt = next_book K \<longrightarrow> searches K g body \<longrightarrow> (\<forall>res s'. r = Inr (res, s') \<longrightarrow> loop_ends K g body p s res s')"
  have "?P (next_book K) body p s (Inr (res, s'))"
  proof (rule for_each.raw_induct [where P = ?P, OF _ assms(1)], intro impI allI)
    fix rec nxt body p s r res s'
    assume IH: "\<And>nxt body p s r. rec nxt body p s = Some r \<Longrightarrow> ?P nxt body p s r"
      and eq: "(if p = HEAD then Some (Inr (None, s))
          else (case body p s of None \<Rightarrow> None | Some (Inl e) \<Rightarrow> Some (Inl e)
            | Some (Inr (r, s1)) \<Rightarrow>
                (case r of Some v \<Rightarrow> Some (Inr (Some v, s1))
                 | None \<Rightarrow> (case nxt p s1 of None \<Rightarrow> None | Some (Inl e) \<Rightarrow> Some (Inl e)
                     | Some (Inr (q, s2)) \<Rightarrow> rec nxt body q s2)))) = Some r"
      and nxt: "nxt = next_book K" and body: "searches K g body" and r: "r = Inr (res, s')"
    show "loop_ends K g body p s res s'"
    proof (cases "p = HEAD")
      case True
      with eq r show ?thesis by (auto simp: loop_ends_def intro: solo_refl)
    next
      case False
      with eq r obtain b s1 where b: "body p s = Some (Inr (b, s1))" by (auto split: option.splits sum.splits)
      show ?thesis
      proof (cases b)
        case (Some v)
        with b eq r False show ?thesis by (auto simp: loop_ends_def intro!: exI [of _ p] intro: solo_refl)
      next
        case None
        with b body obtain x where x: "s1 = s" "heap s p = Some x" "b_id x \<noteq> wanted g"
          unfolding searches_def by blast
        then have "next_book K p s = Some (Inr (kl_next (k_list K) (books s) p, s))" by (simp add: succeeds)
        with eq r b None x nxt False have "rec nxt body (kl_next (k_list K) (books s) p) s = Some (Inr (res, s'))" by simp
        from IH [OF this] nxt body loop_ends_miss [OF False x(2,3)] show ?thesis by blast
      qed
    qed
  qed
  with assms(2) show ?thesis by blast
qed

section \<open>Each operation, alone\<close>

lemma solo_reclaim:
  assumes "reclaim K async b s = Some (Inr (u, s1))" and "finish K msg s1 = Some (Inr (p', s'))"
  shows "solo K (Reclaim async b msg) s p' s'"
proof (cases "async \<noteq> 0")
  case True
  with assms have "proceed K (Reclaim async b msg) s = Some (Inr (p', s'))" by (simp add: reclaim_def bind_cmd_def)
  then show ?thesis by (blast intro: solo.intros)
next
  case False
  with assms(1) have "kfree K b s = Some (Inr (u, s1))"
    by (auto simp: reclaim_def synchronize_rcu_def may_sleep_def succeeds)
  with assms(2) have "proceed K (Wait b msg) s = Some (Inr (p', s'))" by (simp add: bind_cmd_def)
  moreover from False have "proceed K (Reclaim async b msg) s = Some (Inr (Wait b msg, s))" by (simp add: succeeds)
  ultimately show ?thesis by (blast intro: solo.intros)
qed

lemma solo_search:
  assumes "start K c s = Some (Inr (Enter g, s0))" and "for_each_book K body s0 = Some (Inr (res, s1))" and "searches K g body"
  shows "\<exists>p. solo K (Ready c) s (At g p) s0 \<and> (case res of None \<Rightarrow> p = HEAD \<and> s1 = s0 | Some v \<Rightarrow> p \<noteq> HEAD \<and> body p s0 = Some (Inr (Some v, s1)))"
proof -
  let ?p = "kl_next (k_list K) (books s0) HEAD"
  have "proceed K (Ready c) s = Some (Inr (Enter g, s0))" using assms(1) by simp
  moreover have "proceed K (Enter g) s0 = Some (Inr (At g ?p, s0))" by (simp add: succeeds)
  ultimately have enter: "solo K (Ready c) s (At g ?p) s0" by (blast intro: solo.intros)
  from assms(2) have "for_each (next_book K) body ?p s0 = Some (Inr (res, s1))" by (simp add: for_each_book_def)
  from solo_loop [OF this assms(3)] solo_trans [OF enter] show ?thesis by (cases res) (auto simp: loop_ends_def)
qed

lemma searches_bodies:
  "searches K (ToPrint i) (print_step i)" "searches K (ToTell i) (is_borrowed_step i)"
  "searches K (ToUpdate u i async) (find_to_update (refuses u) i)" "searches K (ToDelete i async) (delete_step K i async)"
  by (auto simp: searches_def print_step_def is_borrowed_step_def find_to_update_def delete_step_def succeeds split: if_splits)

lemma solo_add:
  assumes "exec_op K (Add_book i name author) s = Some (Inr (r, s'))"
  shows "solo K (Ready (Add_book i name author)) s (Done r) s'"
proof (cases "km_alloc (k_mem K) (kmem_state s)")
  case (Pair a m')
  show ?thesis
  proof (cases a)
    case None
    with assms Pair have "proceed K (Ready (Add_book i name author)) s = Some (Inr (Done r, s'))"
      by (auto simp: void_def add_book_def may_sleep_def succeeds)
    then show ?thesis by (blast intro: solo.intros)
  next
    case (Some n)
    let ?b = "\<lparr>b_id = i, b_name = strncpy 64 name, b_author = strncpy 64 author, b_borrow = 0\<rparr>"
    let ?s1 = "s\<lparr>kmem_state := m', heap := (heap s)(n \<mapsto> ?b)\<rparr>"
    from assms Pair Some have "\<not> books_lock s" and r: "r = 0" "s' = ?s1\<lparr>books := kl_add (k_list K) n (books s), books_lock := False\<rparr>"
      by (auto simp: void_def add_book_def may_sleep_def succeeds)
    then have "proceed K (Ready (Add_book i name author)) s = Some (Inr (Add_new n, ?s1))"
      "proceed K (Add_new n) ?s1 = Some (Inr (Add_locked n, ?s1\<lparr>books_lock := True\<rparr>))"
      "proceed K (Add_locked n) (?s1\<lparr>books_lock := True\<rparr>) =
         Some (Inr (Add_linked, ?s1\<lparr>books_lock := True, books := kl_add (k_list K) n (books s)\<rparr>))"
      "proceed K Add_linked (?s1\<lparr>books_lock := True, books := kl_add (k_list K) n (books s)\<rparr>) = Some (Inr (Done r, s'))"
      using Pair Some by (simp_all add: succeeds)
    then show ?thesis by (blast intro: solo.intros)
  qed
qed

lemma solo_print:
  assumes "exec_op K (Print_book i) s = Some (Inr (r, s'))"
  shows "solo K (Ready (Print_book i)) s (Done r) s'"
proof -
  let ?s0 = "s\<lparr>rcu_nesting := Suc (rcu_nesting s)\<rparr>"
  from assms obtain res s1 where loop: "for_each_book K (print_step i) ?s0 = Some (Inr (res, s1))"
      and fin: "(case res of Some v \<Rightarrow> return v | None \<Rightarrow> bind_cmd rcu_read_unlock (\<lambda>_. klog_line ''not exist book\<newline>'' [])) s1 = Some (Inr ((), s'))"
      and r: "r = 0"
    by (auto simp: void_def print_book_def succeeds)
  have "start K (Print_book i) s = Some (Inr (Enter (ToPrint i), ?s0))" by (simp add: succeeds)
  from solo_search [OF this loop searches_bodies(1)] obtain p where p: "solo K (Ready (Print_book i)) s (At (ToPrint i) p) ?s0"
      "case res of None \<Rightarrow> p = HEAD \<and> s1 = ?s0 | Some v \<Rightarrow> p \<noteq> HEAD \<and> print_step i p ?s0 = Some (Inr (Some v, s1))" by blast
  have "proceed K (At (ToPrint i) p) ?s0 = Some (Inr (Done r, s'))"
    using p(2) fin r by (cases res) (auto simp: print_step_def succeeds split: if_splits)
  then show ?thesis using p(1) by (blast intro: solo.intros solo_trans)
qed

lemma solo_tell:
  assumes "exec_op K (Is_borrowed_book i) s = Some (Inr (r, s'))"
  shows "solo K (Ready (Is_borrowed_book i)) s (Done r) s'"
proof -
  let ?s0 = "s\<lparr>rcu_nesting := Suc (rcu_nesting s)\<rparr>"
  from assms obtain res s1 where loop: "for_each_book K (is_borrowed_step i) ?s0 = Some (Inr (res, s1))"
      and fin: "(case res of Some v \<Rightarrow> return v | None \<Rightarrow> bind_cmd rcu_read_unlock (\<lambda>_.
         bind_cmd (klog_line ''not exist book\<newline>'' []) (\<lambda>_. return (-1)))) s1 = Some (Inr (r, s'))"
    by (auto simp: is_borrowed_book_def succeeds)
  have "start K (Is_borrowed_book i) s = Some (Inr (Enter (ToTell i), ?s0))" by (simp add: succeeds)
  from solo_search [OF this loop searches_bodies(2)] obtain p where p: "solo K (Ready (Is_borrowed_book i)) s (At (ToTell i) p) ?s0"
      "case res of None \<Rightarrow> p = HEAD \<and> s1 = ?s0 | Some v \<Rightarrow> p \<noteq> HEAD \<and> is_borrowed_step i p ?s0 = Some (Inr (Some v, s1))" by blast
  have "solo K (At (ToTell i) p) ?s0 (Done r) s'"
  proof (cases res)
    case None
    with p(2) fin have "proceed K (At (ToTell i) p) ?s0 = Some (Inr (Done r, s'))" by (auto simp: succeeds)
    then show ?thesis by (blast intro: solo.intros)
  next
    case (Some v)
    with p(2) fin have "proceed K (At (ToTell i) p) ?s0 = Some (Inr (Stale p, s'))" "proceed K (Stale p) s' = Some (Inr (Done r, s'))"
      by (auto simp: is_borrowed_step_def succeeds split: if_splits)
    then show ?thesis by (blast intro: solo.intros)
  qed
  with p(1) show ?thesis by (rule solo_trans)
qed

lemma solo_delete:
  assumes "exec_op K (Delete_book i async) s = Some (Inr (r, s'))"
  shows "solo K (Ready (Delete_book i async)) s (Done r) s'"
proof -
  let ?s0 = "s\<lparr>books_lock := True\<rparr>" and ?g = "ToDelete i async"
  from assms obtain res s1 where free: "\<not> books_lock s" and loop: "for_each_book K (delete_step K i async) ?s0 = Some (Inr (res, s1))"
      and fin: "(case res of Some v \<Rightarrow> return v | None \<Rightarrow> bind_cmd spin_unlock (\<lambda>_. klog_line ''not exist book\<newline>'' [])) s1 = Some (Inr ((), s'))"
      and r: "r = 0"
    by (auto simp: void_def delete_book_def succeeds)
  have "start K (Delete_book i async) s = Some (Inr (Enter ?g, ?s0))" using free by (simp add: succeeds)
  from solo_search [OF this loop searches_bodies(4)] obtain p where p: "solo K (Ready (Delete_book i async)) s (At ?g p) ?s0"
      "case res of None \<Rightarrow> p = HEAD \<and> s1 = ?s0 | Some v \<Rightarrow> p \<noteq> HEAD \<and> delete_step K i async p ?s0 = Some (Inr (Some v, s1))" by blast
  have "solo K (At ?g p) ?s0 (Done r) s'"
  proof (cases res)
    case None
    with p(2) fin r have "proceed K (At ?g p) ?s0 = Some (Inr (Done r, s'))" by (auto simp: succeeds)
    then show ?thesis by (blast intro: solo.intros)
  next
    case (Some v)
    let ?s2 = "?s0\<lparr>books := kl_del (k_list K) p (books s)\<rparr>"
    from Some p(2) fin have s': "s1 = s'" and rec: "reclaim K async p (?s2\<lparr>books_lock := False\<rparr>) = Some (Inr ((), s'))"
      and "p \<noteq> HEAD" "\<exists>x. heap s p = Some x \<and> b_id x = i"
      by (auto simp: delete_step_def succeeds split: if_splits)
    then have "proceed K (At ?g p) ?s0 = Some (Inr (Removed async p, ?s2))"
      "proceed K (Removed async p) ?s2 = Some (Inr (Reclaim async p None, ?s2\<lparr>books_lock := False\<rparr>))"
      by (auto simp: succeeds)
    moreover have "solo K (Reclaim async p None) (?s2\<lparr>books_lock := False\<rparr>) (Done r) s'"
      by (rule solo_reclaim [OF rec]) (simp add: succeeds done_lines_def r)
    ultimately show ?thesis by (blast intro: solo_step)
  qed
  with p(1) show ?thesis by (rule solo_trans)
qed

text \<open>The updaters, from the book they found.\<close>

lemma solo_update_found:
  assumes "heap s0 a = Some x"
    and "bind_cmd (kzalloc K) (\<lambda>n. case n of
           None \<Rightarrow> bind_cmd rcu_read_unlock (\<lambda>_. return (-1))
         | Some new_b \<Rightarrow>
             bind_cmd (book_at a) (\<lambda>x.
             bind_cmd (store_book new_b (x\<lparr>b_borrow := new_flag u\<rparr>)) (\<lambda>_.
             bind_cmd spin_lock (\<lambda>_.
             bind_cmd (on_list (kl_replace (k_list K) a new_b)) (\<lambda>_.
             bind_cmd spin_unlock (\<lambda>_.
             bind_cmd rcu_read_unlock (\<lambda>_.
             bind_cmd (reclaim K async a) (\<lambda>_.
             bind_cmd (klog_line (success_msg u) [FInt i, FUInt (k_preempt K False)]) (\<lambda>_.
             return 0))))))))) s0 = Some (Inr (r, s'))"
  shows "solo K (Found u i async a) s0 (Done r) s'"
proof (cases "km_alloc (k_mem K) (kmem_state s0)")
  case (Pair res m')
  show ?thesis
  proof (cases res)
    case None
    with assms(2) Pair have "proceed K (Found u i async a) s0 = Some (Inr (Done r, s'))" by (auto simp: succeeds)
    then show ?thesis by (blast intro: solo.intros)
  next
    case (Some n)
    from assms(2) Pair Some obtain y s6 where y: "((heap s0)(n \<mapsto> zeroed_book)) a = Some y" and lock: "\<not> books_lock s0" "0 < rcu_nesting s0"
      and rec: "reclaim K async a (s0\<lparr>kmem_state := m', heap := (heap s0)(n \<mapsto> y\<lparr>b_borrow := new_flag u\<rparr>),
          books := kl_replace (k_list K) a n (books s0), books_lock := False, rcu_nesting := rcu_nesting s0 - 1\<rparr>) = Some (Inr ((), s6))"
      and fin: "r = 0" "s' = s6\<lparr>klog := klog s6 @ [emit (success_msg u) [FInt i, FUInt (k_preempt K False)]]\<rparr>"
      by (auto simp: succeeds)
    let ?s1 = "s0\<lparr>kmem_state := m', heap := (heap s0)(n \<mapsto> y\<lparr>b_borrow := new_flag u\<rparr>)\<rparr>"
    let ?s2 = "?s1\<lparr>books_lock := True\<rparr>"
    let ?s3 = "?s2\<lparr>books := kl_replace (k_list K) a n (books s0)\<rparr>"
    let ?s4 = "?s3\<lparr>books_lock := False\<rparr>"
    let ?s5 = "?s4\<lparr>rcu_nesting := rcu_nesting s0 - 1\<rparr>"
    have "proceed K (Found u i async a) s0 = Some (Inr (Copied u i async a n, ?s1))" using y Pair Some by (auto simp: succeeds)
    moreover have "proceed K (Copied u i async a n) ?s1 = Some (Inr (Locked u i async a n, ?s2))" using lock by (simp add: succeeds)
    moreover have "proceed K (Locked u i async a n) ?s2 = Some (Inr (Replaced u i async a, ?s3))" by (simp add: succeeds)
    moreover have "proceed K (Replaced u i async a) ?s3 = Some (Inr (Unlocked u i async a, ?s4))" by (simp add: succeeds)
    moreover have "proceed K (Unlocked u i async a) ?s4 = Some (Inr (Reclaim async a (Some (u, i)), ?s5))"
      using lock by (simp add: succeeds)
    moreover have "solo K (Reclaim async a (Some (u, i))) ?s5 (Done r) s'"
      using rec fin by (intro solo_reclaim [of K async a ?s5 "()" s6]) (simp_all add: succeeds done_lines_def)
    ultimately show ?thesis by (blast intro: solo_step)
  qed
qed

primrec update_op :: "updater \<Rightarrow> int \<Rightarrow> int \<Rightarrow> op" where
  "update_op Borrow i async = Borrow_book i async"
| "update_op Return i async = Return_book i async"

lemma refuses_fun: "refuses Borrow = (\<lambda>b. b \<noteq> 0)" "refuses Return = (\<lambda>b. b = 0)"
  by (simp_all add: fun_eq_iff)

lemma solo_update:
  assumes "exec_op K (update_op u i async) s = Some (Inr (r, s'))"
  shows "solo K (Ready (update_op u i async)) s (Done r) s'"
proof -
  let ?s0 = "s\<lparr>rcu_nesting := Suc (rcu_nesting s)\<rparr>" and ?g = "ToUpdate u i async" and ?c = "update_op u i async"
  have "exec_op K ?c = update_book K (refuses u) (new_flag u) (success_msg u) i async"
    by (cases u) (simp_all add: borrow_book_def return_book_def refuses_fun)
  note upd = assms [unfolded this update_book_def]
  from upd obtain res s1 where loop: "for_each_book K (find_to_update (refuses u) i) ?s0 = Some (Inr (res, s1))"
    unfolding bind_succeeds locks_succeed by blast
  have "start K ?c s = Some (Inr (Enter ?g, ?s0))" by (cases u) (simp_all add: succeeds)
  from solo_search [OF this loop searches_bodies(3) [of K u i async]] obtain p where p: "solo K (Ready ?c) s (At ?g p) ?s0"
      "case res of None \<Rightarrow> p = HEAD \<and> s1 = ?s0 | Some v \<Rightarrow> p \<noteq> HEAD \<and> find_to_update (refuses u) i p ?s0 = Some (Inr (Some v, s1))" by blast
  have "solo K (At ?g p) ?s0 (Done r) s'"
  proof (cases "\<exists>a. res = Some (Some a)")
    case True
    then obtain a where a: "res = Some (Some a)" ..
    with p(2) obtain x where x: "a = p" "s1 = ?s0" "heap s a = Some x" "b_id x = i" "\<not> refuses u (b_borrow x)" "p \<noteq> HEAD"
      by (auto simp: find_to_update_def succeeds split: if_splits)
    then have "proceed K (At ?g p) ?s0 = Some (Inr (Found u i async p, ?s0))" by (simp add: succeeds)
    moreover have "solo K (Found u i async p) ?s0 (Done r) s'"
    proof (rule solo_update_found)
      show "heap ?s0 p = Some x" using x by simp
    qed (use upd loop a x in \<open>simp add: bind_cmd_def rcu_read_lock_def modify_def\<close>)
    ultimately show ?thesis by (rule solo_step)
  next
    case False
    with p(2) upd loop have "proceed K (At ?g p) ?s0 = Some (Inr (Done r, s'))"
      by (cases res) (auto simp: find_to_update_def succeeds split: if_splits)
    then show ?thesis by (blast intro: solo.intros)
  qed
  with p(1) show ?thesis by (rule solo_trans)
qed

lemma solo_op:
  assumes "exec_op K c s = Some (Inr (r, s'))" and "c \<noteq> Grace_period"
  shows "solo K (Ready c) s (Done r) s'"
  using assms solo_add solo_print solo_tell solo_delete solo_update [of K Borrow] solo_update [of K Return]
  by (cases c) simp_all

text \<open>A thread alone has no choice, and once it has returned it stays where it is.\<close>

lemma solo_done: "solo K (Done r) s p' s' \<Longrightarrow> p' = Done r \<and> s' = s"
  by (induction "Done r" s p' s' rule: solo.induct) (auto simp: succeeds)

lemma solo_unique: "solo K p s (Done r) s' \<Longrightarrow> solo K p s (Done r') s'' \<Longrightarrow> r' = r \<and> s'' = s'"
proof (induction p s "Done r" s' rule: solo.induct)
  case (solo_refl s)
  then show ?case using solo_done by blast
next
  case (solo_step p s p1 s1 s')
  from solo_step.prems solo_step.hyps(1) consider "p = Done r'" "s'' = s" | "solo K p1 s1 (Done r') s''"
    by (cases rule: solo.cases) auto
  then show ?case
  proof cases
    case 1
    with solo_step.hyps(1) have "p1 = Done r'" "s1 = s''" by (simp_all add: succeeds)
    then show ?thesis using solo_step.hyps(3) solo_refl by blast
  next
    case 2
    then show ?thesis by (rule solo_step.hyps(3))
  qed
qed

section \<open>The thread among idle threads\<close>

definition idle :: "pc \<Rightarrow> bool" where
  "idle p \<longleftrightarrow> (\<exists>r. p = Done r)"

lemma idle_Done [simp]: "idle (Done r)"
  by (simp add: idle_def)

lemma list_all_update: "list_all P xs \<Longrightarrow> P x \<Longrightarrow> list_all P (xs[t := x])"
  using set_update_subset_insert [of xs t x] by (auto simp: list_all_iff)

definition alone :: "('l, 'm) world \<Rightarrow> tid \<Rightarrow> bool" where
  "alone w t \<longleftrightarrow> t < length (threads w) \<and> (\<forall>u < length (threads w). u \<noteq> t \<longrightarrow> idle (threads w ! u)) \<and>
     (\<forall>a msg. threads w ! t = Wait a msg \<longrightarrow> grace w a = [])"

lemma proceed_unlocked: "proceed K p s = Some (Inr (p1, s1)) \<Longrightarrow> takes_lock p \<Longrightarrow> \<not> books_lock s"
  by (cases p rule: takes_lock.cases) (auto simp: succeeds)

lemma proceed_waits: "proceed K p s = Some (Inr (Wait a msg, s1)) \<Longrightarrow> \<exists>async. p = Reclaim async a msg"
proof (cases p)
  case (Ready c)
  then show "proceed K p s = Some (Inr (Wait a msg, s1)) \<Longrightarrow> ?thesis" by (cases c) (auto simp: succeeds split: option.splits)
next
  case (At g b)
  then show "proceed K p s = Some (Inr (Wait a msg, s1)) \<Longrightarrow> ?thesis"
    by (cases g) (auto simp: succeeds split: if_splits)
qed (auto simp: succeeds split: if_splits option.splits)

lemma alone_moves:
  assumes "alone w t" and "proceed K (threads w ! t) (shared w) = Some (Inr (p1, s1))"
  shows "\<exists>w1. world_step K admit w (Move t) w1 \<and> shared w1 = s1 \<and> threads w1 = (threads w)[t := p1] \<and> alone w1 t"
proof -
  let ?w1 = "\<lparr>shared = s1, threads = (threads w)[t := p1], grace = next_grace w t (threads w ! t) p1\<rparr>"
  have "list_all (\<lambda>a. grace w a = []) (waits_for (threads w ! t))"
    using assms(1) by (cases "threads w ! t" rule: waits_for.cases) (auto simp: alone_def)
  with assms proceed_unlocked [OF assms(2)] have "runnable w t" by (auto simp: runnable_def alone_def)
  moreover have "thread_step K t w = Some (Inr ?w1)" using assms(2) by (simp add: thread_step_def)
  ultimately have "world_step K admit w (Move t) ?w1" by (rule world_step.stepped)
  moreover have "grace ?w1 a = []" if wait: "p1 = Wait a msg" for a msg
  proof -
    from proceed_waits assms(2) wait obtain async where p: "threads w ! t = Reclaim async a msg" by blast
    have "\<not> in_section (threads w ! u)" if "u < length (threads w)" for u
      using assms(1) that p by (cases "u = t") (auto simp: alone_def idle_def)
    then have "readers w = []" by (auto simp: readers_def filter_empty_conv)
    with p show ?thesis by (simp add: next_grace_def)
  qed
  with assms(1) have "alone ?w1 t" by (auto simp: alone_def)
  ultimately show ?thesis by (intro exI [of _ ?w1]) simp
qed

lemma alone_runs:
  "solo K p s p' s' \<Longrightarrow> alone w t \<Longrightarrow> threads w ! t = p \<Longrightarrow> shared w = s \<Longrightarrow>
   \<exists>k w'. run (world_step K admit) w (replicate k (Move t)) w' \<and> shared w' = s' \<and> threads w' = (threads w)[t := p'] \<and> alone w' t"
proof (induction arbitrary: w rule: solo.induct)
  case (solo_refl p s)
  then show ?case by (intro exI [of _ 0] exI [of _ w]) auto
next
  case (solo_step p s p1 s1 p' s')
  from alone_moves [OF solo_step.prems(1)] solo_step.hyps(1) solo_step.prems(2,3) obtain w1 where
      w1: "world_step K admit w (Move t) w1" "shared w1 = s1" "threads w1 = (threads w)[t := p1]" "alone w1 t" by blast
  moreover have "threads w1 ! t = p1" using w1(3,4) by (simp add: alone_def)
  ultimately obtain k w' where "run (world_step K admit) w1 (replicate k (Move t)) w'" "shared w' = s'"
      "threads w' = (threads w1)[t := p']" "alone w' t"
    using solo_step.IH by blast
  with w1 show ?case by (intro exI [of _ "Suc k"] exI [of _ w']) auto
qed

lemma run_is_solo:
  "run (world_step K admit) w (replicate k (Move t)) w' \<Longrightarrow> t < length (threads w) \<Longrightarrow>
   solo K (threads w ! t) (shared w) (threads w' ! t) (shared w')"
proof (induction k arbitrary: w)
  case 0
  then show ?case by (simp add: solo_refl)
next
  case (Suc k)
  then obtain w1 where w1: "world_step K admit w (Move t) w1" "run (world_step K admit) w1 (replicate k (Move t)) w'" by auto
  from w1(1) obtain p1 s1 where "proceed K (threads w ! t) (shared w) = Some (Inr (p1, s1))"
      "shared w1 = s1" "threads w1 ! t = p1" "t < length (threads w1)"
    using Suc.prems(2) by (auto elim!: world_stepE thread_stepE)
  with Suc.IH [OF w1(2)] show ?case by (auto intro: solo_step)
qed

section \<open>Calls that do not overlap\<close>

lemma call_runs:
  assumes "exec_op K c (shared w) = Some (Inr (r, s'))" and "c \<noteq> Grace_period"
    and "t < length (threads w)" and "list_all idle (threads w)" and "admit w c"
  shows "\<exists>k w'. run (world_step K admit) w (Call t c # replicate k (Move t)) w' \<and> shared w' = s' \<and> threads w' = (threads w)[t := Done r]"
proof -
  let ?w1 = "w\<lparr>threads := (threads w)[t := Ready c]\<rparr>"
  from assms(3,4) obtain r0 where "threads w ! t = Done r0" by (auto simp: list_all_length idle_def)
  with assms(3,5) have "world_step K admit w (Call t c) ?w1" by (auto intro: world_step.called)
  moreover have "alone ?w1 t" using assms(3,4) by (auto simp: alone_def list_all_length)
  from alone_runs [OF solo_op [OF assms(1,2)] this] assms(3) obtain k w' where
      "run (world_step K admit) ?w1 (replicate k (Move t)) w'" "shared w' = s'" "threads w' = (threads w)[t := Done r]"
    by fastforce
  ultimately show ?thesis by (intro exI [of _ k] exI [of _ w']) auto
qed

lemma call_result:
  assumes "exec_op K c (shared w) = Some (Inr (r, s'))" and "c \<noteq> Grace_period"
    and "t < length (threads w)"
    and "run (world_step K admit) w (Call t c # replicate k (Move t)) w'" and "threads w' ! t = Done r'"
  shows "r' = r \<and> shared w' = s'"
proof -
  let ?w1 = "w\<lparr>threads := (threads w)[t := Ready c]\<rparr>"
  from assms(4) have "run (world_step K admit) ?w1 (replicate k (Move t)) w'" by (auto elim: world_stepE)
  from run_is_solo [OF this] assms(3,5) have "solo K (Ready c) (shared w) (Done r') (shared w')" by simp
  with solo_unique [OF solo_op [OF assms(1,2)]] show ?thesis by blast
qed

text \<open>The end of a grace period: the queued callbacks, one after the other.\<close>

lemma callbacks_run:
  assumes "all_of (map (book_reclaim_callback K) as) ((shared w)\<lparr>rcu_pending := []\<rparr>) = Some (Inr (u, s'))"
    and "rcu_pending (shared w) = as" and "\<forall>a. grace w a = []"
  shows "\<exists>w'. run (world_step K admit) w (map Callback as) w' \<and> shared w' = s' \<and> threads w' = threads w"
  using assms
proof (induction as arbitrary: w)
  case Nil
  then show ?case by (intro exI [of _ w]) (auto simp: succeeds)
next
  case (Cons a as)
  from Cons.prems(1) obtain s1 where s1: "book_reclaim_callback K a ((shared w)\<lparr>rcu_pending := []\<rparr>) = Some (Inr ((), s1))"
      "all_of (map (book_reclaim_callback K) as) s1 = Some (Inr (u, s'))"
    by (auto simp: succeeds)
  let ?s = "(shared w)\<lparr>rcu_pending := as\<rparr>" and ?w1 = "w\<lparr>shared := s1\<lparr>rcu_pending := as\<rparr>\<rparr>"
  from s1(1) have "book_reclaim_callback K a ?s = Some (Inr ((), s1\<lparr>rcu_pending := as\<rparr>))" and p: "rcu_pending s1 = []"
    by (auto simp: book_reclaim_callback_def succeeds)
  then have "callback_step K a w = Some (Inr ?w1)" using Cons.prems(2) by (simp add: callback_step_def)
  moreover have "callback_due w a" using Cons.prems(2,3) by (simp add: callback_due_def)
  ultimately have "world_step K admit w (Callback a) ?w1" by (auto intro: world_step.reclaimed)
  moreover have "s1\<lparr>rcu_pending := []\<rparr> = s1" using p by (cases s1) simp
  with Cons.IH [of ?w1] s1(2) Cons.prems(3) obtain w' where
      "run (world_step K admit) ?w1 (map Callback as) w'" "shared w' = s'" "threads w' = threads w" by auto
  ultimately show ?case by auto
qed

lemma no_grace:
  assumes "sync_inv w" and "list_all idle (threads w)"
  shows "grace w a = []"
proof (rule ccontr)
  assume "grace w a \<noteq> []"
  then obtain u where "u \<in> set (grace w a)" by (cases "grace w a") auto
  with assms(1) have "u < length (threads w)" "in_section (threads w ! u)" by (auto simp: sync_inv_def)
  with assms(2) show False by (auto simp: list_all_length idle_def)
qed

lemma op_runs:
  assumes "exec_op K c (shared w) = Some (Inr (r, s'))" and "sync_inv w"
    and "t < length (threads w)" and "list_all idle (threads w)" and "admit w c"
  shows "\<exists>es w'. run (world_step K admit) w es w' \<and> shared w' = s' \<and> length (threads w') = length (threads w) \<and> list_all idle (threads w')"
proof (cases "c = Grace_period")
  case True
  with assms(1) have "all_of (map (book_reclaim_callback K) (rcu_pending (shared w))) ((shared w)\<lparr>rcu_pending := []\<rparr>) = Some (Inr ((), s'))"
    by (auto simp: void_def run_callbacks_def succeeds)
  from callbacks_run [OF this refl] no_grace [OF assms(2,4)] assms(4) show ?thesis by metis
next
  case False
  from call_runs [of K c w r s' t admit, OF assms(1) False assms(3-5)] obtain k w' where
      "run (world_step K admit) w (Call t c # replicate k (Move t)) w'" "shared w' = s'" "threads w' = (threads w)[t := Done r]" by blast
  moreover from this(3) assms(4) have "list_all idle (threads w')" by (simp add: list_all_update)
  ultimately show ?thesis by (intro exI conjI) (assumption | simp)+
qed

lemma sequence_runs:
  assumes "run_ops K cs (shared w) = Some (Inr (rs, s'))" and "sync_inv w" and "list_all idle (threads w)" and "threads w \<noteq> []"
  shows "\<exists>es w'. run (world_step K one_remover) w es w' \<and> shared w' = s' \<and> list_all idle (threads w')"
  using assms
proof (induction cs arbitrary: w rs)
  case Nil
  then show ?case by (intro exI [of _ "[]"] exI [of _ w]) (simp add: succeeds)
next
  case (Cons c cs)
  then obtain r s1 rs1 where c: "exec_op K c (shared w) = Some (Inr (r, s1))" "run_ops K cs s1 = Some (Inr (rs1, s'))"
    by (auto simp: succeeds)
  have "one_remover w c" using Cons.prems(3) by (auto simp: one_remover_def list_ex_iff list_all_iff idle_def)
  from op_runs [of K c w r s1 0 one_remover, OF c(1) Cons.prems(2) _ Cons.prems(3) this] Cons.prems(4) obtain es1 w1 where
      w1: "run (world_step K one_remover) w es1 w1" "shared w1 = s1" "length (threads w1) = length (threads w)" "list_all idle (threads w1)"
    by blast
  have "sync_inv w1"
    using w1(1) Cons.prems(2) by (induction rule: run.induct) (auto intro: step_sync)
  moreover have "threads w1 \<noteq> []" using w1(3) Cons.prems(4) by auto
  moreover note Cons.IH [of w1 rs1] c(2) w1
  ultimately obtain es2 w' where
      "run (world_step K one_remover) w1 es2 w'" "shared w' = s'" "list_all idle (threads w')" by auto
  with w1(1) show ?case by (blast intro: run_trans)
qed

section \<open>Properties\<close>

text \<open>
  C7: the operations of the library are what its threads do when their calls do not overlap: a call
  made while all threads are idle and followed by moves of its thread alone can only end with the
  result and the library of the operation run in one piece, and it does end.
\<close>

theorem call_alone_is_operation:
  assumes "exec_op K c (shared w) = Some (Inr (r, s'))" and "c \<noteq> Grace_period"
    and "t < length (threads w)" and "list_all idle (threads w)"
  shows "(\<exists>k w'. run (world_step K any_call) w (Call t c # replicate k (Move t)) w' \<and> threads w' ! t = Done r) \<and>
    (\<forall>k w' r'. run (world_step K any_call) w (Call t c # replicate k (Move t)) w' \<and> threads w' ! t = Done r' \<longrightarrow>
       r' = r \<and> shared w' = s')"
proof -
  from call_runs [OF assms, of any_call] obtain k w' where
      "run (world_step K any_call) w (Call t c # replicate k (Move t)) w'" "threads w' = (threads w)[t := Done r]"
    by (auto simp: any_call_def)
  then have "\<exists>k w'. run (world_step K any_call) w (Call t c # replicate k (Move t)) w' \<and> threads w' ! t = Done r"
    using assms(3) by (intro exI [of _ k] exI [of _ w']) simp
  with call_result [OF assms(1-3)] show ?thesis by blast
qed

theorem call_alone_is_operation_witness:
  "\<exists>k w'. run (world_step demo_kern any_call) demo_boot (Call 1 (Add_book 7 ''SICP'' ''HA'') # replicate k (Move 1)) w' \<and> threads w' ! 1 = Done 0"
proof -
  have "case exec_op demo_kern (Add_book 7 ''SICP'' ''HA'') (shared demo_boot) of Some (Inr (r, s')) \<Rightarrow> r = 0 | _ \<Rightarrow> False"
    by code_simp
  then obtain s' where "exec_op demo_kern (Add_book 7 ''SICP'' ''HA'') (shared demo_boot) = Some (Inr (0, s'))"
    by (auto split: option.splits sum.splits)
  moreover have "1 < length (threads demo_boot)" "list_all idle (threads demo_boot)"
    by (simp_all add: demo_boot_def boot_def list_all_iff)
  ultimately show ?thesis using call_alone_is_operation [of demo_kern "Add_book 7 ''SICP'' ''HA''" demo_boot 0 s' 1] by blast
qed

text \<open>
  So what the sequential library reaches by any sequence of calls and grace periods, the shared one
  reaches with any number of threads, even with one remover at a time.
\<close>

lemma sequences_are_interleavings:
  assumes "run_ops K cs (fresh_library K m) = Some (Inr (rs, s'))" and "0 < n"
  shows "\<exists>w. reachable K one_remover m n w \<and> shared w = s' \<and> list_all idle (threads w)"
proof -
  have "shared (boot K m n) = fresh_library K m" "list_all idle (threads (boot K m n))" "threads (boot K m n) \<noteq> []"
    using assms(2) by (auto simp: boot_def idle_def list_all_iff)
  with sequence_runs [of K cs "boot K m n" rs s'] assms(1) sync_inv_boot [of K m n] show ?thesis
    by (auto simp: reachable_def)
qed

end
