(* ===== verification/Rcu_Atomic.thy ===== *)
theory Rcu_Atomic
  imports Rcu_Concurrent
begin

text \<open>
  The shared library of \<^verbatim>\<open>ksync/rcu_example/list_rcu_example.c\<close> seen from its callers. A ledger is kept beside
  a run: what each thread asked for, the events of its call so far, the states the library was in since
  the call began to look, and the lines that the moves of the thread added to the kernel's log. With one remover at a time every call turns out to have exactly one event: a
  change that is made on the abstract list of books at a single move of the thread, or an observation that was
  true of the library at some instant during the call.
\<close>

section \<open>Events\<close>

datatype event =
    Shelved book
  | Marked updater int
  | Withdrawn int
  | Missed int
  | Refused updater int
  | Saw addr book
  | Unserved updater int
  | Denied

text \<open>The event of a move from the program point \<open>p\<close>; \<^term>\<open>Unserved\<close> and \<^term>\<open>Denied\<close> are a \<^verbatim>\<open>kzalloc\<close> that fails, of an update and of \<^verbatim>\<open>add_book\<close>.\<close>

definition refused_memory :: "('l, 'm) kern \<Rightarrow> ('l, 'm) library \<Rightarrow> event \<Rightarrow> event option" where
  "refused_memory K s ev = (if fst (km_alloc (k_mem K) (kmem_state s)) = None then Some ev else None)"

definition event_of :: "('l, 'm) kern \<Rightarrow> ('l, 'm) library \<Rightarrow> pc \<Rightarrow> event option" where
  "event_of K s p = (case p of
     Ready c \<Rightarrow> (case c of Add_book i name author \<Rightarrow> refused_memory K s Denied | _ \<Rightarrow> None)
   | Found u i async a \<Rightarrow> refused_memory K s (Unserved u i)
   | Add_locked b \<Rightarrow> Some (Shelved (the (heap s b)))
   | Locked u i async a b \<Rightarrow> Some (Marked u i)
   | At g a \<Rightarrow>
       if a = HEAD then Some (Missed (wanted g))
       else if b_id (the (heap s a)) \<noteq> wanted g then None
       else (case g of
           ToPrint i \<Rightarrow> Some (Saw a (the (heap s a)))
         | ToTell i \<Rightarrow> Some (Saw a (the (heap s a)))
         | ToUpdate u i async \<Rightarrow> if refuses u (b_borrow (the (heap s a))) then Some (Refused u i) else None
         | ToDelete i async \<Rightarrow> Some (Withdrawn i))
   | _ \<Rightarrow> None)"

text \<open>What an event does to the list of books.\<close>

inductive becomes :: "book list \<Rightarrow> event \<Rightarrow> book list \<Rightarrow> bool" where
  shelved: "becomes bs (Shelved x) (x # bs)"
| marked: "b_id x = i \<Longrightarrow> \<not> refuses u (b_borrow x) \<Longrightarrow>
     becomes (us @ x # vs) (Marked u i) (us @ x\<lparr>b_borrow := new_flag u\<rparr> # vs)"
| withdrawn: "b_id x = i \<Longrightarrow> i \<notin> b_id ` set us \<Longrightarrow> becomes (us @ x # vs) (Withdrawn i) (us @ vs)"
| missed: "becomes bs (Missed i) bs"
| refused: "becomes bs (Refused u i) bs"
| saw: "becomes bs (Saw a x) bs"
| unserved: "becomes bs (Unserved u i) bs"
| denied: "becomes bs Denied bs"

text \<open>The events that leave it alone.\<close>

primrec observation :: "event \<Rightarrow> bool" where
  "observation (Shelved x) = False"
| "observation (Marked u i) = False"
| "observation (Withdrawn i) = False"
| "observation (Missed i) = True"
| "observation (Refused u i) = True"
| "observation (Saw a x) = True"
| "observation (Unserved u i) = True"
| "observation Denied = True"

lemma becomes_same: "observation ev \<Longrightarrow> becomes bs ev bs"
  by (cases ev) (auto intro: becomes.intros)

section \<open>The ledger\<close>

record ('l, 'm) ledger =
  asked :: "tid \<Rightarrow> op"
  did :: "tid \<Rightarrow> event list"
  since :: "tid \<Rightarrow> ('l, 'm) world list"
  said :: "tid \<Rightarrow> string list"
  history :: "event list"

definition empty_ledger :: "('l, 'm) ledger" where
  "empty_ledger = \<lparr>asked = (\<lambda>_. Grace_period), did = (\<lambda>_. []), since = (\<lambda>_. []), said = (\<lambda>_. []), history = []\<rparr>"

text \<open>A thread begins to look when it is called, and again when it takes the first step of its call.\<close>

definition begins :: "('l, 'm) world \<Rightarrow> action \<Rightarrow> tid \<Rightarrow> bool" where
  "begins w e t = (case e of
     Call u c \<Rightarrow> u = t
   | Move u \<Rightarrow> u = t \<and> (case threads w ! u of Ready c \<Rightarrow> True | _ \<Rightarrow> False)
   | Callback a \<Rightarrow> False)"

definition events :: "('l, 'm) kern \<Rightarrow> ('l, 'm) world \<Rightarrow> action \<Rightarrow> event list" where
  "events K w e = (case e of
     Move t \<Rightarrow> (case event_of K (shared w) (threads w ! t) of None \<Rightarrow> [] | Some ev \<Rightarrow> [ev])
   | _ \<Rightarrow> [])"

definition logged :: "('l, 'm) kern \<Rightarrow> ('l, 'm) world \<Rightarrow> action \<Rightarrow> ('l, 'm) world \<Rightarrow> ('l, 'm) ledger \<Rightarrow> ('l, 'm) ledger" where
  "logged K w e w' L =
     \<lparr>asked = (case e of Call t c \<Rightarrow> (asked L)(t := c) | _ \<Rightarrow> asked L),
      did = (case e of Call t c \<Rightarrow> (did L)(t := []) | Move t \<Rightarrow> (did L)(t := did L t @ events K w e) | Callback a \<Rightarrow> did L),
      since = (\<lambda>t. if begins w e t then [w']
                   else if active (threads w ! t) then since L t @ [w'] else since L t),
      said = (case e of
          Call t c \<Rightarrow> (said L)(t := [])
        | Move t \<Rightarrow> (said L)(t := said L t @ drop (length (klog (shared w))) (klog (shared w')))
        | Callback a \<Rightarrow> said L),
      history = history L @ events K w e\<rparr>"

definition logged_step ::
  "('l, 'm) kern \<Rightarrow> ('l, 'm) world \<times> ('l, 'm) ledger \<Rightarrow> action \<Rightarrow> ('l, 'm) world \<times> ('l, 'm) ledger \<Rightarrow> bool" where
  "logged_step K c e c' \<longleftrightarrow>
     world_step K one_remover (fst c) e (fst c') \<and> snd c' = logged K (fst c) e (fst c') (snd c)"

text \<open>Keeping a ledger excludes no run.\<close>

lemma run_logged: "run (world_step K one_remover) w es w' \<Longrightarrow> \<exists>L'. run (logged_step K) (w, L) es (w', L')"
proof (induction arbitrary: L rule: run.induct)
  case (run_cons w e w1 es w')
  obtain L' where "run (logged_step K) (w1, logged K w e w1 L) es (w', L')" using run_cons.IH by blast
  moreover have "logged_step K (w, L) e (w1, logged K w e w1 L)" using run_cons.hyps(1) by (simp add: logged_step_def)
  ultimately show ?case by auto
qed auto

lemma logged_run: "run (logged_step K) c es c' \<Longrightarrow> run (world_step K one_remover) (fst c) es (fst c')"
  by (induction rule: run.induct) (auto simp: logged_step_def)

section \<open>What the events of a call may be\<close>

definition new_book :: "int \<Rightarrow> string \<Rightarrow> string \<Rightarrow> book" where
  "new_book i name author = \<lparr>b_id = i, b_name = strncpy 64 name, b_author = strncpy 64 author, b_borrow = 0\<rparr>"

text \<open>
  The result \<open>r\<close> of a call and its events.
\<close>

definition update_outcome :: "updater \<Rightarrow> int \<Rightarrow> int \<Rightarrow> event list \<Rightarrow> bool" where
  "update_outcome u i r d \<longleftrightarrow> r = 0 \<and> d = [Marked u i] \<or> r = -1 \<and> d \<in> {[Unserved u i], [Missed i], [Refused u i]}"

primrec outcome :: "op \<Rightarrow> int \<Rightarrow> event list \<Rightarrow> bool" where
  "outcome (Add_book i name author) r d \<longleftrightarrow> r = 0 \<and> d \<in> {[Denied], [Shelved (new_book i name author)]}"
| "outcome (Borrow_book i async) r d \<longleftrightarrow> update_outcome Borrow i r d"
| "outcome (Return_book i async) r d \<longleftrightarrow> update_outcome Return i r d"
| "outcome (Delete_book i async) r d \<longleftrightarrow> r = 0 \<and> d \<in> {[Withdrawn i], [Missed i]}"
| "outcome (Is_borrowed_book i) r d \<longleftrightarrow> r = -1 \<and> d = [Missed i] \<or> (\<exists>a x. d = [Saw a x] \<and> b_id x = i)"
| "outcome (Print_book i) r d \<longleftrightarrow> r = 0 \<and> (d = [Missed i] \<or> (\<exists>a x. d = [Saw a x] \<and> b_id x = i))"
| "outcome Grace_period r d \<longleftrightarrow> r = 0 \<and> d = []"

text \<open>What is on the shelf of a world, whether memory is refused in it, and when an observation is true of one of the worlds seen.\<close>

definition on_shelf :: "('l \<Rightarrow> addr list \<Rightarrow> bool) \<Rightarrow> ('l, 'm) world \<Rightarrow> addr \<Rightarrow> book \<Rightarrow> bool" where
  "on_shelf repr w a x \<longleftrightarrow> (\<exists>xs. repr (books (shared w)) xs \<and> a \<in> set xs \<and> heap (shared w) a = Some x)"

definition missing :: "('l \<Rightarrow> addr list \<Rightarrow> bool) \<Rightarrow> ('l, 'm) world \<Rightarrow> int \<Rightarrow> bool" where
  "missing repr w i \<longleftrightarrow> (\<exists>xs. repr (books (shared w)) xs \<and> i \<notin> b_id ` set (shelf (shared w) xs))"

definition starved :: "('l, 'm) kern \<Rightarrow> ('l, 'm) world \<Rightarrow> bool" where
  "starved K w \<longleftrightarrow> fst (km_alloc (k_mem K) (kmem_state (shared w))) = None"

primrec explained :: "('l, 'm) kern \<Rightarrow> ('l \<Rightarrow> addr list \<Rightarrow> bool) \<Rightarrow> ('l, 'm) world list \<Rightarrow> event \<Rightarrow> bool" where
  "explained K repr ws (Shelved x) = True"
| "explained K repr ws (Marked u i) = True"
| "explained K repr ws (Withdrawn i) = True"
| "explained K repr ws (Missed i) \<longleftrightarrow> (\<exists>v \<in> set ws. missing repr v i)"
| "explained K repr ws (Refused u i) \<longleftrightarrow> (\<exists>v \<in> set ws. \<exists>a x. on_shelf repr v a x \<and> b_id x = i \<and> refuses u (b_borrow x))"
| "explained K repr ws (Unserved u i) \<longleftrightarrow> (\<exists>v \<in> set ws. starved K v)"
| "explained K repr ws Denied = True"
| "explained K repr ws (Saw a x) \<longleftrightarrow> (\<exists>v \<in> set ws. on_shelf repr v a x)"

lemma explained_mono: "explained K repr ws ev \<Longrightarrow> set ws \<subseteq> set vs \<Longrightarrow> explained K repr vs ev"
  by (cases ev) auto

section \<open>What a thread stands for\<close>

text \<open>The traversal a call makes.\<close>

primrec goal_of :: "op \<Rightarrow> goal option" where
  "goal_of (Add_book i name author) = None"
| "goal_of (Borrow_book i async) = Some (ToUpdate Borrow i async)"
| "goal_of (Return_book i async) = Some (ToUpdate Return i async)"
| "goal_of (Delete_book i async) = Some (ToDelete i async)"
| "goal_of (Is_borrowed_book i) = Some (ToTell i)"
| "goal_of (Print_book i) = Some (ToPrint i)"
| "goal_of Grace_period = None"

text \<open>
  The call \<open>c\<close> with the events \<open>d\<close> and the thread at \<open>p\<close> agree, and the books the thread prepares in the heap
  are those the call is about.
\<close>

definition to_mark :: "('l, 'm) library \<Rightarrow> updater \<Rightarrow> int \<Rightarrow> addr \<Rightarrow> bool" where
  "to_mark s u i a \<longleftrightarrow> (\<exists>x. heap s a = Some x \<and> b_id x = i \<and> \<not> refuses u (b_borrow x))"

definition marks :: "('l, 'm) library \<Rightarrow> updater \<Rightarrow> addr \<Rightarrow> addr \<Rightarrow> bool" where
  "marks s u a b \<longleftrightarrow> (\<exists>x. heap s a = Some x \<and> heap s b = Some (x\<lparr>b_borrow := new_flag u\<rparr>))"

definition to_shelve :: "('l, 'm) library \<Rightarrow> op \<Rightarrow> addr \<Rightarrow> bool" where
  "to_shelve s c b \<longleftrightarrow> (\<exists>i name author. c = Add_book i name author \<and> heap s b = Some (new_book i name author))"

primrec agrees :: "('l, 'm) library \<Rightarrow> op \<Rightarrow> event list \<Rightarrow> pc \<Rightarrow> bool" where
  "agrees s c d (Done r) \<longleftrightarrow> outcome c r d"
| "agrees s c d (Ready c') \<longleftrightarrow> c' = c \<and> d = []"
| "agrees s c d (Enter g) \<longleftrightarrow> goal_of c = Some g \<and> d = []"
| "agrees s c d (At g a) \<longleftrightarrow> goal_of c = Some g \<and> d = []"
| "agrees s c d (Next g a) \<longleftrightarrow> goal_of c = Some g \<and> d = []"
| "agrees s c d (Stale a) \<longleftrightarrow> (\<exists>i a x. c = Is_borrowed_book i \<and> d = [Saw a x] \<and> b_id x = i)"
| "agrees s c d (Found u i async a) \<longleftrightarrow> goal_of c = Some (ToUpdate u i async) \<and> d = [] \<and> to_mark s u i a"
| "agrees s c d (Copied u i async a b) \<longleftrightarrow> goal_of c = Some (ToUpdate u i async) \<and> d = [] \<and> to_mark s u i a \<and> marks s u a b"
| "agrees s c d (Locked u i async a b) \<longleftrightarrow> goal_of c = Some (ToUpdate u i async) \<and> d = [] \<and> to_mark s u i a \<and> marks s u a b"
| "agrees s c d (Replaced u i async a) \<longleftrightarrow> outcome c 0 d"
| "agrees s c d (Unlocked u i async a) \<longleftrightarrow> outcome c 0 d"
| "agrees s c d (Removed async a) \<longleftrightarrow> outcome c 0 d"
| "agrees s c d (Reclaim async a msg) \<longleftrightarrow> outcome c 0 d"
| "agrees s c d (Wait a msg) \<longleftrightarrow> outcome c 0 d"
| "agrees s c d (Add_new b) \<longleftrightarrow> to_shelve s c b \<and> d = []"
| "agrees s c d (Add_locked b) \<longleftrightarrow> to_shelve s c b \<and> d = []"
| "agrees s c d Add_linked \<longleftrightarrow> outcome c 0 d"

text \<open>A move of the thread keeps the agreement, whatever the rest of the library is.\<close>

lemma goal_of_update: "goal_of c = Some (ToUpdate u i async) \<Longrightarrow> outcome c r d \<longleftrightarrow> update_outcome u i r d"
  by (cases c) auto

lemma goal_of_others:
  "goal_of c = Some (ToPrint i) \<longleftrightarrow> c = Print_book i"
  "goal_of c = Some (ToTell i) \<longleftrightarrow> c = Is_borrowed_book i"
  "goal_of c = Some (ToDelete i async) \<longleftrightarrow> c = Delete_book i async"
  by (cases c; auto)+

definition event_list :: "('l, 'm) kern \<Rightarrow> ('l, 'm) library \<Rightarrow> pc \<Rightarrow> event list" where
  "event_list K s p = (case event_of K s p of None \<Rightarrow> [] | Some ev \<Rightarrow> [ev])"

lemma events_move: "events K w (Move t) = event_list K (shared w) (threads w ! t)"
  by (simp add: events_def event_list_def)

lemma early_events:
  "event_list K s (Ready c) = [] \<or> event_list K s (Ready c) = [Denied]"
  "event_list K s (Found u i async a) = [] \<or> event_list K s (Found u i async a) = [Unserved u i] \<and>
     fst (km_alloc (k_mem K) (kmem_state s)) = None"
  by (cases c; simp add: event_list_def event_of_def refused_memory_def)+

lemma agrees_start:
  assumes "start K c s = Some (Inr (p', s'))"
  shows "agrees s' c (event_list K s (Ready c)) p'"
  using assms
  by (cases c) (auto simp: succeeds to_shelve_def new_book_def event_list_def event_of_def refused_memory_def)

lemma agrees_at:
  assumes "proceed K (At g a) s = Some (Inr (p', s'))" and "agrees s c d (At g a)"
  shows "agrees s' c (d @ event_list K s (At g a)) p'"
  using assms
  by (cases g) (auto simp: succeeds event_list_def event_of_def goal_of_update update_outcome_def goal_of_others to_mark_def
      split: if_splits)

lemma agrees_found:
  assumes "proceed K (Found u i async a) s = Some (Inr (p', s'))" and "agrees s c d (Found u i async a)"
    and "\<And>b m'. km_alloc (k_mem K) (kmem_state s) = (Some b, m') \<Longrightarrow> b \<notin> dom (heap s)"
  shows "agrees s' c (d @ event_list K s (Found u i async a)) p'"
  using assms
  by (auto simp: succeeds event_list_def event_of_def refused_memory_def goal_of_update update_outcome_def to_mark_def
      marks_def split: if_splits)

lemma agrees_move:
  assumes "proceed K p s = Some (Inr (p', s'))" and "agrees s c d p"
    and "\<And>b m'. km_alloc (k_mem K) (kmem_state s) = (Some b, m') \<Longrightarrow> b \<notin> dom (heap s)"
  shows "agrees s' c (d @ event_list K s p) p'"
proof (cases p)
  case (Ready c')
  with assms(1,2) agrees_start [of K c s p' s'] show ?thesis by simp
next
  case (At g a)
  with assms(1,2) agrees_at show ?thesis by blast
next
  case (Found u i async a)
  with assms agrees_found show ?thesis by blast
next
  case (Locked u i async a b)
  with assms show ?thesis
    by (auto simp: succeeds event_list_def event_of_def goal_of_update update_outcome_def)
next
  case (Add_locked b)
  with assms show ?thesis by (auto simp: succeeds event_list_def event_of_def to_shelve_def)
next
  case (Stale a)
  with assms show ?thesis by (auto simp: succeeds event_list_def event_of_def)
qed (use assms in \<open>auto simp: succeeds event_list_def event_of_def to_mark_def marks_def to_shelve_def split: if_splits\<close>)

text \<open>
  What the two readers add to the log: \<^verbatim>\<open>print_book\<close> the line of the book it saw, both that a book is missing.
\<close>

primrec reads :: "op \<Rightarrow> bool" where
  "reads (Add_book i name author) = False"
| "reads (Borrow_book i async) = False"
| "reads (Return_book i async) = False"
| "reads (Delete_book i async) = False"
| "reads (Is_borrowed_book i) = True"
| "reads (Print_book i) = True"
| "reads Grace_period = False"

fun spoken :: "op \<Rightarrow> event \<Rightarrow> string list" where
  "spoken c (Missed i) = [emit ''not exist book\<newline>'' []]"
| "spoken (Print_book i) (Saw a x) = [book_line a x]"
| "spoken c ev = []"

fun at_reader :: "pc \<Rightarrow> bool" where
  "at_reader (Done r) = True"
| "at_reader (Ready c) = True"
| "at_reader (Enter g) = True"
| "at_reader (At g a) = True"
| "at_reader (Next g a) = True"
| "at_reader (Stale a) = True"
| "at_reader p = False"

definition voiced :: "op \<Rightarrow> event list \<Rightarrow> string list \<Rightarrow> pc \<Rightarrow> bool" where
  "voiced c d ls p \<longleftrightarrow> (reads c \<longrightarrow> at_reader p \<and> ls = concat (map (spoken c) d))"

lemma voiced_move:
  assumes "proceed K p s = Some (Inr (p', s'))" and "agrees s c d p" and "voiced c d ls p"
  shows "voiced c (d @ event_list K s p) (ls @ drop (length (klog s)) (klog s')) p'"
proof (cases "reads c")
  case True
  then consider i where "c = Print_book i" | i where "c = Is_borrowed_book i" by (cases c) auto
  then show ?thesis
    using assms by cases (cases p; auto simp: voiced_def succeeds event_list_def event_of_def split: if_splits)+
qed (simp add: voiced_def)

section \<open>How a move changes list and heap\<close>

definition relink :: "('l, 'm) kern \<Rightarrow> ('l, 'm) library \<Rightarrow> pc \<Rightarrow> 'l \<Rightarrow> 'l" where
  "relink K s p = (case p of
     Add_locked b \<Rightarrow> kl_add (k_list K) b
   | Locked u i async a b \<Rightarrow> kl_replace (k_list K) a b
   | At g a \<Rightarrow> if a \<noteq> HEAD \<and> deletes g \<and> b_id (the (heap s a)) = wanted g then kl_del (k_list K) a else id
   | _ \<Rightarrow> id)"

lemma start_books: "start K c s = Some (Inr (p', s')) \<Longrightarrow> books s' = books s"
  by (cases c) (auto simp: succeeds)

lemma proceed_books: "proceed K p s = Some (Inr (p', s')) \<Longrightarrow> books s' = relink K s p (books s)"
proof (cases p)
  case (At g a)
  then show "proceed K p s = Some (Inr (p', s')) \<Longrightarrow> ?thesis"
    by (cases g) (auto simp: succeeds relink_def split: if_splits)
qed (auto simp: succeeds relink_def start_books split: if_splits)

definition written :: "('l, 'm) kern \<Rightarrow> ('l, 'm) library \<Rightarrow> addr \<Rightarrow> bool" where
  "written K s a \<longleftrightarrow> (\<exists>m'. km_alloc (k_mem K) (kmem_state s) = (Some a, m'))"

lemma start_heap:
  "start K c s = Some (Inr (p', s')) \<Longrightarrow> \<not> written K s a \<Longrightarrow> heap s' a = heap s a"
  by (cases c) (auto simp: succeeds written_def)

lemma proceed_heap:
  "proceed K p s = Some (Inr (p', s')) \<Longrightarrow> \<not> written K s a \<Longrightarrow> a \<notin> set (waits_for p) \<Longrightarrow> heap s' a = heap s a"
proof (cases p)
  case (At g b)
  then show "proceed K p s = Some (Inr (p', s')) \<Longrightarrow> ?thesis"
    by (cases g) (auto simp: succeeds split: if_splits)
qed (auto simp: succeeds start_heap written_def split: if_splits)

context kernel_list
begin

text \<open>The links determine the entries.\<close>

lemma next_last: "repr l (us @ xs) \<Longrightarrow> kl_next L l (last (HEAD # us)) = first_of xs"
  using next_head next_entry by (cases us rule: rev_cases) auto

lemma repr_same_rest: "repr l (us @ xs) \<Longrightarrow> repr l (us @ ys) \<Longrightarrow> xs = ys"
proof (induction xs arbitrary: us ys)
  case Nil
  then have "first_of [] = first_of ys" using next_last by metis
  moreover have "HEAD \<notin> set ys" using repr_distinct [OF Nil.prems(2)] by simp
  ultimately show ?case by (cases ys) (auto simp: first_of_def)
next
  case (Cons x xs)
  then have "first_of (x # xs) = first_of ys" using next_last by metis
  moreover have "HEAD \<noteq> x" using repr_distinct [OF Cons.prems(1)] by auto
  ultimately obtain ys' where ys: "ys = x # ys'" by (cases ys) (auto simp: first_of_def)
  with Cons.IH [of "us @ [x]" ys'] Cons.prems show ?case by simp
qed

lemma repr_unique: "repr l xs \<Longrightarrow> repr l ys \<Longrightarrow> xs = ys"
  using repr_same_rest [of l "[]"] by simp

lemma on_shelf_iff: "repr (books (shared w)) xs \<Longrightarrow> on_shelf repr w a x \<longleftrightarrow> a \<in> set xs \<and> heap (shared w) a = Some x"
  using repr_unique by (auto simp: on_shelf_def)

lemma missing_iff: "repr (books (shared w)) xs \<Longrightarrow> missing repr w i \<longleftrightarrow> i \<notin> b_id ` set (shelf (shared w) xs)"
  using repr_unique by (auto simp: missing_def)

end

section \<open>What a step leaves in place\<close>

context rcu_client
begin

lemma live_not_written: "rcu_inv K repr live w xs \<Longrightarrow> heap (shared w) a = Some x \<Longrightarrow> \<not> written K (shared w) a"
  using alloc_fresh by (fastforce simp: inv_defs written_def)

text \<open>A book keeps its contents until it is freed, which takes a grace period that is over.\<close>

lemma heap_kept:
  assumes step: "world_step K one_remover w e w'" and inv: "rcu_inv K repr live w xs"
    and a: "heap (shared w) a = Some x" and held: "\<not> (parked w a \<and> grace w a = [])"
  shows "heap (shared w') a = Some x"
  using step
proof cases
  case (stepped t)
  from stepped(2,3) obtain p' s' where adv: "proceed K (threads w ! t) (shared w) = Some (Inr (p', s'))" and "shared w' = s'"
    by (auto elim: thread_stepE)
  moreover have "a \<notin> set (waits_for (threads w ! t))"
    using held stepped(2) by (auto simp: runnable_def list_all_iff parked_def)
  ultimately show ?thesis using proceed_heap live_not_written [OF inv a] a by metis
next
  case (reclaimed b)
  with held have "a \<noteq> b" by (auto simp: callback_due_def parked_def)
  with reclaimed a show ?thesis by (auto elim!: callback_stepE simp: book_reclaim_callback_def succeeds)
qed (use a in simp)

text \<open>The three changes of the list, with the entries before and after.\<close>

lemma relinked:
  assumes step: "world_step K one_remover w e w'" and inv: "rcu_inv K repr live w xs" and after: "repr (books (shared w')) xs'"
  obtains (same) "books (shared w') = books (shared w)" "xs' = xs"
      "list_all observation (events K w e)"
    | (add) t b where "e = Move t" "threads w ! t = Add_locked b" "b \<notin> set (HEAD # xs)" "xs' = b # xs" "threads w' ! t = Add_linked"
        "books (shared w') = kl_add (k_list K) b (books (shared w))"
    | (replace) t u i async a b us vs where "e = Move t" "threads w ! t = Locked u i async a b"
        "xs = us @ a # vs" "b \<notin> set (HEAD # us @ a # vs)" "xs' = us @ b # vs" "threads w' ! t = Replaced u i async a"
        "books (shared w') = kl_replace (k_list K) a b (books (shared w))"
    | (del) t i async a us vs where "e = Move t" "threads w ! t = At (ToDelete i async) a" "a \<noteq> HEAD"
        "b_id (the (heap (shared w) a)) = i" "xs = us @ a # vs" "xs' = us @ vs" "threads w' ! t = Removed async a"
        "books (shared w') = kl_del (k_list K) a (books (shared w))"
  using step
proof cases
  case (called t r c)
  with inv after repr_unique show ?thesis by (intro same) (auto simp: inv_defs events_def)
next
  case (reclaimed a)
  then have "books (shared w') = books (shared w)"
    by (auto elim!: callback_stepE simp: book_reclaim_callback_def succeeds)
  with reclaimed inv after repr_unique show ?thesis by (intro same) (auto simp: inv_defs events_def)
next
  case (stepped t)
  then have t: "t < length (threads w)" by (simp add: runnable_def)
  from stepped(3) obtain p' s' where adv: "proceed K (threads w ! t) (shared w) = Some (Inr (p', s'))"
    and w': "shared w' = s'" "threads w' ! t = p'" using t by (auto elim: thread_stepE)
  have r: "repr (books (shared w)) xs" using inv by (simp add: inv_defs)
  have b: "books (shared w') = relink K (shared w) (threads w ! t) (books (shared w))"
    using proceed_books [OF adv] w'(1) by simp
  have fresh: "b \<notin> set (HEAD # xs)" if "b \<in> set (owned (threads w ! t))" for b
    using in_holdings [OF t that] memory_invD(3,4) [of repr live w xs b] inv by (auto simp: inv_defs)
  have on: "set (target (threads w ! t)) \<subseteq> set xs" by (rule inv_thread(1) [OF inv t])
  consider (a) n where "threads w ! t = Add_locked n"
    | (r) u i async old n where "threads w ! t = Locked u i async old n"
    | (d) i async old where "threads w ! t = At (ToDelete i async) old" "old \<noteq> HEAD" "b_id (the (heap (shared w) old)) = i"
    | (n) "relink K (shared w) (threads w ! t) = id" "list_all observation (event_list K (shared w) (threads w ! t))"
  proof (cases "threads w ! t")
    case (At g x)
    show thesis
    proof (cases "x \<noteq> HEAD \<and> deletes g \<and> b_id (the (heap (shared w) x)) = wanted g")
      case True
      with At d show thesis by (cases g) auto
    next
      case False
      then have "relink K (shared w) (At g x) = id" by (simp only: relink_def pc.case if_False)
      moreover have "list_all observation (event_list K (shared w) (At g x))"
        using False by (cases g) (auto simp: event_list_def event_of_def)
      ultimately show thesis using At n by simp
    qed
  next
    case (Ready c)
    with n early_events(1) [of K "shared w" c] show thesis by (auto simp: relink_def)
  next
    case (Found u i async x)
    with n early_events(2) [of K "shared w" u i async x] show thesis by (auto simp: relink_def)
  qed (use a r n in \<open>auto simp: relink_def event_list_def event_of_def\<close>)
  then show ?thesis
  proof cases
    case a
    then have "n \<notin> set (HEAD # xs)" by (intro fresh) (simp add: owned_def)
    moreover have "books (shared w') = kl_add (k_list K) n (books (shared w))" using a b by (simp add: relink_def)
    ultimately show ?thesis using stepped a repr_add [OF r] after repr_unique adv w' by (intro add) (auto simp: succeeds)
  next
    case r
    then have "old \<in> set xs" using on by (simp add: target_def)
    then obtain us vs where xs: "xs = us @ old # vs" using split_list by metis
    have n: "n \<notin> set (HEAD # us @ old # vs)" using fresh [of n] r xs by (simp add: owned_def)
    have bk: "books (shared w') = kl_replace (k_list K) old n (books (shared w))" using r b by (simp add: relink_def)
    have "xs' = us @ n # vs" using repr_replace [OF _ n] \<open>repr (books (shared w)) xs\<close> xs bk after repr_unique by metis
    then show ?thesis using stepped r xs n bk adv w' by (intro replace) (auto simp: succeeds)
  next
    case d
    then have "old \<in> set xs" using on by (simp add: target_def cursor_def)
    then obtain us vs where xs: "xs = us @ old # vs" using split_list by metis
    have bk: "books (shared w') = kl_del (k_list K) old (books (shared w))" using d b by (simp add: relink_def)
    have "xs' = us @ vs" using repr_del \<open>repr (books (shared w)) xs\<close> xs bk after repr_unique by metis
    then show ?thesis using stepped d xs bk adv w' by (intro del) (auto simp: succeeds split: if_splits)
  next
    case n
    then show ?thesis using stepped b r after repr_unique by (intro same) (auto simp: events_move)
  qed
qed

text \<open>Off the new list every next pointer stays.\<close>

lemma next_kept:
  assumes step: "world_step K one_remover w e w'" and inv: "rcu_inv K repr live w xs" and after: "repr (books (shared w')) xs'"
    and a: "a \<notin> set (HEAD # xs')"
  shows "kl_next (k_list K) (books (shared w')) a = kl_next (k_list K) (books (shared w)) a"
proof -
  have r: "repr (books (shared w)) xs" using inv by (simp add: inv_defs)
  from step inv after show ?thesis
  proof (cases rule: relinked)
    case (add t b)
    with a add_frame [OF r] show ?thesis by auto
  next
    case (replace t u i async old b us vs)
    with a r replace_frame [of "books (shared w)" us old vs b a] replace_keeps_next [of "books (shared w)" us old vs b]
      next_entry [of "books (shared w)" us old vs] show ?thesis by (cases "a = old") auto
  next
    case (del t i async old us vs)
    with a r del_frame [of "books (shared w)" us old vs a] del_keeps_next [of "books (shared w)" us old vs]
      next_entry [of "books (shared w)" us old vs] show ?thesis by (cases "a = old") auto
  qed simp
qed

text \<open>A book that was taken off the list is not parked before its grace period begins.\<close>

lemma single_owner:
  assumes "memory_inv repr live w xs" and "t < length (threads w)" and "a \<in> set (owned (threads w ! t))"
  shows "a \<notin> set (rcu_pending (shared w))" and "u < length (threads w) \<Longrightarrow> u \<noteq> t \<Longrightarrow> a \<notin> set (owned (threads w ! u))"
proof -
  let ?H = "holdings ((threads w)[t := Done 0])" and ?D = "mset_set (dom (heap (shared w)))"
  have h: "?H + mset (owned (threads w ! t)) = holdings (threads w)"
    using holdings_update [OF assms(2), of "Done 0"] by (simp add: owned_def)
  have "mset xs + mset (rcu_pending (shared w)) + (?H + mset (owned (threads w ! t))) = ?D"
    using assms(1) unfolding h by (simp add: memory_inv_def)
  then have eq: "mset xs + (mset (rcu_pending (shared w)) + (?H + mset (owned (threads w ! t)))) = ?D" by (simp only: ac_simps)
  have "count ?D a \<le> 1" by (simp add: count_mset_set')
  then have c: "count (mset xs) a + (count (mset (rcu_pending (shared w))) a + (count ?H a + count (mset (owned (threads w ! t))) a)) \<le> 1"
    by (simp flip: eq)
  moreover have "0 < count (mset (owned (threads w ! t))) a" using assms(3) by (simp flip: count_greater_zero_iff set_mset_mset)
  ultimately have "count (mset (rcu_pending (shared w))) a = 0" "count ?H a = 0" by linarith+
  then have "a \<notin># mset (rcu_pending (shared w))" "a \<notin># ?H" by (simp_all only: not_in_iff)
  then show "a \<notin> set (rcu_pending (shared w))"
    and "u < length (threads w) \<Longrightarrow> u \<noteq> t \<Longrightarrow> a \<notin> set (owned (threads w ! u))"
    using in_holdings [of u "(threads w)[t := Done 0]" a] by auto
qed

lemma retired_not_parked:
  assumes "memory_inv repr live w xs" and "a \<in> retired_in (threads w)"
  shows "\<not> parked w a"
proof -
  from assms(2) obtain t where t: "t < length (threads w)" "a \<in> set (retired (threads w ! t))" by (auto simp: in_retired)
  then have o: "a \<in> set (owned (threads w ! t))" "a \<notin> set (waits_for (threads w ! t))"
    by (cases "threads w ! t"; simp add: owned_def)+
  from single_owner [OF assms(1) t(1) o(1)] o(2) show ?thesis
    by (auto simp: parked_def owned_def)
qed

lemma readable_held:
  assumes "rcu_inv K repr live w xs" and "may_read w xs r a" and "a \<noteq> HEAD"
  shows "\<not> (parked w a \<and> grace w a = [])"
  using assms parked_off_list [of repr live w xs a] retired_not_parked [of w xs a] by (auto simp: may_read_def rcu_inv_def)

lemma fresh_not_parked:
  assumes "memory_inv repr live w xs" and "t < length (threads w)" and "a \<in> set (fresh (threads w ! t))"
  shows "\<not> parked w a"
proof -
  from assms(3) have o: "a \<in> set (owned (threads w ! t))" "a \<notin> set (waits_for (threads w ! t))"
    by (cases "threads w ! t"; simp add: owned_def)+
  from single_owner [OF assms(1,2) o(1)] o(2) show ?thesis by (auto simp: parked_def owned_def)
qed

text \<open>What a reader may stand on it may stand on as long as its section lasts.\<close>

lemma may_read_kept:
  assumes step: "world_step K one_remover w e w'" and inv: "rcu_inv K repr live w xs" and after: "repr (books (shared w')) xs'"
    and r: "r < length (threads w)" "in_section (threads w ! r)" "in_section (threads w' ! r)"
    and a: "may_read w xs r a"
  shows "may_read w' xs' r a"
proof -
  have list: "a \<in> set xs' \<or> a \<in> retired_in (threads w')" if "a \<in> set xs"
    using step inv after
  proof (cases rule: relinked)
    case (replace t u i async old b us vs)
    moreover from step replace(1) have "t < length (threads w')" by (auto elim!: world_stepE thread_stepE simp: runnable_def)
    ultimately show ?thesis using that by (auto simp: in_retired)
  next
    case (del t i async old us vs)
    moreover from step del(1) have "t < length (threads w')" by (auto elim!: world_stepE thread_stepE simp: runnable_def)
    ultimately show ?thesis using that by (auto simp: in_retired)
  qed (use that in auto)
  have off: "a \<in> retired_in (threads w') \<or> r \<in> set (grace w' a)" if "a \<in> retired_in (threads w)"
    using step
  proof cases
    case (called t x c)
    with that retired_in_same [of t "threads w" "Ready c"] show ?thesis by simp
  next
    case (stepped t)
    then have t: "t < length (threads w)" by (simp add: runnable_def)
    from stepped(3) obtain p' s' where adv: "proceed K (threads w ! t) (shared w) = Some (Inr (p', s'))"
      and w': "threads w' = (threads w)[t := p']" "grace w' = next_grace w t (threads w ! t) p'" by (auto elim: thread_stepE)
    from that obtain u where u: "u < length (threads w)" "a \<in> set (retired (threads w ! u))" by (auto simp: in_retired)
    show ?thesis
    proof (cases "u = t")
      case False
      with u w' show ?thesis by (auto simp: in_retired intro!: exI [of _ u])
    next
      case True
      with u adv have "a \<in> set (retired p') \<or> (\<exists>async msg. threads w ! t = Reclaim async a msg)"
        by (cases "threads w ! t") (auto simp: succeeds)
      then show ?thesis
      proof
        assume "a \<in> set (retired p')"
        with w' t show ?thesis by (auto simp: in_retired intro!: exI [of _ t])
      qed (use w' r in_readers [of r w] in \<open>auto simp: next_grace_def\<close>)
    qed
  next
    case (reclaimed b)
    then have "threads w' = threads w" by (auto elim: callback_stepE)
    with that show ?thesis by simp
  qed
  have wait: "r \<in> set (grace w' a)" if "r \<in> set (grace w a)"
    using step
  proof cases
    case (stepped t)
    then have t: "t < length (threads w)" by (simp add: runnable_def)
    from stepped(3) obtain p' s' where
      w': "threads w' = (threads w)[t := p']" "grace w' = next_grace w t (threads w ! t) p'" by (auto elim: thread_stepE)
    with that r t show ?thesis
      using in_readers [of r w] by (cases "r = t") (auto simp: next_grace_def split: pc.splits)
  qed (use that in \<open>auto elim: callback_stepE\<close>)
  from a list off wait show ?thesis by (auto simp: may_read_def)
qed

section \<open>The list of books changes by the events\<close>

lemma listed_book: "rcu_inv K repr live w xs \<Longrightarrow> a \<in> set xs \<Longrightarrow> \<exists>x. heap (shared w) a = Some x"
  using memory_invD(1) [of repr live w xs a] by (auto simp: rcu_inv_def)

lemma listed_kept:
  assumes "world_step K one_remover w e w'" and "rcu_inv K repr live w xs" and "a \<in> set xs"
  shows "heap (shared w') a = heap (shared w) a"
proof -
  obtain x where x: "heap (shared w) a = Some x" using listed_book [OF assms(2,3)] by blast
  have "\<not> parked w a" using parked_off_list [of repr live w xs a] assms(2,3) by (auto simp: rcu_inv_def)
  with heap_kept [OF assms(1,2) x] x show ?thesis by simp
qed

lemma shelf_kept:
  assumes "world_step K one_remover w e w'" and "rcu_inv K repr live w xs" and "set ys \<subseteq> set xs"
  shows "shelf (shared w') ys = shelf (shared w) ys"
  using listed_kept [OF assms(1,2)] assms(3) by (auto simp: shelf_def)

lemma mover: "world_step K one_remover w (Move t) w' \<Longrightarrow> t < length (threads w)"
  by (auto elim: world_stepE simp: runnable_def)

lemma fresh_kept:
  assumes "world_step K one_remover w e w'" and "rcu_inv K repr live w xs" and "t < length (threads w)"
    and "a \<in> set (fresh (threads w ! t))" and "heap (shared w) a = Some x"
  shows "heap (shared w') a = Some x"
  using heap_kept [OF assms(1,2,5)] fresh_not_parked [of w xs t a] assms(2-4) by (auto simp: rcu_inv_def)

text \<open>How far \<^verbatim>\<open>delete_book\<close> has searched, holding the lock.\<close>

definition scans :: "('l, 'm) world \<Rightarrow> addr list \<Rightarrow> pc \<Rightarrow> bool" where
  "scans w xs p \<longleftrightarrow> (case p of
     At g a \<Rightarrow> deletes g \<longrightarrow> (\<exists>us vs. xs = us @ vs \<and> a = first_of vs \<and> wanted g \<notin> b_id ` set (shelf (shared w) us))
   | Next g a \<Rightarrow> deletes g \<longrightarrow> (\<exists>us vs. xs = us @ a # vs \<and> wanted g \<notin> b_id ` set (shelf (shared w) (us @ [a])))
   | _ \<Rightarrow> True)"

lemma scans_AtI: "xs = us @ vs \<Longrightarrow> a = first_of vs \<Longrightarrow> wanted g \<notin> b_id ` set (shelf (shared w) us) \<Longrightarrow> scans w xs (At g a)"
  unfolding scans_def by auto

lemma scans_NextI: "xs = us @ a # vs \<Longrightarrow> wanted g \<notin> b_id ` set (shelf (shared w) (us @ [a])) \<Longrightarrow> scans w xs (Next g a)"
  unfolding scans_def by auto

lemma first_of_iff: "HEAD \<notin> set vs \<Longrightarrow> first_of vs = a \<longleftrightarrow> (if a = HEAD then vs = [] else \<exists>ys. vs = a # ys)"
  by (cases vs) (auto simp: first_of_def)

lemma scans_found:
  assumes "scans w (us @ a # vs) (At (ToDelete i async) a)" and "distinct (HEAD # us @ a # vs)"
  shows "i \<notin> b_id ` set (shelf (shared w) us)"
proof -
  from assms(1) obtain us' vs' where e: "us @ a # vs = us' @ vs'" "a = first_of vs'" "i \<notin> b_id ` set (shelf (shared w) us')"
    by (auto simp: scans_def)
  have h: "HEAD \<notin> set (us @ a # vs)" using assms(2) by simp
  then have "HEAD \<notin> set vs'" using e(1) by simp
  with e(2) h obtain ys where "vs' = a # ys" using first_of_iff [of vs' a] by (auto split: if_splits)
  with e(1) have "us @ a # vs = us' @ a # ys" by simp
  moreover have "a \<notin> set us" "a \<notin> set vs" using assms(2) by auto
  ultimately have "us' = us" using append_Cons_eq_iff by metis
  with e(3) show ?thesis by simp
qed

lemma shelf_becomes:
  assumes step: "world_step K one_remover w e w'" and inv: "rcu_inv K repr live w xs" and after: "repr (books (shared w')) xs'"
    and agrees: "\<And>t. e = Move t \<Longrightarrow> agrees (shared w) (c t) (d t) (threads w ! t)"
    and scans: "\<And>t. e = Move t \<Longrightarrow> scans w xs (threads w ! t)"
  shows "run becomes (shelf (shared w) xs) (events K w e) (shelf (shared w') xs')"
proof -
  note kept = shelf_kept [OF step inv]
  from step inv after show ?thesis
  proof (cases rule: relinked)
    case same
    have "length (events K w e) \<le> 1" by (auto simp: events_def split: action.splits option.splits)
    then consider "events K w e = []" | ev where "events K w e = [ev]" by (cases "events K w e") auto
    then show ?thesis using same(2,3) kept [of xs] becomes_same by cases auto
  next
    case (add t b)
    from agrees [OF add(1)] add(2) obtain x where x: "heap (shared w) b = Some x" by (auto simp: to_shelve_def)
    have "heap (shared w') b = Some x"
      by (rule fresh_kept [OF step inv _ _ x, of t]) (use mover step add in auto)
    then have "shelf (shared w') xs' = x # shelf (shared w) xs" using add kept [of xs] by (simp add: shelf_def)
    then show ?thesis using add x becomes.shelved by (auto simp: events_move event_list_def event_of_def)
  next
    case (replace t u i async a b us vs)
    from agrees [OF replace(1)] replace(2) obtain x where x: "heap (shared w) a = Some x" "b_id x = i" "\<not> refuses u (b_borrow x)"
        "heap (shared w) b = Some (x\<lparr>b_borrow := new_flag u\<rparr>)" by (auto simp: to_mark_def marks_def)
    have "heap (shared w') b = Some (x\<lparr>b_borrow := new_flag u\<rparr>)"
      by (rule fresh_kept [OF step inv _ _ x(4), of t]) (use mover step replace in auto)
    moreover have "shelf (shared w') us = shelf (shared w) us" "shelf (shared w') vs = shelf (shared w) vs"
      using kept replace(3) by auto
    ultimately have "shelf (shared w') xs' = shelf (shared w) us @ x\<lparr>b_borrow := new_flag u\<rparr> # shelf (shared w) vs"
      "shelf (shared w) xs = shelf (shared w) us @ x # shelf (shared w) vs"
      using replace(3,5) x(1) by (simp_all add: shelf_def)
    then show ?thesis using replace(1,2) becomes.marked [OF x(2,3)] by (simp add: events_move event_list_def event_of_def)
  next
    case (del t i async a us vs)
    have "repr (books (shared w)) (us @ a # vs)" using inv del(5) by (simp add: inv_defs)
    then have "distinct (HEAD # us @ a # vs)" by (rule repr_distinct)
    moreover have "scans w (us @ a # vs) (At (ToDelete i async) a)" using scans [OF del(1)] del(2,5) by simp
    ultimately have "i \<notin> b_id ` set (shelf (shared w) us)" by (intro scans_found)
    moreover have "shelf (shared w') us = shelf (shared w) us" "shelf (shared w') vs = shelf (shared w) vs"
      using kept del(5) by auto
    then have "shelf (shared w') xs' = shelf (shared w) us @ shelf (shared w) vs"
      "shelf (shared w) xs = shelf (shared w) us @ the (heap (shared w) a) # shelf (shared w) vs"
      using del(5,6) by (simp_all add: shelf_def)
    ultimately show ?thesis using del(1-4) becomes.withdrawn [OF del(4)] by (simp add: events_move event_list_def event_of_def)
  qed
qed

text \<open>While \<^verbatim>\<open>delete_book\<close> searches, nobody else changes the list.\<close>

lemma scans_move:
  assumes adv: "proceed K p (shared w) = Some (Inr (p', s'))" and r: "repr (books (shared w)) xs"
    and same: "shelf (shared w') xs = shelf (shared w) xs" and scans: "scans w xs p"
    and p': "\<exists>g a. p' = At g a \<and> deletes g \<or> p' = Next g a \<and> deletes g"
  shows "scans w' xs p'"
proof -
  have sub: "shelf (shared w') us = shelf (shared w) us" if "set us \<subseteq> set xs" for us
    using same that by (auto simp: shelf_def)
  have h: "HEAD \<notin> set xs" using repr_distinct [OF r] by simp
  show ?thesis
  proof (cases p)
    case (Enter g)
    with adv next_head [OF r] have "p' = At g (first_of xs)" by (simp add: succeeds)
    then show ?thesis using scans_AtI [of xs "[]" xs] by (simp add: shelf_def)
  next
    case (Next g a)
    with adv p' have p'': "p' = At g (kl_next (k_list K) (books (shared w)) a)" "deletes g" by (auto simp: succeeds)
    from scans Next p''(2) obtain us vs where xs: "xs = us @ a # vs" "wanted g \<notin> b_id ` set (shelf (shared w) (us @ [a]))"
      by (auto simp: scans_def)
    have "kl_next (k_list K) (books (shared w)) a = first_of vs" using next_entry r xs(1) by simp
    moreover have "shelf (shared w') (us @ [a]) = shelf (shared w) (us @ [a])" using xs(1) by (intro sub) auto
    ultimately show ?thesis using p'' xs scans_AtI [of xs "us @ [a]" vs _ g w'] by simp
  next
    case (At g a)
    with adv p' have p'': "p' = Next g a" "deletes g" "a \<noteq> HEAD" "b_id (the (heap (shared w) a)) \<noteq> wanted g"
      by (cases g; auto simp: succeeds split: if_splits)+
    from scans At p''(2) obtain us vs where xs: "xs = us @ vs" "a = first_of vs" "wanted g \<notin> b_id ` set (shelf (shared w) us)"
      by (auto simp: scans_def)
    have "HEAD \<notin> set vs" using h xs(1) by simp
    with p''(3) xs(2) first_of_iff [of vs a] obtain ys where "vs = a # ys" by metis
    with xs(1) have xs': "xs = us @ a # ys" by simp
    then have "shelf (shared w') (us @ [a]) = shelf (shared w) (us @ [a])" by (intro sub) auto
    moreover have "wanted g \<notin> b_id ` set (shelf (shared w) (us @ [a]))" using xs(3) p''(4) by (auto simp: shelf_def)
    ultimately show ?thesis using scans_NextI [OF xs', of g w'] p''(1) by simp
  next
    case (Ready c)
    with adv p' show ?thesis by (cases c) (auto simp: succeeds)
  qed (use adv p' in \<open>auto simp: succeeds split: if_splits\<close>)
qed

lemma scans_trivial: "\<not> (\<exists>g a. p = At g a \<and> deletes g \<or> p = Next g a \<and> deletes g) \<Longrightarrow> scans w xs p"
  by (cases p) (auto simp: scans_def)

lemma scans_step:
  assumes step: "world_step K one_remover w e w'" and inv: "rcu_inv K repr live w xs" "sync_inv w"
    and after: "repr (books (shared w')) xs'" and r: "r < length (threads w)" and scans: "scans w xs (threads w ! r)"
  shows "scans w' xs' (threads w' ! r)"
proof (cases "\<exists>g a. threads w' ! r = At g a \<and> deletes g \<or> threads w' ! r = Next g a \<and> deletes g")
  case searching: True
  have other: False if t: "t < length (threads w)" "t \<noteq> r" "holds_lock (threads w ! t)" "threads w' ! r = threads w ! r" for t
  proof -
    from searching t(4) have "holds_lock (threads w ! r)" by auto
    moreover have "count_of holds_lock (threads w) \<le> 1" using inv(2) by (simp add: sync_inv_def)
    ultimately show False using count_of_unique [of holds_lock "threads w" r t] r t by blast
  qed
  have unmoved: "threads w' ! r = threads w ! r" if "e = Move t" "t \<noteq> r" for t
    using step that by (auto elim!: world_stepE thread_stepE)
  have same: "xs' = xs \<and> shelf (shared w') xs = shelf (shared w) xs"
    using step inv(1) after
  proof (cases rule: relinked)
    case same
    then show ?thesis using shelf_kept [OF step inv(1)] by simp
  next
    case (add t b)
    then show ?thesis using searching other [of t] unmoved [of t] mover step by (cases "t = r") auto
  next
    case (replace t u i async a b us vs)
    then show ?thesis using searching other [of t] unmoved [of t] mover step by (cases "t = r") auto
  next
    case (del t i async a us vs)
    then show ?thesis using searching other [of t] unmoved [of t] mover step by (cases "t = r") auto
  qed
  show ?thesis
  proof (cases "e = Move r")
    case True
    with step obtain p' s' where "proceed K (threads w ! r) (shared w) = Some (Inr (p', s'))" "threads w' ! r = p'"
      using r by (auto elim!: world_stepE thread_stepE)
    then show ?thesis using scans_move [of "threads w ! r" w] same searching scans inv(1) by (auto simp: inv_defs)
  next
    case False
    have "threads w' ! r = threads w ! r"
      using step False searching by (cases rule: world_step.cases) (auto elim!: thread_stepE callback_stepE simp: nth_list_update split: if_splits)
    with scans same show ?thesis by (auto simp: scans_def shelf_def split: pc.splits) blast+
  qed
qed (rule scans_trivial)

end

end
