(* ===== verification/Rcu_Views.thy ===== *)
theory Rcu_Views
  imports Rcu_Atomic
begin

text \<open>
  What a traversal of the shared library of \<^verbatim>\<open>ksync/rcu_example/list_rcu_example.c\<close> has seen while others change the list. The
  invariant of a reader says that the books it has met are still the same, and that the book it looks for was
  missing at some instant or lies ahead of it. With it the ledger of \<open>Rcu_Atomic\<close> is right in every run with one
  remover at a time: each call has exactly one event, a change made at a single move of the thread or an
  observation that was true at some instant of the call.
\<close>

section \<open>What lies ahead of a traversal\<close>

text \<open>From \<open>a\<close> the next pointers lead to a book with the identifier \<open>i\<close> before they lead to the head.\<close>

inductive ahead :: "('l, 'm) kern \<Rightarrow> ('l, 'm) library \<Rightarrow> int \<Rightarrow> addr \<Rightarrow> bool" for K s i where
  here: "a \<noteq> HEAD \<Longrightarrow> heap s a = Some x \<Longrightarrow> b_id x = i \<Longrightarrow> ahead K s i a"
| beyond: "a \<noteq> HEAD \<Longrightarrow> ahead K s i (kl_next (k_list K) (books s) a) \<Longrightarrow> ahead K s i a"

inductive_cases aheadE: "ahead K s i a"

lemma not_ahead_head: "\<not> ahead K s i HEAD"
  by (auto elim: aheadE)

lemma ahead_next:
  "ahead K s i a \<Longrightarrow> heap s a = Some x \<Longrightarrow> b_id x \<noteq> i \<Longrightarrow> ahead K s i (kl_next (k_list K) (books s) a)"
  by (auto elim: aheadE)

text \<open>An entry on the list in one of the worlds seen.\<close>

definition seen :: "('l \<Rightarrow> addr list \<Rightarrow> bool) \<Rightarrow> ('l, 'm) world list \<Rightarrow> addr \<Rightarrow> book \<Rightarrow> bool" where
  "seen repr ws a x \<longleftrightarrow> (\<exists>v \<in> set ws. on_shelf repr v a x)"

text \<open>
  What a traversal in a read-side section can rely on: an entry seen since the section began is still the same
  book, may be read, and leads to the head or to another entry seen.
\<close>

definition steady :: "('l, 'm) kern \<Rightarrow> ('l \<Rightarrow> addr list \<Rightarrow> bool) \<Rightarrow> ('l, 'm) world \<Rightarrow> addr list \<Rightarrow> tid \<Rightarrow> ('l, 'm) world list \<Rightarrow> bool" where
  "steady K repr w xs t ws \<longleftrightarrow> (\<forall>a x. seen repr ws a x \<longrightarrow>
     may_read w xs t a \<and> heap (shared w) a = Some x \<and>
     (kl_next (k_list K) (books (shared w)) a = HEAD \<or> (\<exists>y. seen repr ws (kl_next (k_list K) (books (shared w)) a) y)))"

text \<open>A traversal for \<open>i\<close> that stands before \<open>a\<close>: the entry was seen, and the book was missing at some instant or lies ahead.\<close>

definition pursues :: "('l, 'm) kern \<Rightarrow> ('l \<Rightarrow> addr list \<Rightarrow> bool) \<Rightarrow> ('l, 'm) world \<Rightarrow> ('l, 'm) world list \<Rightarrow> int \<Rightarrow> addr \<Rightarrow> bool" where
  "pursues K repr w ws i a \<longleftrightarrow>
     (a \<noteq> HEAD \<longrightarrow> (\<exists>x. seen repr ws a x)) \<and> ((\<exists>v \<in> set ws. missing repr v i) \<or> ahead K (shared w) i a)"

definition view_inv :: "('l, 'm) kern \<Rightarrow> ('l \<Rightarrow> addr list \<Rightarrow> bool) \<Rightarrow> ('l, 'm) world \<Rightarrow> addr list \<Rightarrow> tid \<Rightarrow> ('l, 'm) world list \<Rightarrow> bool" where
  "view_inv K repr w xs t ws \<longleftrightarrow> steady K repr w xs t ws \<and>
     (case threads w ! t of
        At g a \<Rightarrow> pursues K repr w ws (wanted g) a
      | Next g a \<Rightarrow> a \<noteq> HEAD \<and> b_id (the (heap (shared w) a)) \<noteq> wanted g \<and> pursues K repr w ws (wanted g) a
      | _ \<Rightarrow> True)"

context rcu_client
begin

lemma ahead_listed:
  assumes "repr (books (shared w)) (us @ vs)" and "set vs \<subseteq> dom (heap (shared w))" and "i \<in> b_id ` set (shelf (shared w) vs)"
  shows "ahead K (shared w) i (first_of vs)"
  using assms
proof (induction vs arbitrary: us)
  case (Cons a vs)
  then obtain x where x: "heap (shared w) a = Some x" by auto
  have a: "a \<noteq> HEAD" using repr_distinct [OF Cons.prems(1)] by auto
  show ?case
  proof (cases "b_id x = i")
    case True
    with a x show ?thesis by (auto simp: first_of_def intro: ahead.here)
  next
    case False
    with Cons.prems(3) x have "i \<in> b_id ` set (shelf (shared w) vs)" by (auto simp: shelf_def)
    with Cons.IH [of "us @ [a]"] Cons.prems(1,2) have "ahead K (shared w) i (first_of vs)" by simp
    moreover have "kl_next (k_list K) (books (shared w)) a = first_of vs" using next_entry Cons.prems(1) by simp
    ultimately show ?thesis using a by (auto simp: first_of_def intro: ahead.beyond)
  qed
qed (simp add: shelf_def)

lemma missing_or_ahead:
  assumes "rcu_inv K repr live w xs"
  shows "missing repr w i \<or> ahead K (shared w) i (kl_next (k_list K) (books (shared w)) HEAD)"
proof -
  have r: "repr (books (shared w)) xs" using assms by (simp add: inv_defs)
  moreover have "set xs \<subseteq> dom (heap (shared w))" using listed_book [OF assms] by auto
  ultimately show ?thesis using missing_iff [OF r] ahead_listed [of w "[]" xs i] next_head [OF r] by auto
qed

text \<open>Whose next pointer changes: the predecessor of an entry replaced or removed.\<close>

lemma next_changed:
  assumes step: "world_step K one_remover w e w'" and inv: "rcu_inv K repr live w xs" and after: "repr (books (shared w')) xs'"
    and a: "a \<noteq> HEAD" "\<forall>t. e = Move t \<longrightarrow> a \<notin> set (fresh (threads w ! t))"
    and changed: "kl_next (k_list K) (books (shared w')) a \<noteq> kl_next (k_list K) (books (shared w)) a"
  obtains (replace) t u i async old b where "e = Move t" "threads w ! t = Locked u i async old b" "old \<in> set xs" "b \<noteq> HEAD"
      "kl_next (k_list K) (books (shared w)) a = old" "kl_next (k_list K) (books (shared w')) a = b"
      "kl_next (k_list K) (books (shared w')) old = kl_next (k_list K) (books (shared w')) b"
    | (del) t i async old us vs where "e = Move t" "threads w ! t = At (ToDelete i async) old" "b_id (the (heap (shared w) old)) = i"
      "xs = us @ old # vs" "xs' = us @ vs" "kl_next (k_list K) (books (shared w)) a = old"
      "kl_next (k_list K) (books (shared w')) a = first_of vs" "kl_next (k_list K) (books (shared w')) old = first_of vs"
proof -
  have r: "repr (books (shared w)) xs" using inv by (simp add: inv_defs)
  have a': "a \<in> set xs'" using next_kept [OF step inv after, of a] changed a(1) by auto
  note nexts = next_entry [of "books (shared w)" _ a] next_entry [of "books (shared w')" _ a]
  from step inv after show ?thesis
  proof (cases rule: relinked)
    case same
    with changed show ?thesis by simp
  next
    case (add t b)
    with a a' have "a \<in> set xs" by auto
    then obtain us vs where xs: "xs = us @ a # vs" using split_list by metis
    then have "xs' = (b # us) @ a # vs" using add by simp
    with nexts [of _ vs] r after xs changed show ?thesis by metis
  next
    case (replace t u i async old b us vs)
    note R = that(1)
    have b: "a \<noteq> b" "b \<noteq> HEAD" using a(2) replace by auto
    with a' replace(5) consider p q where "vs = p @ a # q" | p q where "us = p @ a # q" by (auto dest!: split_list)
    then show ?thesis
    proof cases
      case (1 p q)
      then have "xs = (us @ old # p) @ a # q" "xs' = (us @ b # p) @ a # q" using replace(3,5) by simp_all
      with nexts [of _ q] r after changed show ?thesis by metis
    next
      case (2 p q)
      then have x: "xs = p @ a # (q @ old # vs)" "xs' = p @ a # (q @ b # vs)" using replace(3,5) by simp_all
      with nexts r after have n: "kl_next (k_list K) (books (shared w)) a = first_of (q @ old # vs)"
        "kl_next (k_list K) (books (shared w')) a = first_of (q @ b # vs)" by metis+
      with changed have "q = []" by (cases q) (auto simp: first_of_def)
      moreover have "kl_next (k_list K) (books (shared w')) old = first_of vs"
        using replace_keeps_next [of "books (shared w)" us old vs b] r replace(3,4,7) by simp
      moreover have "kl_next (k_list K) (books (shared w')) b = first_of vs"
        using next_entry after replace(5) by simp
      ultimately show ?thesis using R [of t u i async old b] replace(1-3) b n by (simp add: first_of_def)
    qed
  next
    case (del t i async old us vs)
    note D = that(2)
    from a' del(6) consider p q where "vs = p @ a # q" | p q where "us = p @ a # q" by (auto dest!: split_list)
    then show ?thesis
    proof cases
      case (1 p q)
      then have "xs = (us @ old # p) @ a # q" "xs' = (us @ p) @ a # q" using del(5,6) by simp_all
      with nexts [of _ q] r after changed show ?thesis by metis
    next
      case (2 p q)
      then have x: "xs = p @ a # (q @ old # vs)" "xs' = p @ a # (q @ vs)" using del(5,6) by simp_all
      with nexts r after have n: "kl_next (k_list K) (books (shared w)) a = first_of (q @ old # vs)"
        "kl_next (k_list K) (books (shared w')) a = first_of (q @ vs)" by metis+
      with changed have "q = []" by (cases q) (auto simp: first_of_def)
      moreover have "kl_next (k_list K) (books (shared w')) old = first_of vs"
        using del_keeps_next [of "books (shared w)" us old vs] r del(5,8) by simp
      ultimately show ?thesis using D [OF del(1,2,4,5,6)] n by (simp add: first_of_def)
    qed
  qed
qed

text \<open>A book still private to its thread cannot be read by another.\<close>

lemma fresh_unreadable:
  assumes inv: "rcu_inv K repr live w xs" and t: "t < length (threads w)" "a \<in> set (fresh (threads w ! t))"
  shows "\<not> may_read w xs r a"
proof -
  have mem: "memory_inv repr live w xs" using inv by (simp add: rcu_inv_def)
  have o: "a \<in> set (owned (threads w ! t))" "a \<notin> set (retired (threads w ! t))"
    using t(2) by (cases "threads w ! t"; simp add: owned_def)+
  have "a \<notin> retired_in (threads w)"
    using single_owner(2) [OF mem t(1) o(1)] o(2) by (auto simp: in_retired owned_def)
  moreover have "a \<notin> set xs" "a \<noteq> HEAD"
    using in_holdings [OF t(1) o(1)] memory_invD(3,4) [OF mem, of a] mem by (auto simp: memory_inv_def)
  ultimately show ?thesis using fresh_not_parked [OF mem t] inv by (auto simp: may_read_def inv_defs)
qed

text \<open>
  A step leaves the book ahead, or it is the removal of the only book with that identifier.
\<close>

lemma ahead_kept:
  assumes step: "world_step K one_remover w e w'" and inv: "rcu_inv K repr live w xs" and inv': "rcu_inv K repr live w' xs'"
    and agrees: "\<And>t. e = Move t \<Longrightarrow> agrees (shared w) (c t) (d t) (threads w ! t)"
    and scans: "\<And>t. e = Move t \<Longrightarrow> scans w xs (threads w ! t)"
    and steady: "steady K repr w xs r ws"
    and a: "ahead K (shared w) i a" "a = HEAD \<or> (\<exists>x. seen repr ws a x)"
  shows "missing repr w' i \<or> ahead K (shared w') i a"
  using a
proof (induction rule: ahead.induct)
  case (here a x)
  then have "heap (shared w) a = Some x" "may_read w xs r a" using steady by (auto simp: steady_def)
  then have "heap (shared w') a = Some x" using heap_kept [OF step inv] readable_held [OF inv _ here(1)] by blast
  with here show ?case by (auto intro: ahead.here)
next
  case (beyond a)
  have after: "repr (books (shared w')) xs'" and r: "repr (books (shared w)) xs" using inv inv' by (simp_all add: inv_defs)
  from beyond.prems beyond.hyps(1) obtain x where x: "seen repr ws a x" by auto
  show ?case
  proof (cases "missing repr w' i")
    case False
    with beyond.IH x steady have IH: "ahead K (shared w') i (kl_next (k_list K) (books (shared w)) a)" by (auto simp: steady_def)
    have apart: "\<forall>t. e = Move t \<longrightarrow> a \<notin> set (fresh (threads w ! t))"
      using x steady fresh_unreadable [OF inv] mover step unfolding steady_def by blast
    show ?thesis
    proof (cases "kl_next (k_list K) (books (shared w')) a = kl_next (k_list K) (books (shared w)) a")
      case True
      with IH beyond.hyps(1) show ?thesis by (auto intro: ahead.beyond)
    next
      case changed: False
      from step inv after beyond.hyps(1) apart changed have "ahead K (shared w') i (kl_next (k_list K) (books (shared w')) a)"
      proof (cases rule: next_changed)
        case (replace t u j async old b)
        from agrees [OF replace(1)] replace(2) obtain y where y: "heap (shared w) old = Some y"
            "heap (shared w) b = Some (y\<lparr>b_borrow := new_flag u\<rparr>)" by (auto simp: marks_def)
        have y': "heap (shared w') old = Some y" "heap (shared w') b = Some (y\<lparr>b_borrow := new_flag u\<rparr>)"
          using listed_kept [OF step inv replace(3)] fresh_kept [OF step inv _ _ y(2), of t] y mover step replace(1,2) by auto
        from IH replace(5) have "ahead K (shared w') i old" by simp
        then consider "b_id y = i" | "ahead K (shared w') i (kl_next (k_list K) (books (shared w')) old)"
          using y'(1) by (auto elim: aheadE)
        then have "ahead K (shared w') i b"
          using y'(2) replace(4,7) by cases (auto intro: ahead.intros)
        with replace(6) show ?thesis by simp
      next
        case (del t j async old us vs)
        from IH del(6) have "ahead K (shared w') i old" by simp
        then consider (it) y where "heap (shared w') old = Some y" "b_id y = i"
          | (on) "ahead K (shared w') i (kl_next (k_list K) (books (shared w')) old)"
          by (auto elim: aheadE)
        then have "ahead K (shared w') i (first_of vs)"
        proof cases
          case it
          have "distinct (HEAD # us @ old # vs)" using repr_distinct [OF r] del(4) by simp
          moreover have "scans w (us @ old # vs) (At (ToDelete j async) old)" using scans [OF del(1)] del(2,4) by simp
          ultimately have "j \<notin> b_id ` set (shelf (shared w) us)" by (intro scans_found)
          moreover have "heap (shared w') old = heap (shared w) old" using listed_kept [OF step inv] del(4) by simp
          then have "j = i" using it del(3) by (metis option.sel)
          moreover have "shelf (shared w') us = shelf (shared w) us" using shelf_kept [OF step inv, of us] del(4) by auto
          ultimately have "i \<in> b_id ` set (shelf (shared w') vs)"
            using False missing_iff [OF after] del(5) by (auto simp: shelf_def)
          moreover have "set vs \<subseteq> dom (heap (shared w'))" using listed_book [OF inv'] del(5) by auto
          ultimately show ?thesis using ahead_listed after del(5) by blast
        next
          case on
          with del(8) show ?thesis by simp
        qed
        with del(7) show ?thesis by simp
      qed
      with beyond.hyps(1) show ?thesis by (auto intro: ahead.beyond)
    qed
  qed simp
qed

section \<open>Every step keeps the views\<close>

lemma seen_snoc: "seen repr (ws @ [w]) a x \<longleftrightarrow> seen repr ws a x \<or> on_shelf repr w a x"
  by (auto simp: seen_def)

lemma seen_not_head: "seen repr ws a x \<Longrightarrow> a \<noteq> HEAD"
proof -
  assume "seen repr ws a x"
  then obtain v xs where "v \<in> set ws" "repr (books (shared v)) xs" "a \<in> set xs" by (auto simp: seen_def on_shelf_def)
  with repr_distinct [OF this(2)] show ?thesis by (metis distinct.simps(2))
qed

lemma on_shelf_now:
  assumes "rcu_inv K repr live w xs" and "on_shelf repr w a x"
  shows "may_read w xs t a" and "heap (shared w) a = Some x"
    and "kl_next (k_list K) (books (shared w)) a = HEAD \<or> (\<exists>y. on_shelf repr w (kl_next (k_list K) (books (shared w)) a) y)"
proof -
  have r: "repr (books (shared w)) xs" using assms(1) by (simp add: inv_defs)
  with assms(2) have a: "a \<in> set xs" "heap (shared w) a = Some x" by (simp_all add: on_shelf_iff)
  then show "may_read w xs t a" and "heap (shared w) a = Some x" by (simp_all add: may_read_def)
  show "kl_next (k_list K) (books (shared w)) a = HEAD \<or> (\<exists>y. on_shelf repr w (kl_next (k_list K) (books (shared w)) a) y)"
    using next_on_list [OF r a(1)] listed_book [OF assms(1)] on_shelf_iff [OF r] by auto
qed

lemma steady_begins: "rcu_inv K repr live w xs \<Longrightarrow> steady K repr w xs t [w]"
  using on_shelf_now [of w xs] by (auto simp: steady_def seen_def)

lemma steady_kept:
  assumes step: "world_step K one_remover w e w'" and inv: "rcu_inv K repr live w xs" and inv': "rcu_inv K repr live w' xs'"
    and r: "r < length (threads w)" "in_section (threads w ! r)" "in_section (threads w' ! r)"
    and steady: "steady K repr w xs r ws"
  shows "steady K repr w' xs' r (ws @ [w'])"
proof -
  have after: "repr (books (shared w')) xs'" using inv' by (simp add: inv_defs)
  have "may_read w' xs' r a \<and> heap (shared w') a = Some x \<and>
      (kl_next (k_list K) (books (shared w')) a = HEAD \<or> (\<exists>y. seen repr (ws @ [w']) (kl_next (k_list K) (books (shared w')) a) y))"
    if a: "seen repr ws a x" for a x
  proof -
    from a steady have old: "may_read w xs r a" "heap (shared w) a = Some x"
      "kl_next (k_list K) (books (shared w)) a = HEAD \<or> (\<exists>y. seen repr ws (kl_next (k_list K) (books (shared w)) a) y)"
      by (auto simp: steady_def)
    note h = seen_not_head [OF a]
    have heap: "heap (shared w') a = Some x" using heap_kept [OF step inv old(2)] readable_held [OF inv old(1) h] by blast
    moreover have "kl_next (k_list K) (books (shared w')) a = HEAD \<or> (\<exists>y. seen repr (ws @ [w']) (kl_next (k_list K) (books (shared w')) a) y)"
    proof (cases "a \<in> set xs'")
      case True
      then have "on_shelf repr w' a x" using heap on_shelf_iff [OF after] by simp
      from on_shelf_now(3) [OF inv' this] show ?thesis by (auto simp: seen_snoc)
    next
      case False
      with next_kept [OF step inv after, of a] h old(3) show ?thesis by (auto simp: seen_snoc)
    qed
    ultimately show ?thesis using may_read_kept [OF step inv after r old(1)] by blast
  qed
  then show ?thesis using on_shelf_now [OF inv'] unfolding steady_def seen_snoc by blast
qed

lemma pursues_kept:
  assumes step: "world_step K one_remover w e w'" and inv: "rcu_inv K repr live w xs" "rcu_inv K repr live w' xs'"
    and made: "\<And>t. e = Move t \<Longrightarrow> agrees (shared w) (c t) (d t) (threads w ! t)" "\<And>t. e = Move t \<Longrightarrow> scans w xs (threads w ! t)"
    and steady: "steady K repr w xs r ws" and p: "pursues K repr w ws i a"
  shows "pursues K repr w' (ws @ [w']) i a"
  using p ahead_kept [OF step inv made steady, of i a] by (auto simp: pursues_def seen_snoc)

text \<open>The moves of the traversal itself.\<close>

lemma pursues_next:
  assumes steady: "steady K repr w xs r ws" and p: "pursues K repr w ws i a" and a: "a \<noteq> HEAD" "b_id (the (heap (shared w) a)) \<noteq> i"
  shows "pursues K repr w ws i (kl_next (k_list K) (books (shared w)) a)"
proof -
  from p a(1) obtain x where "seen repr ws a x" by (auto simp: pursues_def)
  with steady have "heap (shared w) a = Some x"
    "kl_next (k_list K) (books (shared w)) a = HEAD \<or> (\<exists>y. seen repr ws (kl_next (k_list K) (books (shared w)) a) y)"
    by (auto simp: steady_def)
  with p a show ?thesis using ahead_next [of K "shared w" i a x] by (auto simp: pursues_def)
qed

lemma pursues_enter:
  assumes inv: "rcu_inv K repr live w xs" and now: "w \<in> set ws"
  shows "pursues K repr w ws i (kl_next (k_list K) (books (shared w)) HEAD)"
proof -
  have r: "repr (books (shared w)) xs" using inv by (simp add: inv_defs)
  have "kl_next (k_list K) (books (shared w)) HEAD \<in> insert HEAD (set xs)"
    by (simp add: next_head [OF r] first_of_def split: list.splits)
  then have "kl_next (k_list K) (books (shared w)) HEAD \<noteq> HEAD \<longrightarrow>
      (\<exists>x. on_shelf repr w (kl_next (k_list K) (books (shared w)) HEAD) x)"
    using listed_book [OF inv] on_shelf_iff [OF r] by auto
  with missing_or_ahead [OF inv, of i] now show ?thesis unfolding pursues_def seen_def by blast
qed

lemma section_entry: "proceed K p s = Some (Inr (p', s')) \<Longrightarrow> in_section p' \<Longrightarrow> in_section p \<or> (\<exists>c. p = Ready c)"
proof (cases p)
  case (At g a)
  then show "proceed K p s = Some (Inr (p', s')) \<Longrightarrow> in_section p' \<Longrightarrow> ?thesis"
    by (cases g) (auto simp: succeeds split: if_splits)
qed (auto simp: succeeds split: if_splits)

lemma view_move:
  assumes step: "world_step K one_remover w (Move r) w'" and inv: "rcu_inv K repr live w xs" "rcu_inv K repr live w' xs'"
    and made: "agrees (shared w) (c r) (d r) (threads w ! r)" "scans w xs (threads w ! r)"
    and sec: "in_section (threads w ! r)" "in_section (threads w' ! r)"
    and view: "view_inv K repr w xs r ws" and now: "w \<in> set ws"
  shows "view_inv K repr w' xs' r (ws @ [w'])"
proof -
  have r: "r < length (threads w)" by (rule mover [OF step])
  have steady: "steady K repr w xs r ws" using view by (simp add: view_inv_def)
  note kept = pursues_kept [OF step inv _ _ steady, of c d, simplified, OF made]
  from step r obtain p' s' where adv: "proceed K (threads w ! r) (shared w) = Some (Inr (p', s'))"
    and w': "threads w' ! r = p'" "shared w' = s'" by (auto elim!: world_stepE thread_stepE)
  have "case p' of At g a \<Rightarrow> pursues K repr w' (ws @ [w']) (wanted g) a
      | Next g a \<Rightarrow> a \<noteq> HEAD \<and> b_id (the (heap (shared w') a)) \<noteq> wanted g \<and> pursues K repr w' (ws @ [w']) (wanted g) a
      | _ \<Rightarrow> True"
  proof (cases "threads w ! r")
    case (Enter g)
    with adv have "p' = At g (kl_next (k_list K) (books (shared w)) HEAD)" by (simp add: succeeds)
    then show ?thesis using kept [OF pursues_enter [OF inv(1) now]] by simp
  next
    case (Next g a)
    with adv view have "p' = At g (kl_next (k_list K) (books (shared w)) a)" "a \<noteq> HEAD"
      "b_id (the (heap (shared w) a)) \<noteq> wanted g" "pursues K repr w ws (wanted g) a"
      by (auto simp: succeeds view_inv_def)
    then show ?thesis using kept [OF pursues_next [OF steady]] by simp
  next
    case (At g a)
    with view have p: "pursues K repr w ws (wanted g) a" by (simp add: view_inv_def)
    show ?thesis
    proof (cases "p' = Next g a")
      case True
      with adv At w'(2) have "a \<noteq> HEAD" "b_id (the (heap (shared w') a)) \<noteq> wanted g"
        by (cases g; auto simp: succeeds split: if_splits)+
      with True kept [OF p] show ?thesis by simp
    next
      case False
      with adv At sec(2) w'(1) show ?thesis by (cases g) (auto simp: succeeds split: if_splits)
    qed
  qed (use adv sec in \<open>auto simp: succeeds split: if_splits\<close>)
  moreover have "steady K repr w' xs' r (ws @ [w'])" by (rule steady_kept [OF step inv r sec steady])
  ultimately show ?thesis using w'(1) by (simp add: view_inv_def)
qed

lemma unmoved:
  assumes "world_step K one_remover w e w'" and "e \<noteq> Move r" and "\<forall>c. e \<noteq> Call r c"
  shows "threads w' ! r = threads w ! r"
  using assms(1)
proof cases
  case (called t x c)
  with assms(3) have "t \<noteq> r" by auto
  with called show ?thesis by simp
next
  case (stepped t)
  with assms(2) have "t \<noteq> r" by auto
  with stepped(3) show ?thesis by (auto elim: thread_stepE)
qed (auto elim: callback_stepE)

lemma view_other:
  assumes step: "world_step K one_remover w e w'" and inv: "rcu_inv K repr live w xs" "rcu_inv K repr live w' xs'"
    and made: "\<And>t. e = Move t \<Longrightarrow> agrees (shared w) (c t) (d t) (threads w ! t)" "\<And>t. e = Move t \<Longrightarrow> scans w xs (threads w ! t)"
    and r: "r < length (threads w)" and still: "threads w' ! r = threads w ! r"
    and sec: "in_section (threads w ! r)" and view: "view_inv K repr w xs r ws"
  shows "view_inv K repr w' xs' r (ws @ [w'])"
proof -
  have steady: "steady K repr w xs r ws" using view by (simp add: view_inv_def)
  note kept = pursues_kept [OF step inv made steady]
  have "steady K repr w' xs' r (ws @ [w'])" by (rule steady_kept [OF step inv r sec _ steady]) (use sec still in simp)
  moreover have "heap (shared w') a = heap (shared w) a" if "threads w ! r = Next g a" for g a
  proof -
    from that view obtain x where "seen repr ws a x" "a \<noteq> HEAD" by (auto simp: view_inv_def pursues_def)
    with steady have "heap (shared w) a = Some x" "\<not> (parked w a \<and> grace w a = [])"
      using readable_held [OF inv(1), of r a] by (auto simp: steady_def)
    with heap_kept [OF step inv(1)] show ?thesis by simp
  qed
  ultimately show ?thesis using view kept still by (auto simp: view_inv_def split: pc.splits)
qed

section \<open>The ledger is right\<close>

definition thread_inv :: "('l, 'm) world \<Rightarrow> addr list \<Rightarrow> ('l, 'm) ledger \<Rightarrow> tid \<Rightarrow> bool" where
  "thread_inv w xs L t \<longleftrightarrow>
     agrees (shared w) (asked L t) (did L t) (threads w ! t) \<and> scans w xs (threads w ! t) \<and>
     (active (threads w ! t) \<longrightarrow> w \<in> set (since L t)) \<and>
     (in_section (threads w ! t) \<longrightarrow> view_inv K repr w xs t (since L t)) \<and>
     (\<forall>ev \<in> set (did L t). explained K repr (since L t) ev) \<and>
     voiced (asked L t) (did L t) (said L t) (threads w ! t)"

definition ledger_inv :: "('l, 'm) world \<times> ('l, 'm) ledger \<Rightarrow> bool" where
  "ledger_inv c \<longleftrightarrow> sync_inv (fst c) \<and> (\<exists>xs. rcu_inv K repr live (fst c) xs \<and>
     run becomes [] (history (snd c)) (shelf (shared (fst c)) xs) \<and>
     (\<forall>t < length (threads (fst c)). thread_inv (fst c) xs (snd c) t))"

lemma agrees_kept:
  assumes step: "world_step K one_remover w e w'" and inv: "rcu_inv K repr live w xs" and r: "r < length (threads w)"
    and ag: "agrees (shared w) c d (threads w ! r)"
  shows "agrees (shared w') c d (threads w ! r)"
proof -
  have on: "heap (shared w') a = heap (shared w) a" if "a \<in> set (target (threads w ! r))" for a
    using listed_kept [OF step inv] inv_thread(1) [OF inv r] that by auto
  have new: "heap (shared w') a = Some x" if "a \<in> set (fresh (threads w ! r))" "heap (shared w) a = Some x" for a x
    by (rule fresh_kept [OF step inv r that])
  show ?thesis
  proof (cases "threads w ! r")
    case (Found u i async a)
    with ag on [of a] show ?thesis by (auto simp: to_mark_def target_def)
  next
    case (Copied u i async a b)
    with ag on [of a] new [of b] show ?thesis by (auto simp: to_mark_def marks_def target_def)
  next
    case (Locked u i async a b)
    with ag on [of a] new [of b] show ?thesis by (auto simp: to_mark_def marks_def target_def)
  next
    case (Add_new b)
    with ag new [of b] show ?thesis by (auto simp: to_shelve_def)
  next
    case (Add_locked b)
    with ag new [of b] show ?thesis by (auto simp: to_shelve_def)
  qed (use ag in auto)
qed

text \<open>An event is explained by what the thread has seen.\<close>

lemma event_explained:
  assumes inv: "rcu_inv K repr live w xs" and t: "t < length (threads w)" and thr: "thread_inv w xs L t"
  shows "\<forall>ev \<in> set (event_list K (shared w) (threads w ! t)). explained K repr (since L t) ev"
proof (cases "threads w ! t")
  case (At g a)
  show ?thesis
  proof (cases "deletes g")
    case True
    show ?thesis
    proof (cases "a = HEAD")
      case head: True
      have r: "repr (books (shared w)) xs" using inv by (simp add: inv_defs)
      from thr At True head obtain us vs where "xs = us @ vs" "first_of vs = HEAD" "wanted g \<notin> b_id ` set (shelf (shared w) us)"
        by (auto simp: thread_inv_def scans_def)
      moreover from this repr_distinct [OF r] first_of_iff [of vs HEAD] have "vs = []" by simp
      ultimately have "missing repr w (wanted g)" using missing_iff [OF r] by simp
      moreover have "w \<in> set (since L t)" using thr At by (simp add: thread_inv_def)
      ultimately show ?thesis using At head by (auto simp: event_list_def event_of_def)
    next
      case False
      with At True show ?thesis by (cases g) (auto simp: event_list_def event_of_def)
    qed
  next
    case False
    with thr At have v: "steady K repr w xs t (since L t)" "pursues K repr w (since L t) (wanted g) a"
      by (auto simp: thread_inv_def view_inv_def)
    show ?thesis
    proof (cases "a = HEAD")
      case True
      with v(2) At show ?thesis by (auto simp: pursues_def not_ahead_head event_list_def event_of_def)
    next
      case a: False
      with v obtain x where "seen repr (since L t) a x" "heap (shared w) a = Some x" by (auto simp: pursues_def steady_def)
      with At a False show ?thesis by (cases g) (auto simp: event_list_def event_of_def seen_def)
    qed
  qed
next
  case (Ready c)
  with early_events(1) [of K "shared w" c] show ?thesis by auto
next
  case (Found u i async a)
  moreover have "w \<in> set (since L t)" using thr Found by (simp add: thread_inv_def)
  ultimately show ?thesis using early_events(2) [of K "shared w" u i async a] by (auto simp: starved_def)
qed (auto simp: event_list_def event_of_def)

lemma thread_inv_move:
  assumes step: "world_step K one_remover w (Move t) w'" and inv: "rcu_inv K repr live w xs" "rcu_inv K repr live w' xs'"
    and sync: "sync_inv w" and thr: "thread_inv w xs L t"
  shows "thread_inv w' xs' (logged K w (Move t) w' L) t"
proof -
  have t: "t < length (threads w)" by (rule mover [OF step])
  from step t obtain p' s' where adv: "proceed K (threads w ! t) (shared w) = Some (Inr (p', s'))"
    and w': "threads w' ! t = p'" "shared w' = s'" by (auto elim!: world_stepE thread_stepE)
  let ?L = "logged K w (Move t) w' L"
  have after: "repr (books (shared w')) xs'" using inv(2) by (simp add: inv_defs)
  have ag: "agrees (shared w) (asked L t) (did L t) (threads w ! t)" and sc: "scans w xs (threads w ! t)"
    using thr by (simp_all add: thread_inv_def)
  have "b \<notin> dom (heap (shared w))" if "km_alloc (k_mem K) (kmem_state (shared w)) = (Some b, m')" for b m'
    using alloc_fresh [OF that] inv(1) by (auto simp: inv_defs)
  then have "agrees (shared w') (asked ?L t) (did ?L t) (threads w' ! t)"
    using agrees_move [OF adv ag] w' by (simp add: logged_def events_move)
  moreover have "scans w' xs' (threads w' ! t)" by (rule scans_step [OF step inv(1) sync after t sc])
  moreover have active: "active (threads w ! t)" if "active (threads w' ! t)"
    using that adv w' by (cases "threads w ! t") (auto simp: succeeds)
  then have "w' \<in> set (since ?L t)" if "active (threads w' ! t)" using that by (simp add: logged_def)
  moreover have "view_inv K repr w' xs' t (since ?L t)" if sec: "in_section (threads w' ! t)"
  proof (cases "begins w (Move t) t")
    case True
    then obtain c where "threads w ! t = Ready c" by (auto simp: begins_def split: pc.splits)
    with adv have "\<exists>g. p' = Enter g" using sec w'(1) by (cases c) (auto simp: succeeds)
    then show ?thesis using steady_begins [OF inv(2)] True w'(1) by (auto simp: view_inv_def logged_def)
  next
    case False
    have act: "active (threads w ! t)" using sec in_section_active active by blast
    have sec0: "in_section (threads w ! t)"
      using section_entry [OF adv] sec w'(1) False by (auto simp: begins_def)
    then have "view_inv K repr w' xs' t (since L t @ [w'])"
      using thr act by (intro view_move [OF step inv _ sc sec0 sec, where c = "asked L" and d = "did L"])
        (simp_all add: thread_inv_def)
    then show ?thesis using False act by (simp add: logged_def)
  qed
  moreover have "\<forall>ev \<in> set (did ?L t). explained K repr (since ?L t) ev"
  proof (cases "begins w (Move t) t")
    case True
    then obtain c where c: "threads w ! t = Ready c" by (auto simp: begins_def split: pc.splits)
    then have "did L t = []" using ag by simp
    then show ?thesis using c early_events(1) [of K "shared w" c] by (auto simp: logged_def events_move)
  next
    case False
    then have "set (since L t) \<subseteq> set (since ?L t)" by (auto simp: logged_def)
    moreover have "\<forall>ev \<in> set (did ?L t). explained K repr (since L t) ev"
      using event_explained [OF inv(1) t thr] thr by (auto simp: logged_def events_move thread_inv_def)
    ultimately show ?thesis using explained_mono by blast
  qed
  moreover have "voiced (asked ?L t) (did ?L t) (said ?L t) (threads w' ! t)"
    using voiced_move [OF adv ag, of "said L t"] thr w' by (simp add: logged_def events_move thread_inv_def)
  ultimately show ?thesis by (simp add: thread_inv_def)
qed

lemma thread_inv_step:
  assumes step: "world_step K one_remover w e w'" and inv: "rcu_inv K repr live w xs" "rcu_inv K repr live w' xs'"
    and sync: "sync_inv w" and thr: "\<forall>t < length (threads w). thread_inv w xs L t" and r: "r < length (threads w)"
  shows "thread_inv w' xs' (logged K w e w' L) r"
proof -
  consider (move) "e = Move r" | (call) c where "e = Call r c" | (other) "e \<noteq> Move r" "\<forall>c. e \<noteq> Call r c" by blast
  then show ?thesis
  proof cases
    case move
    with thread_inv_move [OF _ inv sync] step thr r show ?thesis by simp
  next
    case call
    with step have "threads w' ! r = Ready c" by (auto elim: world_stepE)
    with call show ?thesis by (simp add: thread_inv_def logged_def begins_def events_def scans_def voiced_def)
  next
    case other
    let ?L = "logged K w e w' L"
    have after: "repr (books (shared w')) xs'" using inv(2) by (simp add: inv_defs)
    have still: "threads w' ! r = threads w ! r" by (rule unmoved [OF step other])
    have old: "thread_inv w xs L r" using thr r by simp
    have L: "asked ?L r = asked L r" "did ?L r = did L r" "said ?L r = said L r" "\<not> begins w e r"
      using other by (auto simp: logged_def begins_def split: action.splits)
    then have since: "since ?L r = (if active (threads w ! r) then since L r @ [w'] else since L r)" by (simp add: logged_def)
    have "agrees (shared w') (asked ?L r) (did ?L r) (threads w' ! r)"
      using agrees_kept [OF step inv(1) r] old still L by (simp add: thread_inv_def)
    moreover have "scans w' xs' (threads w' ! r)"
      using scans_step [OF step inv(1) sync after r] old by (simp add: thread_inv_def)
    moreover have "w' \<in> set (since ?L r)" if "active (threads w' ! r)" using that still since by simp
    moreover have "view_inv K repr w' xs' r (since ?L r)" if "in_section (threads w' ! r)"
    proof -
      have sec: "in_section (threads w ! r)" "active (threads w ! r)" using that still in_section_active by auto
      have "agrees (shared w) (asked L t) (did L t) (threads w ! t)" "scans w xs (threads w ! t)" if "e = Move t" for t
        using thr mover step that by (auto simp: thread_inv_def)
      from view_other [OF step inv this r still sec(1)] old sec since show ?thesis by (simp add: thread_inv_def)
    qed
    moreover have "set (since L r) \<subseteq> set (since ?L r)" using since by auto
    then have "\<forall>ev \<in> set (did ?L r). explained K repr (since ?L r) ev"
      using old explained_mono L(2) unfolding thread_inv_def by metis
    moreover have "voiced (asked ?L r) (did ?L r) (said ?L r) (threads w' ! r)" using old still L by (simp add: thread_inv_def)
    ultimately show ?thesis by (simp add: thread_inv_def)
  qed
qed

lemma ledger_step:
  assumes step: "logged_step K c e c'" and inv: "ledger_inv c"
  shows "ledger_inv c'"
proof -
  obtain w L where c: "c = (w, L)" by (cases c)
  obtain w' L' where c': "c' = (w', L')" by (cases c')
  from step c c' have st: "world_step K one_remover w e w'" and L': "L' = logged K w e w' L" by (simp_all add: logged_step_def)
  from inv c obtain xs where sync: "sync_inv w" and rcu: "rcu_inv K repr live w xs"
    and hist: "run becomes [] (history L) (shelf (shared w) xs)" and thr: "\<forall>t < length (threads w). thread_inv w xs L t"
    by (auto simp: ledger_inv_def)
  obtain xs' where rcu': "rcu_inv K repr live w' xs'" using world_step_keeps [OF st sync rcu] by blast
  have after: "repr (books (shared w')) xs'" using rcu' by (simp add: inv_defs)
  have "agrees (shared w) (asked L t) (did L t) (threads w ! t)" "scans w xs (threads w ! t)" if "e = Move t" for t
    using thr mover st that by (auto simp: thread_inv_def)
  from shelf_becomes [OF st rcu after this] hist
  have "run becomes [] (history L @ events K w e) (shelf (shared w') xs')" by (auto simp: run_append)
  moreover have "\<forall>t < length (threads w'). thread_inv w' xs' L' t"
    using thread_inv_step [OF st rcu rcu' sync thr] step_length [OF st] L' by simp
  ultimately show ?thesis using step_sync [OF st sync] rcu' c' L' by (auto simp: ledger_inv_def logged_def)
qed

lemma ledger_boot: "ledger_inv (boot K m n, empty_ledger)"
  using sync_inv_boot [of K m n] boot_inv [of m n]
  by (auto simp: ledger_inv_def thread_inv_def boot_def empty_ledger_def shelf_def scans_def voiced_def intro!: exI [of _ "[]"])

end

sublocale rcu_client \<subseteq> ledgers: inductive_invariant "\<lambda>c. \<exists>m n. c = (boot K m n, empty_ledger)" ledger_inv "logged_step K"
  by unfold_locales (auto simp: ledger_boot intro: ledger_step)

context rcu_client
begin

lemma ledger_reached:
  assumes "run (logged_step K) (boot K m n, empty_ledger) es (w, L)"
  obtains xs where "rcu_inv K repr live w xs" and "run becomes [] (history L) (shelf (shared w) xs)"
    and "\<And>t. t < n \<Longrightarrow> agrees (shared w) (asked L t) (did L t) (threads w ! t)"
    and "\<And>t ev. t < n \<Longrightarrow> ev \<in> set (did L t) \<Longrightarrow> explained K repr (since L t) ev"
    and "\<And>t. t < n \<Longrightarrow> voiced (asked L t) (did L t) (said L t) (threads w ! t)"
proof -
  have "ledger_inv (w, L)" by (rule ledgers.reached_inv [OF _ assms]) blast
  moreover have "length (threads w) = n"
    using logged_run [OF assms] by (intro length_threads [of K one_remover m]) (auto simp: reachable_def)
  ultimately show ?thesis using that by (auto simp: ledger_inv_def thread_inv_def)
qed

end

section \<open>A scripted run\<close>

text \<open>
  Thread 0 adds book 7, thread 1 starts to print it and stands on it, thread 0 deletes it and waits; thread 1 prints it.
\<close>

definition overlapping :: "action list" where
  "overlapping = Call 0 (Add_book 7 ''SICP'' ''HA'') # replicate 4 (Move 0) @
     Call 1 (Print_book 7) # replicate 2 (Move 1) @ Call 0 (Delete_book 7 0) # replicate 5 (Move 0) @ [Move 1, Move 0]"

lemma overlapping_run:
  "at_end (\<lambda>w. threads w = [Done 0, Done 0] \<and> kl_next (k_list demo_kern) (books (shared w)) HEAD = HEAD)
     (play (happens demo_kern one_remover) demo_boot overlapping)"
  by code_simp

lemma overlapping_world:
  obtains w where "run (world_step demo_kern one_remover) (boot demo_kern \<lparr>used = [], fails = []\<rparr> 2) overlapping w"
    and "threads w = [Done 0, Done 0]"
  using overlapping_run world.play_iff [of demo_kern one_remover demo_boot overlapping]
  by (auto simp: at_end_def demo_boot_def split: option.splits)

text \<open>Then thread 0 asks for the book that is gone.\<close>

definition late_borrower :: "action list" where
  "late_borrower = overlapping @ Call 0 (Borrow_book 7 0) # replicate 3 (Move 0)"

lemma late_borrower_run:
  "at_end (\<lambda>w. threads w = [Done (-1), Done 0]) (play (happens demo_kern one_remover) demo_boot late_borrower)"
  by code_simp

lemma late_borrower_world:
  obtains w where "run (world_step demo_kern one_remover) (boot demo_kern \<lparr>used = [], fails = []\<rparr> 2) late_borrower w"
    and "threads w = [Done (-1), Done 0]"
  using late_borrower_run world.play_iff [of demo_kern one_remover demo_boot late_borrower]
  by (auto simp: at_end_def demo_boot_def split: option.splits)

text \<open>What a thread was last asked.\<close>

definition asked_after :: "action list \<Rightarrow> (tid \<Rightarrow> op) \<Rightarrow> tid \<Rightarrow> op" where
  "asked_after es = fold (\<lambda>e f. case e of Call t c \<Rightarrow> f(t := c) | _ \<Rightarrow> f) es"

lemma asked_run: "run (logged_step K) c es c' \<Longrightarrow> asked (snd c') = asked_after es (asked (snd c))"
  by (induction rule: run.induct) (auto simp: asked_after_def logged_step_def logged_def split: action.splits)

lemma asked_last: "run (logged_step K) (w0, L0) es (w, L) \<Longrightarrow> asked L = asked_after es (asked L0)"
  using asked_run by fastforce

lemma demo_laws: "rcu_list (k_list demo_kern) ring" "kernel_memory (k_mem demo_kern) pool_live"
  by (simp_all add: ptr_rcu.rcu_list_axioms pool.kernel_memory_axioms)

section \<open>Properties\<close>

text \<open>
  C2: with one remover at a time, every interleaving of the calls is a run of the abstract library. The books on the
  list are those that result from the changes in the order in which they were made, each at a single move
  of its thread, and every call that has returned has exactly one event, which fits its arguments and its
  result.
\<close>

theorem calls_take_effect_atomically:
  assumes "rcu_list (k_list K) repr" and "kernel_memory (k_mem K) live"
    and "run (world_step K one_remover) (boot K m n) es w"
  shows "\<exists>L xs. run (logged_step K) (boot K m n, empty_ledger) es (w, L) \<and>
     repr (books (shared w)) xs \<and> run becomes [] (history L) (shelf (shared w) xs) \<and>
     (\<forall>t < n. \<forall>r. threads w ! t = Done r \<longrightarrow> outcome (asked L t) r (did L t))"
proof -
  have c: "rcu_client K repr live" using assms(1,2) by (simp add: rcu_client_def)
  obtain L where L: "run (logged_step K) (boot K m n, empty_ledger) es (w, L)" using run_logged [OF assms(3)] by blast
  obtain xs where xs: "rcu_inv K repr live w xs" "run becomes [] (history L) (shelf (shared w) xs)"
    "\<And>t. t < n \<Longrightarrow> agrees (shared w) (asked L t) (did L t) (threads w ! t)"
    using rcu_client.ledger_reached [OF c L] by metis
  from xs(1) have "repr (books (shared w)) xs" by (simp add: inv_defs)
  moreover have "outcome (asked L t) r (did L t)" if "t < n" "threads w ! t = Done r" for t r using xs(3) that by force
  ultimately show ?thesis using L xs(2) by blast
qed

theorem calls_take_effect_atomically_witness:
  "\<exists>w L xs. threads w = [Done 0, Done 0] \<and> run (logged_step demo_kern) (boot demo_kern \<lparr>used = [], fails = []\<rparr> 2, empty_ledger) overlapping (w, L) \<and>
     ring (books (shared w)) xs \<and> run becomes [] (history L) (shelf (shared w) xs) \<and>
     outcome (asked L 0) 0 (did L 0) \<and> outcome (asked L 1) 0 (did L 1)"
proof -
  obtain w where w: "run (world_step demo_kern one_remover) (boot demo_kern \<lparr>used = [], fails = []\<rparr> 2) overlapping w"
    "threads w = [Done 0, Done 0]" by (rule overlapping_world)
  from calls_take_effect_atomically [OF demo_laws w(1)] obtain L xs where
    L: "run (logged_step demo_kern) (boot demo_kern \<lparr>used = [], fails = []\<rparr> 2, empty_ledger) overlapping (w, L)"
      "ring (books (shared w)) xs" "run becomes [] (history L) (shelf (shared w) xs)"
    and out: "\<And>t r. t < 2 \<Longrightarrow> threads w ! t = Done r \<Longrightarrow> outcome (asked L t) r (did L t)" by blast
  from out [of 0 0] out [of 1 0] w(2) have "outcome (asked L 0) 0 (did L 0)" "outcome (asked L 1) 0 (did L 1)" by simp_all
  with w(2) L show ?thesis by blast
qed

text \<open>
  C5: what a call reports was so at some instant of the call. When \<^verbatim>\<open>print_book\<close> returns, all that its moves added to the
  kernel's log is one line: that the book does not exist, and then it was missing from the list at an instant since the call began; or
  the line of a book with that identifier, and then this very entry was on the list, with that content, at such an instant. When
  \<^verbatim>\<open>borrow_book\<close> or \<^verbatim>\<open>return_book\<close> returns -1, then at such an instant the book was missing, or an entry
  with that identifier was on the list and already borrowed, or not borrowed, respectively, or the allocator refused memory.
\<close>

theorem observations_hold:
  assumes "rcu_list (k_list K) repr" and "kernel_memory (k_mem K) live"
    and "run (logged_step K) (boot K m n, empty_ledger) es (w, L)" and "t < n" and "threads w ! t = Done r"
  shows "(\<forall>i. asked L t = Print_book i \<longrightarrow>
       said L t = [emit ''not exist book\<newline>'' []] \<and> (\<exists>v \<in> set (since L t). missing repr v i) \<or>
       (\<exists>a x. said L t = [book_line a x] \<and> b_id x = i \<and> (\<exists>v \<in> set (since L t). on_shelf repr v a x))) \<and>
     (\<forall>i async. asked L t = Borrow_book i async \<and> r = -1 \<longrightarrow> (\<exists>v \<in> set (since L t).
       missing repr v i \<or> (\<exists>a x. on_shelf repr v a x \<and> b_id x = i \<and> b_borrow x \<noteq> 0) \<or> starved K v)) \<and>
     (\<forall>i async. asked L t = Return_book i async \<and> r = -1 \<longrightarrow> (\<exists>v \<in> set (since L t).
       missing repr v i \<or> (\<exists>a x. on_shelf repr v a x \<and> b_id x = i \<and> b_borrow x = 0) \<or> starved K v))"
proof -
  have c: "rcu_client K repr live" using assms(1,2) by (simp add: rcu_client_def)
  obtain xs where xs: "\<And>t. t < n \<Longrightarrow> agrees (shared w) (asked L t) (did L t) (threads w ! t)"
    "\<And>t ev. t < n \<Longrightarrow> ev \<in> set (did L t) \<Longrightarrow> explained K repr (since L t) ev"
    "\<And>t. t < n \<Longrightarrow> voiced (asked L t) (did L t) (said L t) (threads w ! t)"
    using rcu_client.ledger_reached [OF c assms(3)] by metis
  have out: "outcome (asked L t) r (did L t)" using xs(1) [OF assms(4)] assms(5) by simp
  have ex: "\<forall>ev \<in> set (did L t). explained K repr (since L t) ev" using xs(2) assms(4) by blast
  note voice = xs(3) [OF assms(4)]
  show ?thesis
  proof (intro conjI allI impI)
    fix i assume i: "asked L t = Print_book i"
    with voice have said: "said L t = concat (map (spoken (Print_book i)) (did L t))" by (simp add: voiced_def)
    from out i consider "did L t = [Missed i]" | a x where "did L t = [Saw a x]" "b_id x = i" by auto
    then show "said L t = [emit ''not exist book\<newline>'' []] \<and> (\<exists>v \<in> set (since L t). missing repr v i) \<or>
       (\<exists>a x. said L t = [book_line a x] \<and> b_id x = i \<and> (\<exists>v \<in> set (since L t). on_shelf repr v a x))"
      using ex said by cases auto
  next
    fix i async assume "asked L t = Borrow_book i async \<and> r = -1"
    with out ex show "\<exists>v \<in> set (since L t).
       missing repr v i \<or> (\<exists>a x. on_shelf repr v a x \<and> b_id x = i \<and> b_borrow x \<noteq> 0) \<or> starved K v"
      by (fastforce simp: update_outcome_def)
  next
    fix i async assume "asked L t = Return_book i async \<and> r = -1"
    with out ex show "\<exists>v \<in> set (since L t).
       missing repr v i \<or> (\<exists>a x. on_shelf repr v a x \<and> b_id x = i \<and> b_borrow x = 0) \<or> starved K v"
      by (fastforce simp: update_outcome_def)
  qed
qed

theorem observations_hold_witness:
  "\<exists>w L. run (logged_step demo_kern) (boot demo_kern \<lparr>used = [], fails = []\<rparr> 2, empty_ledger) late_borrower (w, L) \<and>
     asked L 1 = Print_book 7 \<and> threads w ! 1 = Done 0 \<and>
     (said L 1 = [emit ''not exist book\<newline>'' []] \<and> (\<exists>v \<in> set (since L 1). missing ring v 7) \<or>
       (\<exists>a x. said L 1 = [book_line a x] \<and> b_id x = 7 \<and> (\<exists>v \<in> set (since L 1). on_shelf ring v a x))) \<and>
     asked L 0 = Borrow_book 7 0 \<and> threads w ! 0 = Done (-1) \<and>
     (\<exists>v \<in> set (since L 0).
       missing ring v 7 \<or> (\<exists>a x. on_shelf ring v a x \<and> b_id x = 7 \<and> b_borrow x \<noteq> 0) \<or> starved demo_kern v)"
proof -
  obtain w where w: "run (world_step demo_kern one_remover) (boot demo_kern \<lparr>used = [], fails = []\<rparr> 2) late_borrower w"
    "threads w = [Done (-1), Done 0]" by (rule late_borrower_world)
  obtain L where L: "run (logged_step demo_kern) (boot demo_kern \<lparr>used = [], fails = []\<rparr> 2, empty_ledger) late_borrower (w, L)"
    using run_logged [OF w(1)] by blast
  have asked: "asked L 1 = Print_book 7" "asked L 0 = Borrow_book 7 0"
    using asked_last [OF L] by (simp_all add: late_borrower_def overlapping_def asked_after_def numeral_eq_Suc)
  have ends: "threads w ! 1 = Done 0" "threads w ! 0 = Done (-1)" using w(2) by simp_all
  note hold = observations_hold [OF demo_laws L]
  from hold [OF _ ends(1)] asked(1) have print: "said L 1 = [emit ''not exist book\<newline>'' []] \<and> (\<exists>v \<in> set (since L 1). missing ring v 7) \<or>
       (\<exists>a x. said L 1 = [book_line a x] \<and> b_id x = 7 \<and> (\<exists>v \<in> set (since L 1). on_shelf ring v a x))" by simp
  from hold [OF _ ends(2)] asked(2) have borrow: "\<exists>v \<in> set (since L 0).
       missing ring v 7 \<or> (\<exists>a x. on_shelf ring v a x \<and> b_id x = 7 \<and> b_borrow x \<noteq> 0) \<or> starved demo_kern v" by simp
  show ?thesis by (intro exI conjI) (rule L asked ends print borrow)+
qed

end
