(* ===== verification/Taskinfo_Driver.thy ===== *)
theory Taskinfo_Driver
  imports C_Format
begin

text \<open>
  \<^verbatim>\<open>foreach/prcs_show\<close>: the character driver that lists the processes of the system
  (\<^verbatim>\<open>foreach.c\<close>) and the program that reads it (\<^verbatim>\<open>rdtasks.c\<close>); and \<^verbatim>\<open>foreach/thrd_show/showthreads.c\<close>,
  which logs every thread. The task list is a parameter; buffers keep their sizes, so an append
  that does not fit is a fault. Locking, reference counting and allocation are recorded as a trace
  of events.
\<close>

section \<open>Tasks and events\<close>

record task =
  comm :: string
  tgid :: int
  pid :: int
  uid :: nat
  euid :: nat

text \<open>What the kernel guarantees of a task: a name of at most 15 characters, 32-bit ids.\<close>

definition task_ok :: "task \<Rightarrow> bool" where
  "task_ok p \<longleftrightarrow> length (comm p) \<le> 15 \<and> is_int (tgid p) \<and> is_int (pid p) \<and> uid p < 2 ^ 32 \<and> euid p < 2 ^ 32"

datatype ev = Kzalloc | Kfree | Rcu_lock | Rcu_unlock | Task_lock int | Task_unlock int
  | Get_task int | Put_task int | Cond_resched | Pr_log string

text \<open>How many atomic sections are open after a trace; what is still allocated or referenced.\<close>

definition atomic_delta :: "ev \<Rightarrow> int" where
  "atomic_delta e = (case e of Rcu_lock \<Rightarrow> 1 | Task_lock _ \<Rightarrow> 1 | Rcu_unlock \<Rightarrow> -1 | Task_unlock _ \<Rightarrow> -1 | _ \<Rightarrow> 0)"

definition held_delta :: "ev \<Rightarrow> int" where
  "held_delta e = (case e of Kzalloc \<Rightarrow> 1 | Get_task _ \<Rightarrow> 1 | Kfree \<Rightarrow> -1 | Put_task _ \<Rightarrow> -1 | _ \<Rightarrow> 0)"

definition atomic_depth :: "ev list \<Rightarrow> int" where
  "atomic_depth es = sum_list (map atomic_delta es)"

definition held :: "ev list \<Rightarrow> int" where
  "held es = sum_list (map held_delta es)"

section \<open>The driver\<close>

definition MAXKBUF_LEN :: nat where "MAXKBUF_LEN = 20 * 1024"

definition task_fmt :: string where "task_fmt = ''%-16s|%7d|%7d|%7u|%7u\<newline>''"

definition task_args :: "task \<Rightarrow> farg list" where
  "task_args p = [FStr (comm p), FInt (tgid p), FInt (pid p), FUInt (uid p), FUInt (euid p)]"

text \<open>\<^verbatim>\<open>pr_fmt\<close> of \<^verbatim>\<open>foreach.c\<close>: module, function and line.\<close>

definition foreach_msg :: "string \<Rightarrow> int \<Rightarrow> string \<Rightarrow> farg list \<Rightarrow> string" where
  "foreach_msg func line fmt args = emit (''%s:%s():%d: '' @ fmt) (FStr ''foreach'' # FStr func # FInt line # args)"

text \<open>The loop over the tasks: \<^verbatim>\<open>snprintf\<close> into \<^verbatim>\<open>tmp[128]\<close>, then \<^verbatim>\<open>strncat\<close> of \<^verbatim>\<open>num\<close> bytes.\<close>

primrec fill_kbuf :: "task list \<Rightarrow> string \<Rightarrow> nat \<Rightarrow> ev list \<Rightarrow> fault + string \<times> nat \<times> ev list" where
  "fill_kbuf [] kbuf numread es = Inr (kbuf, numread, es)"
| "fill_kbuf (p # ps) kbuf numread es =
     (case snprintf 128 task_fmt (task_args p) of
        None \<Rightarrow> Inl BadFormat
      | Some (tmp, num) \<Rightarrow>
          (case strncat MAXKBUF_LEN kbuf tmp num of
             Inl e \<Rightarrow> Inl e
           | Inr kbuf' \<Rightarrow> fill_kbuf ps kbuf' (numread + num)
               (es @ [Task_lock (pid p), Get_task (pid p), Cond_resched, Put_task (pid p), Task_unlock (pid p)])))"

text \<open>
  \<^verbatim>\<open>taskinfo_read\<close>: the result, the bytes stored in the caller's memory and the trace. \<open>user_ok n\<close>
  says whether the kernel can store \<open>n\<close> bytes at \<^verbatim>\<open>buf\<close>; \<open>cnt\<close> (\<^verbatim>\<open>count\<close>) is what the caller asked for.
\<close>

definition taskinfo_read ::
  "bool \<Rightarrow> (nat \<Rightarrow> bool) \<Rightarrow> task list \<Rightarrow> nat \<Rightarrow> fault + int \<times> string \<times> ev list" where
  "taskinfo_read mem user_ok tasks cnt =
     (if \<not> mem then Inr (- ENOMEM, [], [])
      else case fill_kbuf tasks [] 0 [Kzalloc, Rcu_lock] of
        Inl e \<Rightarrow> Inl e
      | Inr (kbuf, numread, es) \<Rightarrow>
          if MAXKBUF_LEN < numread then Inl (OutOfBounds MAXKBUF_LEN)
          else if \<not> user_ok numread then Inr (- EFAULT, [], es @ [Rcu_unlock, Pr_log (foreach_msg ''taskinfo_read'' 71 ''copy_to_user failed..\<newline>'' []), Kfree])
          else Inr (int cnt, take numread (kbuf @ replicate (MAXKBUF_LEN - length kbuf) (CHR 0x00)),
                    es @ [Rcu_unlock, Kfree]))"

definition taskinfo_write :: "string \<Rightarrow> nat \<Rightarrow> int" where
  "taskinfo_write buf cnt = - ENOSYS"

text \<open>
  \<^verbatim>\<open>taskinfo_open\<close>: minor 0 gets the operations of the driver. These have no \<^verbatim>\<open>open\<close> of their
  own, so the call ends there.
\<close>

datatype fops = Taskinfo_fops | Taskinfoopen_fops

definition fops_open :: "fops \<Rightarrow> bool" where
  "fops_open f = (case f of Taskinfo_fops \<Rightarrow> False | Taskinfoopen_fops \<Rightarrow> True)"

definition taskinfo_open :: "(fops \<Rightarrow> int) \<Rightarrow> nat \<Rightarrow> fops \<Rightarrow> int \<times> fops" where
  "taskinfo_open call_open minor f_op =
     (if minor = 0
      then let f_op' = Taskinfo_fops in (if fops_open f_op' then call_open f_op' else 0, f_op')
      else (- ENXIO, f_op))"

text \<open>Registration: \<open>reg\<close> is \<^verbatim>\<open>register_chrdev\<close>, \<open>0\<close> asks for a dynamic major.\<close>

definition taskinfo_init_module :: "(int \<Rightarrow> int) \<Rightarrow> int \<Rightarrow> int \<times> int \<times> string list" where
  "taskinfo_init_module reg taskinfo_major =
     (let result = reg taskinfo_major
      in if result < 0 then (result, taskinfo_major, [])
         else (let major = (if taskinfo_major = 0 then result else taskinfo_major)
               in (0, major, [foreach_msg ''taskinfo_init_module'' 152 ''registered:: taskinfo_major=%d\<newline>'' [FInt major]])))"

text \<open>What is unregistered, and what is logged.\<close>

definition taskinfo_cleanup_module :: "int \<Rightarrow> (int \<times> string) \<times> string list" where
  "taskinfo_cleanup_module taskinfo_major =
     ((taskinfo_major, ''foreach''), [foreach_msg ''taskinfo_cleanup_module'' 160 ''Unregistered.\<newline>'' []])"

section \<open>The reader\<close>


text \<open>The handler of \<^verbatim>\<open>SIGINT\<close>; the \<^verbatim>\<open>read\<close> it interrupts is restarted.\<close>

definition sig :: "int \<Rightarrow> message" where
  "sig signum = Stderr (emit ''In sig: signum=%d\<newline>'' [FInt signum])"


definition printed_buf :: "string \<Rightarrow> nat \<Rightarrow> string \<Rightarrow> string" where
  "printed_buf block n stored =
     takeWhile (\<lambda>c. c \<noteq> CHR 0x00) ((stored @ drop (length stored) block)[n - 1 := CHR 0x00])"



section \<open>showthreads.c\<close>

text \<open>A thread \<open>t\<close> of process \<open>g\<close>: the fields the loop reads.\<close>

record thread =
  g_tgid :: int
  g_has_mm :: bool
  g_threads :: int
  t_pid :: int
  t_comm :: string

definition thread_ok :: "thread \<Rightarrow> bool" where
  "thread_ok t \<longleftrightarrow> length (t_comm t) \<le> 15 \<and> is_int (g_tgid t) \<and> is_int (t_pid t) \<and> is_int (g_threads t)"

definition stored :: "nat \<Rightarrow> string \<Rightarrow> farg list \<Rightarrow> fault + string" where
  "stored n f as = (case snprintf n f as of None \<Rightarrow> Inl BadFormat | Some (s, _) \<Rightarrow> Inr s)"

definition and_then :: "fault + 'a \<Rightarrow> ('a \<Rightarrow> fault + 'b) \<Rightarrow> fault + 'b" where
  "and_then m f = (case m of Inl e \<Rightarrow> Inl e | Inr x \<Rightarrow> f x)"

definition multithreaded_main :: "thread \<Rightarrow> bool" where
  "multithreaded_main t \<longleftrightarrow> g_has_mm t \<and> g_tgid t = t_pid t \<and> g_threads t > 1"

definition thread_line :: "thread \<Rightarrow> fault + string" where
  "thread_line t =
     and_then (stored 256 ''%6d %6d '' [FInt (g_tgid t), FInt (t_pid t)]) (\<lambda>buf.
     and_then (if \<not> g_has_mm t then stored 128 ''[%30s]'' [FStr (t_comm t)]
               else stored 128 '' %30s '' [FStr (t_comm t)]) (\<lambda>tmp.
     and_then (strncat 256 buf tmp 128) (\<lambda>buf.
     and_then (if multithreaded_main t
               then and_then (stored 128 ''    %4d'' [FInt (g_threads t)]) (\<lambda>tmp. strncat 256 buf tmp 128)
               else Inr buf) (\<lambda>buf.
     and_then (stored 2 ''\<newline>'' []) (\<lambda>tmp. strncat 256 buf tmp 2)))))"

primrec show_each :: "thread list \<Rightarrow> string list \<Rightarrow> ev list \<Rightarrow> fault + string list \<times> ev list" where
  "show_each [] out es = Inr (out, es)"
| "show_each (t # ts) out es =
     (case thread_line t of Inl e \<Rightarrow> Inl e
      | Inr l \<Rightarrow> show_each ts (out @ [l])
          (es @ [Task_lock (t_pid t), Get_task (t_pid t), Put_task (t_pid t), Task_unlock (t_pid t)]))"

definition thread_header :: string where
  "thread_header = replicate 76 (CHR ''-'') @
     ''\<newline>    TGID   PID               Thread Name        # Threads\<newline>'' @ replicate 76 (CHR ''-'') @ ''\<newline>''"

definition showthrds :: "thread list \<Rightarrow> fault + string list \<times> ev list" where
  "showthrds ts =
     (case show_each ts [thread_header] [Rcu_lock] of
        Inl e \<Rightarrow> Inl e | Inr (out, es) \<Rightarrow> Inr (out, es @ [Rcu_unlock]))"

definition showthrds_init_module :: "thread list \<Rightarrow> fault + int \<times> string list" where
  "showthrds_init_module ts = and_then (showthrds ts) (\<lambda>(out, _). Inr (0, out))"

definition showthrds_cleanup_module :: "string list" where
  "showthrds_cleanup_module = [emit ''%s: unoaded.\<newline>'' [FStr ''showthreads'']]"

section \<open>The line of a task\<close>

definition task_line :: "task \<Rightarrow> string" where
  "task_line p = pad_right 16 (comm p) @ ''|'' @ pad_left (CHR '' '') 7 (dec_int (tgid p)) @ ''|'' @
     pad_left (CHR '' '') 7 (dec_int (pid p)) @ ''|'' @ pad_left (CHR '' '') 7 (dec (uid p)) @ ''|'' @
     pad_left (CHR '' '') 7 (dec (euid p)) @ ''\<newline>''"

lemma task_items: "fmt_items task_fmt =
   [Conv True False 16 None (CHR ''s''), Lit (CHR ''|''), Conv False False 7 None (CHR ''d''), Lit (CHR ''|''),
    Conv False False 7 None (CHR ''d''), Lit (CHR ''|''), Conv False False 7 None (CHR ''u''), Lit (CHR ''|''),
    Conv False False 7 None (CHR ''u''), Lit (CHR ''\<newline>'')]"
  by code_simp

lemma printf_task: "printf task_fmt (task_args p) = Some (task_line p)"
  by (simp add: printf_def task_items task_args_def justify_def task_line_def)

lemma task_line_length: "task_ok p \<Longrightarrow> 49 \<le> length (task_line p) \<and> length (task_line p) \<le> 63"
  using length_dec_int32 [of "tgid p"] length_dec_int32 [of "pid p"] length_dec_u32 [of "uid p"] length_dec_u32 [of "euid p"]
  by (auto simp: task_line_def task_ok_def max_def)

lemma fill_step:
  assumes "task_ok p"
  shows "fill_kbuf (p # ps) kbuf n es =
     (if length kbuf + length (task_line p) < MAXKBUF_LEN
      then fill_kbuf ps (kbuf @ task_line p) (n + length (task_line p))
        (es @ [Task_lock (pid p), Get_task (pid p), Cond_resched, Put_task (pid p), Task_unlock (pid p)])
      else Inl (OutOfBounds MAXKBUF_LEN))"
  using task_line_length [OF assms] by (simp add: snprintf_def printf_task strncat_def)

definition task_events :: "task list \<Rightarrow> ev list" where
  "task_events ps = concat (map (\<lambda>p. [Task_lock (pid p), Get_task (pid p), Cond_resched, Put_task (pid p), Task_unlock (pid p)]) ps)"

definition listing :: "task list \<Rightarrow> string" where
  "listing ps = concat (map task_line ps)"

text \<open>The loop fills the buffer with the whole listing exactly when it fits with its NUL.\<close>

lemma fill_kbuf_cases:
  assumes "\<forall>p \<in> set ps. task_ok p" and "length kbuf < MAXKBUF_LEN"
  shows "fill_kbuf ps kbuf n es =
     (if length kbuf + length (listing ps) < MAXKBUF_LEN
      then Inr (kbuf @ listing ps, n + length (listing ps), es @ task_events ps)
      else Inl (OutOfBounds MAXKBUF_LEN))"
  using assms
proof (induction ps arbitrary: kbuf n es)
  case Nil
  then show ?case by (simp add: listing_def task_events_def)
next
  case (Cons p ps)
  then show ?case
    by (auto simp: fill_step listing_def task_events_def simp del: fill_kbuf.simps)
qed

lemma listing_length:
  "\<forall>p \<in> set ps. task_ok p \<Longrightarrow> 49 * length ps \<le> length (listing ps) \<and> length (listing ps) \<le> 63 * length ps"
proof (induction ps)
  case Nil
  then show ?case by (simp add: listing_def)
next
  case (Cons p ps)
  with task_line_length [of p] show ?case by (simp add: listing_def)
qed

lemma taskinfo_read_eq:
  assumes "\<forall>p \<in> set ps. task_ok p"
  shows "taskinfo_read True user_ok ps cnt =
     (if length (listing ps) < MAXKBUF_LEN
      then if user_ok (length (listing ps))
           then Inr (int cnt, listing ps, [Kzalloc, Rcu_lock] @ task_events ps @ [Rcu_unlock, Kfree])
           else Inr (- EFAULT, [], [Kzalloc, Rcu_lock] @ task_events ps @
                  [Rcu_unlock, Pr_log (foreach_msg ''taskinfo_read'' 71 ''copy_to_user failed..\<newline>'' []), Kfree])
      else Inl (OutOfBounds MAXKBUF_LEN))"
  using fill_kbuf_cases [OF assms, of "[]" 0 "[Kzalloc, Rcu_lock]"] by (simp add: taskinfo_read_def MAXKBUF_LEN_def)

text \<open>The trace of a call that returns: the locks and references of each task, and a tail after the section.\<close>

lemma taskinfo_read_trace:
  assumes "\<forall>p \<in> set ps. task_ok p" and "taskinfo_read True user_ok ps cnt = Inr (r, out, es)"
  shows "\<exists>ts. es = [Kzalloc, Rcu_lock] @ task_events ps @ Rcu_unlock # ts \<and> Cond_resched \<notin> set ts"
  using assms(2) unfolding taskinfo_read_eq [OF assms(1)] by (auto split: if_splits)

lemma task_events_balanced: "atomic_depth (task_events ps) = 0" "held (task_events ps) = 0"
  by (induction ps) (simp_all add: task_events_def atomic_depth_def held_def atomic_delta_def held_delta_def)

lemma trace_Cons [simp]:
  "atomic_depth [] = 0" "atomic_depth (e # es) = atomic_delta e + atomic_depth es"
  "held [] = 0" "held (e # es) = held_delta e + held es"
  by (simp_all add: atomic_depth_def held_def)

lemma trace_append:
  "atomic_depth (xs @ ys) = atomic_depth xs + atomic_depth ys" "held (xs @ ys) = held xs + held ys"
  by (simp_all add: atomic_depth_def held_def)

text \<open>Every rescheduling point of the listing lies inside two atomic sections.\<close>

lemma resched_depth:
  "task_events ps = us @ Cond_resched # vs \<Longrightarrow> atomic_depth us = 1"
proof (induction ps arbitrary: us)
  case Nil
  then show ?case by (simp add: task_events_def)
next
  case (Cons p ps)
  let ?h = "[Task_lock (pid p), Get_task (pid p), Cond_resched, Put_task (pid p), Task_unlock (pid p)]"
  have e: "?h @ task_events ps = us @ Cond_resched # vs" using Cons.prems by (simp add: task_events_def)
  consider "us = take 2 ?h" | ws where "us = ?h @ ws" "task_events ps = ws @ Cond_resched # vs"
    using e by (auto simp: append_eq_append_conv2 append_eq_Cons_conv Cons_eq_append_conv)
  then show ?case
  proof cases
    case 1
    then show ?thesis by (simp add: atomic_depth_def atomic_delta_def)
  next
    case 2
    with Cons.IH show ?thesis by (simp add: trace_append) (simp add: atomic_depth_def atomic_delta_def)
  qed
qed

section \<open>The line of a thread\<close>

definition thread_row :: "thread \<Rightarrow> string" where
  "thread_row t =
     pad_left (CHR '' '') 6 (dec_int (g_tgid t)) @ '' '' @ pad_left (CHR '' '') 6 (dec_int (t_pid t)) @ '' '' @
     (if g_has_mm t then '' '' @ pad_left (CHR '' '') 30 (t_comm t) @ '' '' else ''['' @ pad_left (CHR '' '') 30 (t_comm t) @ '']'') @
     (if multithreaded_main t then ''    '' @ pad_left (CHR '' '') 4 (dec_int (g_threads t)) else []) @ ''\<newline>''"

lemma thread_items:
  "fmt_items ''%6d %6d '' = [Conv False False 6 None (CHR ''d''), Lit (CHR '' ''), Conv False False 6 None (CHR ''d''), Lit (CHR '' '')]"
  "fmt_items ''[%30s]'' = [Lit (CHR ''[''), Conv False False 30 None (CHR ''s''), Lit (CHR '']'')]"
  "fmt_items '' %30s '' = [Lit (CHR '' ''), Conv False False 30 None (CHR ''s''), Lit (CHR '' '')]"
  "fmt_items ''    %4d'' = [Lit (CHR '' ''), Lit (CHR '' ''), Lit (CHR '' ''), Lit (CHR '' ''), Conv False False 4 None (CHR ''d'')]"
  "fmt_items ''\<newline>'' = [Lit (CHR ''\<newline>'')]"
  by code_simp+

lemma thread_line_row:
  assumes "thread_ok t"
  shows "thread_line t = Inr (thread_row t)"
  using assms length_dec_int32 [of "g_tgid t"] length_dec_int32 [of "t_pid t"] length_dec_int32 [of "g_threads t"]
  by (auto simp: thread_line_def thread_row_def thread_ok_def stored_def snprintf_def printf_def thread_items
      justify_def and_then_def strncat_def max_def)

lemma show_each_rows:
  assumes "\<forall>t \<in> set ts. thread_ok t"
  shows "\<exists>es'. show_each ts out es = Inr (out @ map thread_row ts, es @ es') \<and> atomic_depth es' = 0 \<and> held es' = 0"
  using assms
proof (induction ts arbitrary: out es)
  case Nil
  then show ?case by (simp add: atomic_depth_def held_def)
next
  case (Cons t ts)
  let ?e = "[Task_lock (t_pid t), Get_task (t_pid t), Put_task (t_pid t), Task_unlock (t_pid t)]"
  from Cons obtain es' where "show_each ts (out @ [thread_row t]) (es @ ?e) = Inr ((out @ [thread_row t]) @ map thread_row ts, (es @ ?e) @ es')"
      "atomic_depth es' = 0" "held es' = 0"
    by fastforce
  with Cons.prems show ?case
    by (intro exI [of _ "?e @ es'"])
      (simp add: thread_line_row trace_append, simp add: atomic_depth_def held_def atomic_delta_def held_delta_def)
qed

section \<open>Properties\<close>

text \<open>
  C18: with at most 325 processes \<^verbatim>\<open>taskinfo_read\<close> stores the line of every process, in order and
  complete, and leaves no lock, reference or buffer behind; but it stores the whole listing
  whatever number of bytes the caller asked for, and returns that number.
\<close>

theorem taskinfo_read_lists_all:
  assumes "\<forall>p \<in> set ps. task_ok p" and "length ps \<le> 325" and "user_ok (length (listing ps))"
  shows "\<exists>es. taskinfo_read True user_ok ps cnt = Inr (int cnt, listing ps, es) \<and> atomic_depth es = 0 \<and> held es = 0"
proof -
  have "length (listing ps) < MAXKBUF_LEN" using listing_length [OF assms(1)] assms(2) by (simp add: MAXKBUF_LEN_def)
  then show ?thesis
    using assms(3)
    by (simp add: taskinfo_read_eq [OF assms(1)] trace_append task_events_balanced atomic_delta_def held_delta_def)
qed

theorem taskinfo_read_lists_all_witness:
  "\<exists>es. taskinfo_read True (\<lambda>_. True) [\<lparr>comm = ''sh'', tgid = 7, pid = 7, uid = 0, euid = 0\<rparr>] 4096 =
     Inr (4096, listing [\<lparr>comm = ''sh'', tgid = 7, pid = 7, uid = 0, euid = 0\<rparr>], es) \<and> atomic_depth es = 0 \<and> held es = 0"
  using taskinfo_read_lists_all [of "[\<lparr>comm = ''sh'', tgid = 7, pid = 7, uid = 0, euid = 0\<rparr>]" "\<lambda>_. True" 4096]
  by (simp add: task_ok_def is_int_def int_limits)

text \<open>
  C20: with 418 processes or more the listing cannot fit the 20 KB buffer, and the driver writes
  past its end.
\<close>

theorem taskinfo_read_overflows:
  assumes "\<forall>p \<in> set ps. task_ok p" and "418 \<le> length ps"
  shows "taskinfo_read True user_ok ps cnt = Inl (OutOfBounds MAXKBUF_LEN)"
  using listing_length [OF assms(1)] assms(2) by (simp add: taskinfo_read_eq [OF assms(1)] MAXKBUF_LEN_def)

theorem taskinfo_read_overflows_witness:
  "taskinfo_read True (\<lambda>_. True) (replicate 500 \<lparr>comm = ''sh'', tgid = 7, pid = 7, uid = 0, euid = 0\<rparr>) 4096 =
     Inl (OutOfBounds MAXKBUF_LEN)"
  by (rule taskinfo_read_overflows) (simp_all add: task_ok_def is_int_def int_limits)

text \<open>
  The explicit rescheduling point of the loop always runs in atomic context, inside the RCU
  read-side section and with the task lock held.
\<close>

theorem resched_in_atomic_context:
  assumes "\<forall>p \<in> set ps. task_ok p" and "taskinfo_read True user_ok ps cnt = Inr (r, out, us @ Cond_resched # vs)"
  shows "atomic_depth us = 2"
proof -
  from taskinfo_read_trace [OF assms] obtain ts where
      e: "us @ Cond_resched # vs = [Kzalloc, Rcu_lock] @ task_events ps @ Rcu_unlock # ts" and t: "Cond_resched \<notin> set ts"
    by blast
  obtain ws zs where w: "us = [Kzalloc, Rcu_lock] @ ws" "task_events ps = ws @ Cond_resched # zs"
    using e t by (auto simp: append_eq_append_conv2 append_eq_Cons_conv Cons_eq_append_conv) metis
  from resched_depth [OF w(2)] w(1) show ?thesis by (simp add: atomic_depth_def atomic_delta_def)
qed

theorem resched_in_atomic_context_witness:
  "atomic_depth [Kzalloc, Rcu_lock, Task_lock 7, Get_task 7] = 2"
  by (rule resched_in_atomic_context [of "[\<lparr>comm = ''sh'', tgid = 7, pid = 7, uid = 0, euid = 0\<rparr>]" "\<lambda>_. True" 10 10
        "listing [\<lparr>comm = ''sh'', tgid = 7, pid = 7, uid = 0, euid = 0\<rparr>]" _ "[Put_task 7, Task_unlock 7, Rcu_unlock, Kfree]"])
    (simp_all add: task_ok_def is_int_def int_limits taskinfo_read_eq task_events_def MAXKBUF_LEN_def,
     insert task_line_length [of "\<lparr>comm = ''sh'', tgid = 7, pid = 7, uid = 0, euid = 0\<rparr>"],
     simp add: task_ok_def is_int_def int_limits listing_def)



text \<open>The tail of a buffer that is longer than the listing by more than one byte is printed as it was.\<close>

lemma rdtasks_prints_junk:
  assumes "\<forall>c \<in> set (listing ps @ block). c \<noteq> CHR 0x00" and "length (listing ps) < num" and "length block = num"
  shows "printed_buf block num (listing ps) = listing ps @ take (num - 1 - length (listing ps)) (drop (length (listing ps)) block)"
proof -
  let ?b = "listing ps @ drop (length (listing ps)) block"
  have "num - 1 < length ?b" using assms(2,3) by simp
  then have "?b[num - 1 := CHR 0x00] = take (num - 1) ?b @ CHR 0x00 # drop num ?b"
    using assms(2) by (simp add: upd_conv_take_nth_drop)
  moreover have "\<forall>c \<in> set (take (num - 1) ?b). c \<noteq> CHR 0x00"
    using assms(1) by (metis Un_iff in_set_dropD in_set_takeD set_append)
  ultimately show ?thesis using assms(2) by (simp add: printed_buf_def takeWhile_append2)
qed

text \<open>
  C35: \<^verbatim>\<open>showthrds\<close> never overruns its buffers, logs one row per thread in order behind the header,
  and releases every lock and reference it takes.
\<close>

theorem showthrds_rows:
  assumes "\<forall>t \<in> set ts. thread_ok t"
  shows "\<exists>es. showthrds ts = Inr (thread_header # map thread_row ts, es) \<and> atomic_depth es = 0 \<and> held es = 0"
proof -
  from show_each_rows [OF assms, of "[thread_header]" "[Rcu_lock]"] obtain es' where
    "show_each ts [thread_header] [Rcu_lock] = Inr ([thread_header] @ map thread_row ts, [Rcu_lock] @ es')"
    "atomic_depth es' = 0" "held es' = 0" by blast
  then show ?thesis
    by (simp add: showthrds_def trace_append) (simp add: atomic_depth_def held_def atomic_delta_def held_delta_def)
qed

theorem showthrds_rows_witness:
  "\<exists>es. showthrds [\<lparr>g_tgid = 5, g_has_mm = True, g_threads = 3, t_pid = 5, t_comm = ''vim''\<rparr>] =
     Inr (thread_header # [thread_row \<lparr>g_tgid = 5, g_has_mm = True, g_threads = 3, t_pid = 5, t_comm = ''vim''\<rparr>], es) \<and>
     atomic_depth es = 0 \<and> held es = 0"
  using showthrds_rows [of "[\<lparr>g_tgid = 5, g_has_mm = True, g_threads = 3, t_pid = 5, t_comm = ''vim''\<rparr>]"]
  by (simp add: thread_ok_def is_int_def int_limits)

end
