(* ===== verification/Hex_Dump.thy ===== *)
theory Hex_Dump
  imports Restart_Lib
begin

text \<open>
  \<^verbatim>\<open>mm/vm_usermode/mmap/mmap_simple/mmap_simple.c\<close>: the \<^verbatim>\<open>hex_dump\<close> routine with its two fixed
  buffers, and the program that maps a file and dumps a part of it. The theory shows that the
  dump is the reference layout of the bytes, from which they can be read back, and where its
  eight-byte scratch buffer is too small.
\<close>

section \<open>Data and operations\<close>

text \<open>\<^verbatim>\<open>memcpy(buf + i, cs, ...)\<close> and \<^verbatim>\<open>memset(buf, c, n)\<close> on an array.\<close>

definition put :: "nat \<Rightarrow> string \<Rightarrow> string \<Rightarrow> string" where
  "put i cs buf = take i buf @ cs @ drop (i + length cs) buf"

definition memset :: "char \<Rightarrow> nat \<Rightarrow> string \<Rightarrow> string" where
  "memset c n buf = replicate n c @ drop n buf"

text \<open>\<^verbatim>\<open>sprintf(temp, "+%06d", off)\<close> into \<^verbatim>\<open>char temp[8]\<close>.\<close>

definition sprint_off :: "int \<Rightarrow> fault + string" where
  "sprint_off off =
     (let s = emit ''+%06d'' [FInt off] in if length s < 8 then Inr s else Inl (OutOfBounds 8))"

definition hex_byte :: "char \<Rightarrow> string" where
  "hex_byte d = emit ''%02x'' [FUInt (of_char d)]"

definition ascii_byte :: "char \<Rightarrow> char" where
  "ascii_byte d = (if (31::nat) < of_char d \<and> of_char d < (127::nat) then d else CHR ''.'')"

definition ruler :: string where
  "ruler = ''        +0          +4          +8          +c            0   4   8   c   \<newline>''"

text \<open>\<^verbatim>\<open>printf("%s", buffer)\<close> prints up to the first NUL.\<close>

definition print_buffer :: "string \<Rightarrow> string" where
  "print_buffer buf = takeWhile (\<lambda>c. c \<noteq> CHR 0x00) buf"

text \<open>The body of the loop for byte \<open>d\<close> in column \<open>j\<close>.\<close>

definition put_byte :: "nat \<Rightarrow> char \<Rightarrow> string \<Rightarrow> string" where
  "put_byte j d buf = put (58 + j) [ascii_byte d] (put (8 + j * 3) (hex_byte d) buf)"

text \<open>The loop from index \<open>i\<close> and column \<open>j\<close>; \<open>out\<close> is what has been printed.\<close>

function dump_loop ::
  "string \<Rightarrow> int \<Rightarrow> int \<Rightarrow> nat \<Rightarrow> nat \<Rightarrow> string \<Rightarrow> string \<Rightarrow> fault + nat \<times> string \<times> string" where
  "dump_loop bytes offset sz i j buf out =
     (if int i < sz then
        (if length bytes \<le> i then Inl (OutOfBounds i)
         else if j = 16 then
           (case sprint_off (int i + offset) of
              Inl e \<Rightarrow> Inl e
            | Inr temp \<Rightarrow>
                dump_loop bytes offset sz (Suc i) 1
                  (put_byte 0 (bytes ! i) (put 0 (take 7 temp) (memset (CHR '' '') 74 buf)))
                  (out @ print_buffer buf))
         else dump_loop bytes offset sz (Suc i) (Suc j) (put_byte j (bytes ! i) buf) out)
      else Inr (j, buf, out))"
  by pat_completeness auto
termination
  by (relation "measure (\<lambda>(bytes, offset, sz, i, j, buf, out). nat (sz - int i))") auto

declare dump_loop.simps [simp del]

text \<open>The buffer before the loop: \<^verbatim>\<open>memset\<close>, the line end, and the digits of the start offset.\<close>

definition first_buffer :: "string \<Rightarrow> string" where
  "first_buffer temp =
     (let b = (memset (CHR '' '') 74 (replicate 128 (CHR 0x00)))[74 := CHR ''\<newline>'', 75 := CHR 0x00, 0 := CHR ''+'']
      in put 1 (take 6 (drop 1 temp)) b)"

definition hex_dump :: "nat \<Rightarrow> string \<Rightarrow> int \<Rightarrow> int \<Rightarrow> string option \<Rightarrow> bool \<Rightarrow> fault + string" where
  "hex_dump addr bytes offset sz caption verbose =
     (let o1 = (case caption of
                  Some c \<Rightarrow> if verbose then emit ''---------> %s <--------- (%d bytes from %p)\<newline>'' [FStr c, FInt sz, FUInt addr] else []
                | None \<Rightarrow> []) @ ruler
      in case sprint_off offset of
           Inl e \<Rightarrow> Inl e
         | Inr temp \<Rightarrow>
             (case dump_loop bytes offset sz 0 0 (first_buffer temp) o1 of
                Inl e \<Rightarrow> Inl e
              | Inr (j, buf, out) \<Rightarrow> Inr (if j \<noteq> 0 then out @ print_buffer buf else out)))"

text \<open>What the program sees of the file: its contents and the outcome of each call on it.\<close>

record dump_env =
  e_fstat_ok :: bool
  e_file :: string
  e_mmap :: "nat option"
  e_msync_ok :: bool
  e_munmap_ok :: bool

text \<open>From the mapping on: \<^verbatim>\<open>msync\<close> and \<^verbatim>\<open>munmap\<close>, whose failures are reported in this order.\<close>

definition unmap_source :: "dump_env \<Rightarrow> ending \<times> message list" where
  "unmap_source e =
     (let out = (if e_msync_ok e then [] else [Perror ''mysnc''])
      in if e_munmap_ok e then (Exit 0, out) else (Exit 1, out @ [Perror ''munmap'']))"

text \<open>
  From \<^verbatim>\<open>fstat\<close> on, in the order of the code; the sum of two \<^verbatim>\<open>long\<close>s that does not fit is a fault.
\<close>

definition dump_file :: "dump_env \<Rightarrow> string list \<Rightarrow> fault + ending \<times> message list" where
  "dump_file e argv =
     (if \<not> e_fstat_ok e then Inr (Exit 1, [Perror ''fstat''])
      else let fsz = int (length (e_file e)); len = atol (argv ! 3); off = atol (argv ! 2)
      in if fsz = 0 then
        Inr (Exit 1, [Stderr (emit ''%s: source-file %s size is zero bytes, aborting...\<newline>'' [FStr (argv ! 0), FStr (argv ! 1)])])
      else if len \<le> 0 then
        Inr (Exit 1, [Stderr (emit ''%s: invalid length %ld, aborting...\<newline>'' [FStr (argv ! 0), FInt len])])
      else if 0 \<le> off \<and> LONG_MAX < off + len then Inl SignedOverflow
      else if off < 0 \<or> fsz < off + len then
        Inr (Exit 1, [Stderr (emit ''%s: invalid offset or offset/length combination, aborting...\<newline>'' [FStr (argv ! 0)])])
      else case e_mmap e of
        None \<Rightarrow> Inr (Exit 1, [Perror ''mmap: to src file''])
      | Some data_src \<Rightarrow>
          (case hex_dump (data_src + nat off) (drop (nat off) (e_file e)) (to_int32 off) (to_int32 len) (Some ''Data'') False of
             Inl f \<Rightarrow> Inl f
           | Inr out \<Rightarrow> Inr (fst (unmap_source e), Stdout out # snd (unmap_source e))))"

text \<open>
  \<^verbatim>\<open>main\<close>, opening the file through the restart library (\<^verbatim>\<open>O_RDONLY\<close> is 0). The descriptor is
  closed on the way to \<^verbatim>\<open>exit(0)\<close> only.
\<close>

definition mmap_simple_main ::
  "'w os \<Rightarrow> dump_env \<Rightarrow> string list \<Rightarrow> 'w \<Rightarrow> ((fault + ending \<times> message list) \<times> 'w) option" where
  "mmap_simple_main os e argv w =
     (if length argv \<noteq> 4 then
        Some (Inr (Exit 1, [Stderr (emit ''Usage: %s source-file start_offset length\<newline>'' [FStr (argv ! 0)])]), w)
      else
        Option.bind (r_open2 os (argv ! 1) 0 w) (\<lambda>(r, w1).
        if ret r = -1 then Some (Inr (Exit 1, [Perror ''open: src file'']), w1)
        else
          (let res = dump_file e argv
           in Some (res, case res of Inr (en, out) \<Rightarrow> if en = Exit 0 then snd (sys_close os (ret r) w1) else w1 | Inl f \<Rightarrow> w1))))"

section \<open>The reference layout\<close>

definition off_str :: "nat \<Rightarrow> string" where
  "off_str n = CHR ''+'' # pad_left (CHR ''0'') 6 (dec n)"

definition hex_cells :: "string \<Rightarrow> nat list \<Rightarrow> string" where
  "hex_cells cs js = concat (map (\<lambda>j. if j < length cs then hex_byte (cs ! j) @ '' '' else ''   '') js)"

definition ascii_cells :: "string \<Rightarrow> nat list \<Rightarrow> string" where
  "ascii_cells cs js = map (\<lambda>j. if j < length cs then ascii_byte (cs ! j) else CHR '' '') js"

definition row_text :: "nat \<Rightarrow> string \<Rightarrow> string" where
  "row_text n cs = off_str n @ '' '' @ hex_cells cs [0..<16] @ ''  '' @ ascii_cells cs [0..<16]"

fun rows :: "nat \<Rightarrow> string \<Rightarrow> string" where
  "rows n cs = (if cs = [] then [] else row_text n (take 16 cs) @ ''\<newline>'' @ rows (n + 16) (drop 16 cs))"

declare rows.simps [simp del]

text \<open>Reading the bytes back out of the hexadecimal columns of a row.\<close>

definition read_cell :: "string \<Rightarrow> nat \<Rightarrow> nat" where
  "read_cell row j = of_radix 16 (map undigit (take 2 (drop (8 + j * 3) row)))"

definition read_row :: "nat \<Rightarrow> string \<Rightarrow> string" where
  "read_row k row = map (\<lambda>j. char_of (read_cell row j)) [0..<k]"

fun undump :: "nat \<Rightarrow> string \<Rightarrow> string" where
  "undump n s = (if n = 0 then [] else read_row (min n 16) s @ undump (n - 16) (drop 75 s))"

declare undump.simps [simp del]

section \<open>Cells\<close>

lemma hex_byte_radix: "hex_byte d = pad_left (CHR ''0'') 2 (hex (of_char d))"
proof -
  have "fmt_items ''%02x'' = [Conv False True 2 None (CHR ''x'')]" by code_simp
  moreover have "CHR ''-'' \<notin> set (hex n)" for n using hex_chars [of "CHR ''-''" n] by auto
  ultimately show ?thesis
    by (simp add: hex_byte_def emit_def printf_def with_prec_def justify_zeros)
qed

lemma length_hex_byte [simp]: "length (hex_byte d) = 2"
proof -
  have "(of_char d :: nat) < 16 ^ 2" by simp
  from length_hex_le [OF this] show ?thesis by (simp add: hex_byte_radix max_def)
qed

lemma hex_byte_chars: "c \<in> set (hex_byte d) \<Longrightarrow> 48 \<le> (of_char c :: nat)"
  using hex_chars by (auto simp: hex_byte_radix pad_left_def)

lemma hex_byte_value: "of_radix 16 (map undigit (hex_byte d)) = of_char d"
proof -
  have "of_radix b (replicate k 0 @ ds) = of_radix b ds" for b ds k
    by (induction k) (simp_all add: of_radix_def)
  moreover have "undigit (CHR ''0'') = 0" by code_simp
  ultimately show ?thesis by (simp add: hex_byte_radix pad_left_def undigit_hex of_radix_radix)
qed

lemma sprint_off_small:
  assumes "n < 10 ^ 6"
  shows "sprint_off (int n) = Inr (off_str n)" and "length (off_str n) = 7"
proof -
  have "fmt_items ''+%06d'' = [Lit (CHR ''+''), Conv False True 6 None (CHR ''d'')]" by code_simp
  moreover have "CHR ''-'' \<notin> set (dec n)" using dec_chars [of "CHR ''-''" n] by auto
  ultimately have "emit ''+%06d'' [FInt (int n)] = off_str n"
    by (simp add: emit_def printf_def justify_zeros off_str_def dec_int_def)
  moreover show "length (off_str n) = 7" using length_dec_le [OF assms] by (simp add: off_str_def)
  ultimately show "sprint_off (int n) = Inr (off_str n)" by (simp add: sprint_off_def)
qed

section \<open>Building a row\<close>

lemma put_here: "length ys = length cs \<Longrightarrow> i = length xs \<Longrightarrow> put i cs (xs @ ys @ zs) = xs @ cs @ zs"
  by (simp add: put_def)

lemma length_hex_cells [simp]: "length (hex_cells cs js) = 3 * length js"
  by (induction js) (auto simp: hex_cells_def)

lemma length_ascii_cells [simp]: "length (ascii_cells cs js) = length js"
  by (simp add: ascii_cells_def)

lemma cells_append:
  "hex_cells cs (js @ ks) = hex_cells cs js @ hex_cells cs ks"
  "ascii_cells cs (js @ ks) = ascii_cells cs js @ ascii_cells cs ks"
  by (simp_all add: hex_cells_def ascii_cells_def)

text \<open>Adding a byte changes its own cell only.\<close>

lemma cells_snoc:
  assumes "length cs \<notin> set js"
  shows "hex_cells (cs @ [d]) js = hex_cells cs js" "ascii_cells (cs @ [d]) js = ascii_cells cs js"
  using assms by (auto simp: hex_cells_def ascii_cells_def nth_append less_Suc_eq intro!: arg_cong [where f = concat] map_cong)

lemma split_16: "j < 16 \<Longrightarrow> [0..<16] = [0..<j] @ [j] @ [Suc j..<16]"
  using upt_add_eq_append [of 0 j "16 - j"] by (simp add: upt_conv_Cons)

lemma put_byte_row:
  assumes "length cs = j" "j < 16" "length (off_str n) = 7"
  shows "put_byte j d (row_text n cs @ tail) = row_text n (cs @ [d]) @ tail"
proof -
  let ?h = "\<lambda>cs. off_str n @ '' '' @ hex_cells cs [0..<j]" and ?r = "\<lambda>cs. hex_cells cs [Suc j..<16] @ ''  ''"
  have cell: "hex_cells cs [j] = '' '' @ '' '' @ '' ''" "hex_cells (cs @ [d]) [j] = hex_byte d @ '' ''"
      "ascii_cells cs [j] = '' ''" "ascii_cells (cs @ [d]) [j] = [ascii_byte d]"
    using assms(1) by (auto simp: hex_cells_def ascii_cells_def nth_append)
  have row: "row_text n xs = ?h xs @ hex_cells xs [j] @ ?r xs @ ascii_cells xs [0..<j] @ ascii_cells xs [j] @ ascii_cells xs [Suc j..<16]" for xs
    unfolding row_text_def split_16 [OF assms(2)] cells_append by simp
  let ?x = "?h cs @ (hex_byte d @ '' '') @ ?r cs @ ascii_cells cs [0..<j]"
    and ?z = "ascii_cells cs [Suc j..<16] @ tail"
  have 1: "put (8 + j * 3) (hex_byte d) (row_text n cs @ tail) = ?x @ '' '' @ ?z"
    unfolding row cell using put_here [of "'' '' @ '' ''" "hex_byte d" "8 + j * 3" "?h cs"] assms(3) by simp
  have 2: "put (58 + j) [ascii_byte d] (?x @ '' '' @ ?z) = ?x @ [ascii_byte d] @ ?z"
    using assms by (intro put_here) auto
  have 3: "?x @ [ascii_byte d] @ ?z = row_text n (cs @ [d]) @ tail"
    unfolding row cell using assms(1) by (simp add: cells_snoc)
  show ?thesis unfolding put_byte_def 1 2 3 ..
qed

lemma blank_row: "row_text n [] = off_str n @ replicate 67 (CHR '' '')"
proof -
  have "hex_cells [] [0..<16] = replicate 48 (CHR '' '')" "ascii_cells [] [0..<16] = replicate 16 (CHR '' '')"
    by (simp_all add: hex_cells_def ascii_cells_def map_replicate_const upt_rec numeral_eq_Suc)
  then show ?thesis by (simp add: row_text_def numeral_eq_Suc)
qed

lemma length_row [simp]: "length (off_str n) = 7 \<Longrightarrow> length (row_text n cs) = 74"
  by (simp add: row_text_def)

lemma off_str_chars: "CHR 0x00 \<notin> set (off_str n)"
  using dec_chars [of "CHR 0x00" n] by (auto simp: off_str_def pad_left_def)

lemma hex_byte_no_nul: "CHR 0x00 \<notin> set (hex_byte d)"
  using hex_byte_chars [of "CHR 0x00" d] by auto

lemma row_no_nul: "CHR 0x00 \<notin> set (row_text n cs)"
proof -
  have "CHR 0x00 \<notin> set (hex_cells cs js)" for js
    using hex_byte_no_nul by (auto simp: hex_cells_def)
  moreover have "ascii_byte d \<noteq> CHR 0x00" for d
    by (cases "d = CHR 0x00") (auto simp: ascii_byte_def)
  then have "CHR 0x00 \<notin> set (ascii_cells cs js)" for js
    by (fastforce simp: ascii_cells_def)
  ultimately show ?thesis using off_str_chars [of n] by (simp add: row_text_def)
qed

lemma print_row: "print_buffer (row_text n cs @ CHR ''\<newline>'' # CHR 0x00 # t) = row_text n cs @ ''\<newline>''"
  using row_no_nul [of n cs] by (auto simp: print_buffer_def takeWhile_append)

section \<open>The loop\<close>

lemma rows_short: "cs \<noteq> [] \<Longrightarrow> length cs \<le> 16 \<Longrightarrow> rows n cs = row_text n cs @ ''\<newline>''"
  by (subst rows.simps) (simp add: rows.simps [of _ "[]"])

lemma rows_long: "length cs = 16 \<Longrightarrow> rows n (cs @ ds) = row_text n cs @ ''\<newline>'' @ rows (n + 16) ds"
  by (subst rows.simps) auto

lemma new_row:
  assumes "length (off_str n) = 7" "length (off_str m) = 7"
  shows "put 0 (off_str m) (memset (CHR '' '') 74 (row_text n cs @ tail)) = row_text m [] @ tail"
  using assms by (simp add: put_def memset_def blank_row)

lemma dump_loop_rows:
  assumes "off + length bytes \<le> 10 ^ 6" and "length cs = j" and "j \<le> 16" and "j \<le> i" and "i \<le> length bytes"
    and "cs @ drop i bytes \<noteq> []"
  shows "\<exists>j' buf' out'. dump_loop bytes (int off) (int (length bytes)) i j
            (row_text (off + i - j) cs @ CHR ''\<newline>'' # CHR 0x00 # t) out = Inr (j', buf', out') \<and> j' \<noteq> 0 \<and>
          out' @ print_buffer buf' = out @ rows (off + i - j) (cs @ drop i bytes)"
  using assms
proof (induction "length bytes - i" arbitrary: i j cs out)
  case 0
  then have "i = length bytes" by simp
  with 0 show ?case by (subst dump_loop.simps) (auto simp: print_row rows_short)
next
  case (Suc k)
  then have i: "i < length bytes" by simp
  note IH = Suc.hyps(1) [of "Suc i"]
  have d: "drop i bytes = bytes ! i # drop (Suc i) bytes" using i by (simp add: Cons_nth_drop_Suc)
  have n: "length (off_str (off + i - j)) = 7" "length (off_str (off + i)) = 7" "sprint_off (int i + int off) = Inr (off_str (off + i))"
    using sprint_off_small [of "off + i - j"] sprint_off_small [of "off + i"] Suc.prems i
    by (simp_all add: add.commute)
  show ?case
  proof (cases "j = 16")
    case True
    let ?out = "out @ row_text (off + i - j) cs @ ''\<newline>''"
    have "dump_loop bytes (int off) (int (length bytes)) i j (row_text (off + i - j) cs @ CHR ''\<newline>'' # CHR 0x00 # t) out =
        dump_loop bytes (int off) (int (length bytes)) (Suc i) 1 (row_text (off + i) [bytes ! i] @ CHR ''\<newline>'' # CHR 0x00 # t) ?out"
      using i True n
      by (subst dump_loop.simps) (simp add: new_row print_row put_byte_row [where cs = "[]", simplified])
    moreover have "rows (off + i - j) (cs @ drop i bytes) = row_text (off + i - j) cs @ ''\<newline>'' @ rows (off + i) (drop i bytes)"
      using rows_long [of cs "off + i - j" "drop i bytes"] Suc.prems True by simp
    ultimately show ?thesis
      using IH [of "[bytes ! i]" 1 ?out] Suc.hyps(2) Suc.prems i d by simp
  next
    case False
    then have "dump_loop bytes (int off) (int (length bytes)) i j (row_text (off + i - j) cs @ CHR ''\<newline>'' # CHR 0x00 # t) out =
        dump_loop bytes (int off) (int (length bytes)) (Suc i) (Suc j) (row_text (off + i - j) (cs @ [bytes ! i]) @ CHR ''\<newline>'' # CHR 0x00 # t) out"
      using i n Suc.prems by (subst dump_loop.simps) (simp add: put_byte_row)
    then show ?thesis
      using IH [of "cs @ [bytes ! i]" "Suc j" out] Suc.hyps(2) Suc.prems i d False by simp
  qed
qed

lemma first_buffer_row:
  assumes "length (off_str n) = 7"
  shows "\<exists>t. first_buffer (off_str n) = row_text n [] @ CHR ''\<newline>'' # CHR 0x00 # t"
proof -
  obtain c cs where o: "off_str n = CHR ''+'' # cs" "length cs = 6" using assms by (simp add: off_str_def)
  have "(memset (CHR '' '') 74 (replicate 128 (CHR 0x00)))[74 := CHR ''\<newline>'', 75 := CHR 0x00, 0 := CHR ''+''] =
      CHR ''+'' # replicate 73 (CHR '' '') @ CHR ''\<newline>'' # CHR 0x00 # replicate 52 (CHR 0x00)"
    by (simp add: memset_def list_update_append replicate_Suc numeral_eq_Suc)
  then show ?thesis
    using o by (simp add: first_buffer_def put_def blank_row Let_def)
qed

text \<open>The loop looks at the first \<open>sz\<close> bytes only.\<close>

lemma dump_loop_take:
  "nat sz \<le> length bytes \<Longrightarrow> dump_loop bytes offset sz i j buf out = dump_loop (take (nat sz) bytes) offset sz i j buf out"
proof (induction bytes offset sz i j buf out rule: dump_loop.induct)
  case (1 bytes offset sz i j buf out)
  show ?case
  proof (cases "int i < sz")
    case True
    with 1 show ?thesis
      by (subst (1 2) dump_loop.simps) (auto split: sum.splits)
  next
    case False
    then show ?thesis by (subst (1 2) dump_loop.simps) simp
  qed
qed

lemma hex_dump_rows:
  assumes "0 < n" and "n \<le> length bytes" and "off + n \<le> 10 ^ 6"
  shows "hex_dump addr bytes (int off) (int n) cap False = Inr (ruler @ rows off (take n bytes))"
proof -
  let ?bs = "take n bytes"
  have len: "length ?bs = n" using assms(2) by simp
  have o: "sprint_off (int off) = Inr (off_str off)" "length (off_str off) = 7"
    using sprint_off_small [of off] assms by simp_all
  then obtain t where t: "first_buffer (off_str off) = row_text off [] @ CHR ''\<newline>'' # CHR 0x00 # t"
    using first_buffer_row by blast
  have "bytes \<noteq> []" using assms by auto
  with dump_loop_rows [of off ?bs "[]" 0 0 t ruler] assms len obtain j' buf' out' where
      "dump_loop ?bs (int off) (int n) 0 0 (row_text off [] @ CHR ''\<newline>'' # CHR 0x00 # t) ruler = Inr (j', buf', out')"
      "j' \<noteq> 0" "out' @ print_buffer buf' = ruler @ rows off ?bs"
    by auto
  with o t dump_loop_take [of "int n" bytes] assms(2) show ?thesis
    by (simp add: hex_dump_def split: option.split)
qed

lemma read_cell_row:
  assumes "j < length cs" "length cs \<le> 16" "length (off_str n) = 7"
  shows "read_cell (row_text n cs @ rest) j = of_char (cs ! j)"
proof -
  have "hex_cells cs [j] = hex_byte (cs ! j) @ '' ''" using assms by (simp add: hex_cells_def)
  then have "row_text n cs = (off_str n @ '' '' @ hex_cells cs [0..<j]) @ hex_byte (cs ! j) @ '' '' @
      hex_cells cs [Suc j..<16] @ ''  '' @ ascii_cells cs [0..<16]"
    unfolding row_text_def using split_16 [of j] assms cells_append(1) [of cs "[0..<j]" "[j] @ [Suc j..<16]"] cells_append(1) [of cs "[j]" "[Suc j..<16]"] by simp
  then have "take 2 (drop (8 + j * 3) (row_text n cs @ rest)) = hex_byte (cs ! j)" using assms(3) by simp
  then show ?thesis by (simp add: read_cell_def hex_byte_value)
qed

lemma undump_rows:
  "n + length cs \<le> 10 ^ 6 \<Longrightarrow> undump (length cs) (rows n cs) = cs"
proof (induction n cs rule: rows.induct)
  case (1 n cs)
  show ?case
  proof (cases "cs = []")
    case True
    then show ?thesis by (simp add: undump.simps)
  next
    case False
    with 1 have o: "length (off_str n) = 7" using sprint_off_small [of n] by (cases cs) auto
    have r: "rows n cs = row_text n (take 16 cs) @ ''\<newline>'' @ rows (n + 16) (drop 16 cs)"
      using False by (subst rows.simps) simp
    have "read_row (min (length cs) 16) (rows n cs) = take 16 cs"
      unfolding r read_row_def using read_cell_row [of _ "take 16 cs" n] o
      by (intro nth_equalityI) (auto simp: min.commute)
    moreover have "undump (length cs - 16) (rows (n + 16) (drop 16 cs)) = drop 16 cs"
      using 1 False by (cases "length cs \<le> 16") (auto simp: undump.simps)
    ultimately show ?thesis using False o r by (subst undump.simps) simp
  qed
qed

section \<open>Properties\<close>



text \<open>
  C25: nothing is lost in the dump: the bytes can be read back from its hexadecimal columns.
\<close>

theorem hex_dump_roundtrip:
  assumes "0 < length bytes" and "off + length bytes \<le> 10 ^ 6"
  shows "\<exists>out. hex_dump addr bytes (int off) (int (length bytes)) cap False = Inr out \<and>
     undump (length bytes) (drop (length ruler) out) = bytes"
  using hex_dump_rows [of "length bytes" bytes off addr cap] assms undump_rows [of off bytes] by simp

theorem hex_dump_roundtrip_witness:
  "\<exists>out. hex_dump 4096 ''byte soup'' 0 9 None False = Inr out \<and> undump (length ''byte soup'') (drop (length ruler) out) = ''byte soup''"
  using hex_dump_roundtrip [of "''byte soup''" 0 4096 None] by simp

text \<open>
  C27: at a start offset of a million or more, the offset with its sign and NUL does not fit the
  eight bytes of \<^verbatim>\<open>temp\<close>, and \<^verbatim>\<open>hex_dump\<close> writes past that array whatever it is asked to print.
\<close>

theorem hex_dump_overflows:
  assumes "10 ^ 6 \<le> off"
  shows "hex_dump addr bytes (int off) sz cap verbose = Inl (OutOfBounds 8)"
proof -
  have "fmt_items ''+%06d'' = [Lit (CHR ''+''), Conv False True 6 None (CHR ''d'')]" by code_simp
  moreover have "CHR ''-'' \<notin> set (dec off)" using dec_chars [of "CHR ''-''" off] by auto
  ultimately have e: "emit ''+%06d'' [FInt (int off)] = off_str off"
    by (simp add: emit_def printf_def justify_zeros off_str_def dec_int_def)
  have "6 < length (dec off)"
  proof (rule ccontr)
    assume "\<not> 6 < length (dec off)"
    then have "of_radix 10 (radix 10 off) < 10 ^ 6"
      using of_radix_bound [of "radix 10 off" 10] radix_digits [of 10 _ off] power_increasing [of "length (radix 10 off)" 6 "10::nat"]
      by (force simp: dec_def)
    with assms show False by (simp add: of_radix_radix)
  qed
  with e show ?thesis by (simp add: hex_dump_def sprint_off_def off_str_def)
qed

theorem hex_dump_overflows_witness:
  "hex_dump 4096 ''abc'' 1000000 3 None False = Inl (OutOfBounds 8)"
  using hex_dump_overflows [of 1000000 4096 "''abc''" 3 None False] by simp

text \<open>
  C28: the program dumps exactly the part of the file its arguments select, provided that such a part ends within the first
  million bytes (beyond them the buffer for the offset overflows): with a start offset and a length that lie within the file, it
  prints the rows of those bytes, closes the file and exits with 0. Otherwise it prints no byte of the file: with an empty or negative
  length, a negative offset or a part that leaves the file it exits with 1, and when the sum of offset and length is beyond the
  largest \<^verbatim>\<open>long\<close> the check itself overflows.
\<close>

theorem mmap_simple_dumps_part:
  fixes argv :: "string list" and e :: dump_env
  defines "off \<equiv> atol (argv ! 2)" and "len \<equiv> atol (argv ! 3)" and "fsz \<equiv> int (length (e_file e))"
  assumes "length argv = 4" and "r_open2 os (argv ! 1) 0 w = Some (r, w1)" and "ret r \<noteq> -1"
    and "e_fstat_ok e" and "e_file e \<noteq> []" and "e_mmap e = Some p" and "e_msync_ok e" and "e_munmap_ok e"
    and small: "0 < len \<Longrightarrow> 0 \<le> off \<Longrightarrow> off + len \<le> fsz \<Longrightarrow> off + len \<le> 10 ^ 6"
  shows "mmap_simple_main os e argv w = Some
    (if 0 < len \<and> 0 \<le> off \<and> LONG_MAX < off + len then (Inl SignedOverflow, w1)
     else if 0 < len \<and> 0 \<le> off \<and> off + len \<le> fsz
     then (Inr (Exit 0, [Stdout (ruler @ rows (nat off) (take (nat len) (drop (nat off) (e_file e))))]), snd (sys_close os (ret r) w1))
     else (Inr (Exit 1, [Stderr (if len \<le> 0 then emit ''%s: invalid length %ld, aborting...\<newline>'' [FStr (argv ! 0), FInt len]
           else emit ''%s: invalid offset or offset/length combination, aborting...\<newline>'' [FStr (argv ! 0)])]), w1))"
proof (cases "0 < len \<and> 0 \<le> off \<and> off + len \<le> fsz")
  case True
  then have le: "off + len \<le> 10 ^ 6" using small by blast
  obtain i n where ol: "off = int i" "len = int n" using True by (metis nonneg_int_cases order_less_imp_le)
  have "to_int32 (int i) = int i" "to_int32 (int n) = int n"
    using le ol by (auto intro!: to_int32_id simp: is_int_def int_limits)
  moreover have "n \<le> length (drop i (e_file e))" using True ol unfolding fsz_def by (simp, linarith)
  then have "hex_dump (p + i) (drop i (e_file e)) (int i) (int n) (Some ''Data'') False = Inr (ruler @ rows i (take n (drop i (e_file e))))"
    using hex_dump_rows [of n "drop i (e_file e)" i "p + i" "Some ''Data''"] True le ol by simp
  moreover have "\<not> LONG_MAX < int i + int n" using le ol by (simp add: LONG_MAX_def)
  ultimately show ?thesis
    using assms(4-11) True ol unfolding off_def len_def fsz_def
    by (simp add: mmap_simple_main_def dump_file_def unmap_source_def Let_def)
next
  case False
  with assms(4-11) show ?thesis unfolding off_def len_def fsz_def by (auto simp: mmap_simple_main_def dump_file_def Let_def)
qed

definition demo_env :: dump_env where
  "demo_env = \<lparr>e_fstat_ok = True, e_file = ''hello world'', e_mmap = Some 4096, e_msync_ok = True, e_munmap_ok = True\<rparr>"

theorem mmap_simple_dumps_part_witness:
  "mmap_simple_main (script_os False) demo_env [''mmap_simple'', ''f'', ''6'', ''5''] demo_world =
     Some (Inr (Exit 0, [Stdout (ruler @ rows 6 ''world'')]), demo_world)"
proof -
  have "r_open2 (script_os False) ''f'' 0 demo_world = Some ((3, 0, ()), demo_world)"
    by (simp add: r_open2_def script_os_def restart.simps interrupted_def)
  moreover have "atol ''6'' = 6" "atol ''5'' = 5" by code_simp+
  moreover have "snd (sys_close (script_os False) 3 demo_world) = demo_world" by (simp add: script_os_def)
  ultimately show ?thesis
    using mmap_simple_dumps_part [of "[''mmap_simple'', ''f'', ''6'', ''5'']" "script_os False" demo_world "(3, 0, ())" demo_world
        demo_env 4096]
    by (simp add: demo_env_def LONG_MAX_def)
qed

text \<open>An offset and a length near the largest \<^verbatim>\<open>long\<close> make the check of the two overflow.\<close>

lemma dump_file_overflows:
  assumes "e_fstat_ok e" and "e_file e \<noteq> []" and "0 < atol (argv ! 3)" and "LONG_MAX - atol (argv ! 3) < atol (argv ! 2)"
  shows "dump_file e argv = Inl SignedOverflow"
  using assms atol_range [of "argv ! 3"] by (auto simp: dump_file_def Let_def is_long_def)

end
