(* ===== verification/Counting.thy ===== *)
theory Counting
  imports C_Format Transitions
begin

text \<open>
  \<^verbatim>\<open>ksync/counting\<close>: many threads that each increment a shared counter without a lock
  (\<^verbatim>\<open>counting_mt_nolocks_5.1.c\<close>), and one thread that increments it in a loop
  (\<^verbatim>\<open>counting_singlethrd_5.1.c\<close>). The increment \<^verbatim>\<open>counter++\<close> is a load and a store, and the threads
  interleave at these; the theory determines exactly which final values can be printed.
\<close>

section \<open>Threads\<close>

text \<open>Where a thread is in \<^verbatim>\<open>inc_count\<close>, with the value it holds in a register.\<close>

datatype tpc = Ready | Loaded "64 word" | Done

record cstate =
  counter :: "64 word"
  thr :: "tpc list"

text \<open>One access of thread \<open>i\<close> to the counter: the load, or the store of the incremented value.\<close>

definition advance :: "nat \<Rightarrow> cstate \<Rightarrow> cstate" where
  "advance i s =
     (case thr s ! i of
        Ready \<Rightarrow> s\<lparr>thr := (thr s)[i := Loaded (counter s)]\<rparr>
      | Loaded v \<Rightarrow> s\<lparr>counter := v + 1, thr := (thr s)[i := Done]\<rparr>
      | Done \<Rightarrow> s)"

inductive cstep :: "cstate \<Rightarrow> nat \<Rightarrow> cstate \<Rightarrow> bool" where
  load: "i < length (thr s) \<Longrightarrow> thr s ! i = Ready \<Longrightarrow> cstep s i (advance i s)"
| store: "i < length (thr s) \<Longrightarrow> thr s ! i = Loaded v \<Longrightarrow> cstep s i (advance i s)"

inductive_cases cstepE: "cstep s i s'"

text \<open>The state in which the threads are created, and that in which all have been joined.\<close>

definition created :: "nat \<Rightarrow> cstate" where
  "created n = \<lparr>counter = 0, thr = replicate n Ready\<rparr>"

definition joined :: "nat \<Rightarrow> cstate \<Rightarrow> bool" where
  "joined n s \<longleftrightarrow> thr s = replicate n Done"

section \<open>The programs\<close>

definition MAX_THREADS :: int where "MAX_THREADS = 127000"

text \<open>
  What \<^verbatim>\<open>main\<close> of the threaded program meets: the results of \<^verbatim>\<open>malloc\<close>, of each \<^verbatim>\<open>pthread_create\<close> with its
  message, and of each \<^verbatim>\<open>pthread_join\<close>, and whether the thread had been cancelled.
\<close>

record thread_calls =
  malloc_works :: bool
  create_rc :: "nat \<Rightarrow> int"
  strerror :: "int \<Rightarrow> string"
  join_rc :: "nat \<Rightarrow> int"
  canceled :: "nat \<Rightarrow> bool"

definition join_line :: "thread_calls \<Rightarrow> nat \<Rightarrow> message list" where
  "join_line T i =
     (if join_rc T i \<noteq> 0 then
        [Stdout (emit ''WARNING! [%d] pthread_join() failed! [%d]\<newline>'' [FInt (int i), FInt (join_rc T i)])]
      else if canceled T i then [Stdout (emit ''  : was CANCELED\<newline>'' [])] else [])"

text \<open>\<^verbatim>\<open>read_count()\<close> is the counter after the join loop; the process ends with 0 when its last thread does.\<close>

definition counting_mt_main :: "thread_calls \<Rightarrow> 64 word \<Rightarrow> string list \<Rightarrow> ending \<times> message list" where
  "counting_mt_main T read_count argv =
     (if length argv \<noteq> 2 then
        (Exit 1, [Stdout (emit ''Usage: %s num-threads-to-create (each thread counts up by 1)\<newline>'' [FStr (argv ! 0)])])
      else let numthrds = atoi (argv ! 1) in
      if numthrds \<le> 0 \<or> numthrds > MAX_THREADS then
        (Exit 1, [Stdout (emit ''%s: num-threads invalid (range: [1..MAX_THREADS(=%d)])\<newline>'' [FStr (argv ! 0), FInt MAX_THREADS])])
      else if \<not> malloc_works T then (Exit 1, [Stdout (emit ''%s: out of memory!\<newline>'' [FStr (argv ! 0)])])
      else case List.find (\<lambda>t. create_rc T t \<noteq> 0) [0..<nat numthrds] of
        Some t \<Rightarrow>
          (Exit 1,
           [Stdout (emit ''%s: Thrd # %ld: ERROR: return code from pthread_create() is %d\<newline>strerror() says: %s\<newline>''
                [FStr (argv ! 0), FInt (int t), FInt (create_rc T t), FStr (strerror T (create_rc T t))]),
            Perror ''perror(): pthread_create failed''])
      | None \<Rightarrow>
          (Exit 0, concat (map (join_line T) [0..<nat numthrds]) @
             [Stdout (emit ''\<newline>counter val=%llu\<newline>'' [FUInt (unat read_count)])]))"

text \<open>The loop of the single-threaded program, and its output.\<close>

primrec count_loop :: "nat \<Rightarrow> 64 word \<Rightarrow> 64 word" where
  "count_loop 0 c = c"
| "count_loop (Suc n) c = count_loop n (c + 1)"

definition COUNT :: nat where "COUNT = 1000000000"

definition counting_single_main :: "nat \<Rightarrow> string" where
  "counting_single_main n =
     emit ''COUNT=      %llu\<newline>counter val=%llu\<newline>'' [FUInt n, FUInt (unat (count_loop n 0))]"

section \<open>What an execution can lose\<close>

definition dones :: "cstate \<Rightarrow> nat" where
  "dones s = length (filter (\<lambda>t. t = Done) (thr s))"

text \<open>No register and not the counter ever exceeds the number of finished threads.\<close>

definition cinv :: "nat \<Rightarrow> cstate \<Rightarrow> bool" where
  "cinv n s \<longleftrightarrow> length (thr s) = n \<and> unat (counter s) \<le> dones s \<and>
     (\<forall>v. Loaded v \<in> set (thr s) \<longrightarrow> unat v \<le> dones s) \<and> (0 < dones s \<longrightarrow> 0 < unat (counter s))"

lemma dones_update:
  "i < length ts \<Longrightarrow> length (filter (\<lambda>t. t = Done) (ts[i := x])) + (if ts ! i = Done then 1 else 0) =
     length (filter (\<lambda>t. t = Done) ts) + (if x = Done then 1 else 0)"
proof (induction ts arbitrary: i)
  case (Cons t ts)
  show ?case
  proof (cases i)
    case 0
    then show ?thesis by auto
  next
    case (Suc k)
    with Cons.IH [of k] Cons.prems show ?thesis by (auto split: if_splits)
  qed
qed simp

lemma dones_less: "i < length (thr s) \<Longrightarrow> thr s ! i \<noteq> Done \<Longrightarrow> dones s < length (thr s)"
  unfolding dones_def by (intro length_filter_less) auto

lemma cinv_created: "cinv n (created n)"
  by (auto simp: cinv_def created_def dones_def)

lemma cinv_step:
  assumes "cstep s i s'" and "cinv n s" and "n < 2 ^ 64"
  shows "cinv n s'"
  using assms(1)
proof cases
  case load
  have "dones s' = dones s"
    using dones_update [of i "thr s" "Loaded (counter s)"] load by (simp add: dones_def advance_def)
  with load assms(2) show ?thesis
    by (auto simp: cinv_def advance_def dest!: set_update_subset_insert [THEN subsetD])
next
  case (store v)
  have d: "dones s' = Suc (dones s)"
    using dones_update [of i "thr s" Done] store by (simp add: dones_def advance_def)
  have "Loaded v \<in> set (thr s)" using store by (metis nth_mem)
  with assms(2) have v: "unat v \<le> dones s" by (simp add: cinv_def)
  moreover have "dones s < n" using dones_less [of i s] store assms(2) by (simp add: cinv_def)
  ultimately have "unat (v + 1) = Suc (unat v)"
    using assms(3) by (subst unat_word_ariths) simp
  with d v store assms(2) show ?thesis
    by (auto simp: cinv_def advance_def dest!: set_update_subset_insert [THEN subsetD])
qed

interpretation counting: inductive_invariant "\<lambda>s. s = created n" "\<lambda>s. n < 2 ^ 64 \<longrightarrow> cinv n s" cstep for n
  by unfold_locales (auto intro: cinv_created cinv_step)

lemma cinv_reachable: "run cstep (created n) is s \<Longrightarrow> n < 2 ^ 64 \<Longrightarrow> cinv n s"
  using counting.reached_inv by blast

section \<open>Schedules\<close>

definition run_sched :: "nat list \<Rightarrow> cstate \<Rightarrow> cstate" where
  "run_sched is s = fold advance is s"

lemma length_advance [simp]: "length (thr (advance i s)) = length (thr s)"
  by (simp add: advance_def split: tpc.split)

text \<open>A turn of a finished thread changes nothing and is left out of the run.\<close>

lemma run_sched_reach: "\<forall>i \<in> set is. i < length (thr s) \<Longrightarrow> \<exists>js. run cstep s js (run_sched is s)"
proof (induction "is" arbitrary: s)
  case Nil
  then show ?case by (intro exI [of _ "[]"]) (simp add: run_sched_def)
next
  case (Cons i "is")
  then obtain js where js: "run cstep (advance i s) js (run_sched is (advance i s))" by fastforce
  show ?case
  proof (cases "thr s ! i = Done")
    case True
    then have "advance i s = s" by (simp add: advance_def)
    with js show ?thesis by (auto simp: run_sched_def)
  next
    case False
    then have "cstep s i (advance i s)"
      using Cons.prems by (cases "thr s ! i") (auto intro: cstep.intros)
    with js show ?thesis by (intro exI [of _ "i # js"]) (auto simp: run_sched_def)
  qed
qed

lemma advance_at:
  "thr s = xs @ Ready # ys \<Longrightarrow> advance (length xs) s = s\<lparr>thr := xs @ Loaded (counter s) # ys\<rparr>"
  "thr s = xs @ Loaded v # ys \<Longrightarrow> advance (length xs) s = s\<lparr>counter := v + 1, thr := xs @ Done # ys\<rparr>"
  by (simp_all add: advance_def)

lemma sched_loads:
  "k \<le> n \<Longrightarrow> run_sched [0..<k] \<lparr>counter = c, thr = replicate n Ready\<rparr> =
     \<lparr>counter = c, thr = replicate k (Loaded c) @ replicate (n - k) Ready\<rparr>"
proof (induction k)
  case 0
  then show ?case by (simp add: run_sched_def)
next
  case (Suc k)
  then have "replicate (n - k) Ready = Ready # replicate (n - Suc k) Ready"
    by (metis Suc_diff_Suc Suc_le_lessD replicate_Suc)
  with Suc advance_at(1) [of "\<lparr>counter = c, thr = replicate k (Loaded c) @ Ready # replicate (n - Suc k) Ready\<rparr>"
      "replicate k (Loaded c)"]
  show ?case by (simp add: run_sched_def replicate_app_Cons_same)
qed

lemma sched_stores:
  "j \<le> k \<Longrightarrow> run_sched [0..<j] \<lparr>counter = c', thr = replicate k (Loaded c) @ ts\<rparr> =
     \<lparr>counter = (if j = 0 then c' else c + 1), thr = replicate j Done @ replicate (k - j) (Loaded c) @ ts\<rparr>"
proof (induction j)
  case 0
  then show ?case by (simp add: run_sched_def)
next
  case (Suc j)
  then have "replicate (k - j) (Loaded c) = Loaded c # replicate (k - Suc j) (Loaded c)"
    by (metis Suc_diff_Suc Suc_le_lessD replicate_Suc)
  with Suc advance_at(2) [of "\<lparr>counter = (if j = 0 then c' else c + 1), thr = replicate j Done @ Loaded c # replicate (k - Suc j) (Loaded c) @ ts\<rparr>"
      "replicate j Done" c]
  show ?case by (simp add: run_sched_def replicate_app_Cons_same)
qed

lemma sched_one_by_one:
  "run_sched (concat (map (\<lambda>i. [i, i]) [k..<k + m])) \<lparr>counter = c, thr = replicate k Done @ replicate m Ready\<rparr> =
     \<lparr>counter = c + of_nat m, thr = replicate (k + m) Done\<rparr>"
proof (induction m arbitrary: k c)
  case 0
  then show ?case by (simp add: run_sched_def)
next
  case (Suc m)
  let ?s = "\<lparr>counter = c, thr = replicate k Done @ Ready # replicate m Ready\<rparr>"
  have sched: "concat (map (\<lambda>i. [i, i]) [k..<k + Suc m]) = [k, k] @ concat (map (\<lambda>i. [i, i]) [Suc k..<Suc k + m])"
    by (simp add: upt_conv_Cons del: upt_Suc)
  have "advance k (advance k ?s) = \<lparr>counter = c + 1, thr = replicate (Suc k) Done @ replicate m Ready\<rparr>"
    using advance_at(1) [of ?s "replicate k Done"]
      advance_at(2) [of "\<lparr>counter = c, thr = replicate k Done @ Loaded c # replicate m Ready\<rparr>" "replicate k Done" c]
    by (simp add: replicate_app_Cons_same)
  with Suc [of "Suc k" "c + 1"] show ?case
    unfolding sched by (simp add: run_sched_def add.commute add.left_commute)
qed

section \<open>Properties\<close>

text \<open>
  C13: with \<open>n > 0\<close> threads, the values the unlocked program can end with are exactly 1 to \<open>n\<close>:
  every interleaving keeps at least one increment and none adds one, and each of these values is
  the result of some interleaving. Only one of them is right.
\<close>

theorem unlocked_count_range:
  assumes "0 < n" and "n < 2 ^ 64"
  shows "{unat (counter s) | s is. run cstep (created n) is s \<and> joined n s} = {1..n}"
proof (intro equalityI subsetI)
  fix x assume "x \<in> {unat (counter s) | s is. run cstep (created n) is s \<and> joined n s}"
  then obtain s "is" where s: "x = unat (counter s)" "run cstep (created n) is s" "thr s = replicate n Done"
    by (auto simp: joined_def)
  with cinv_reachable [OF s(2) assms(2)] assms(1) show "x \<in> {1..n}"
    by (auto simp: cinv_def dones_def)
next
  fix v assume v: "v \<in> {1..n}"
  define k where "k = n + 1 - v"
  with v have k: "0 < k" "k \<le> n" "n = k + (v - 1)" by auto
  let ?sched = "[0..<k] @ [0..<k] @ concat (map (\<lambda>i. [i, i]) [k..<k + (v - 1)])"
  have s: "run_sched ?sched (created n) = \<lparr>counter = 0 + 1 + of_nat (v - 1), thr = replicate (k + (v - 1)) Done\<rparr>"
    using sched_loads [OF k(2), of 0] sched_stores [of k k 0 0 "replicate (v - 1) Ready"]
      sched_one_by_one [of k "v - 1" "0 + 1"] k
    by (simp add: run_sched_def created_def)
  have r: "\<exists>is. run cstep (created n) is (run_sched ?sched (created n))"
    by (rule run_sched_reach) (use k in \<open>auto simp: created_def\<close>)
  have u: "unat (0 + 1 + of_nat (v - 1) :: 64 word) = v"
  proof -
    have "(0 + 1 + of_nat (v - 1) :: 64 word) = of_nat v" using v by (simp add: of_nat_diff)
    then show ?thesis using v assms(2) by (simp add: unat_of_nat take_bit_nat_eq_self)
  qed
  have "joined n (run_sched ?sched (created n))"
    unfolding s joined_def by (simp only: cstate.simps k(3) [symmetric])
  moreover have "v = unat (counter (run_sched ?sched (created n)))" unfolding s by (simp only: cstate.simps u)
  ultimately show "v \<in> {unat (counter s) | s is. run cstep (created n) is s \<and> joined n s}"
    using r by blast
qed

theorem unlocked_count_range_witness:
  "{unat (counter s) | s is. run cstep (created 2) is s \<and> joined 2 s} = {1..2}"
  by (rule unlocked_count_range) simp_all

text \<open>
  The threaded program, given a valid number of threads that can all be created, exits with 0; the
  joins that succeed print nothing, and the counter it prints, in any state that the threads can have
  reached when those are finished, is at most the number of threads, and at least 1 if one was joined.
\<close>

theorem counting_mt_prints:
  assumes "length argv = 2" and "atoi (argv ! 1) = int n" and "0 < n" and "int n \<le> MAX_THREADS"
    and "malloc_works T" and "\<forall>t < n. create_rc T t = 0" and "\<forall>t. \<not> canceled T t"
    and "run cstep (created n) is s" and "\<forall>t < n. join_rc T t = 0 \<longrightarrow> thr s ! t = Done"
  shows "\<exists>warnings v. counting_mt_main T (counter s) argv =
       (Exit 0, warnings @ [Stdout (emit ''\<newline>counter val=%llu\<newline>'' [FUInt v])]) \<and>
     length warnings = length (filter (\<lambda>t. join_rc T t \<noteq> 0) [0..<n]) \<and>
     v \<le> n \<and> (length warnings < n \<longrightarrow> 1 \<le> v)"
proof -
  have n: "n < 2 ^ 64" using assms(4) by (simp add: MAX_THREADS_def)
  from cinv_reachable [OF assms(8) n] have inv: "cinv n s" .
  have "List.find (\<lambda>t. create_rc T t \<noteq> 0) [0..<n] = None" using assms(6) by (auto simp: find_None_iff)
  then have main: "counting_mt_main T (counter s) argv = (Exit 0, concat (map (join_line T) [0..<n]) @
      [Stdout (emit ''\<newline>counter val=%llu\<newline>'' [FUInt (unat (counter s))])])"
    using assms(1-5) by (simp add: counting_mt_main_def Let_def)
  have lines: "length (concat (map (join_line T) ts)) = length (filter (\<lambda>t. join_rc T t \<noteq> 0) ts)" for ts
    using assms(7) by (induction ts) (auto simp: join_line_def)
  have "dones s \<le> n" using inv by (metis cinv_def dones_def length_filter_le)
  then have "unat (counter s) \<le> n" using inv by (simp add: cinv_def)
  moreover have "1 \<le> unat (counter s)" if few: "length (filter (\<lambda>t. join_rc T t \<noteq> 0) [0..<n]) < n"
  proof -
    from few have "filter (\<lambda>t. join_rc T t \<noteq> 0) [0..<n] \<noteq> [0..<n]" by auto
    then have "\<exists>t \<in> set [0..<n]. join_rc T t = 0" by (meson filter_True)
    then obtain t where "t < n" "join_rc T t = 0" by auto
    with assms(9) inv have "Done \<in> set (thr s)" by (metis cinv_def nth_mem)
    then have "0 < dones s" by (auto simp: dones_def filter_empty_conv)
    with inv show ?thesis by (simp add: cinv_def)
  qed
  ultimately show ?thesis using main lines by (intro exI [of _ "concat (map (join_line T) [0..<n])"] exI [of _ "unat (counter s)"]) simp
qed

definition demo_threads :: thread_calls where
  "demo_threads = \<lparr>malloc_works = True, create_rc = (\<lambda>_. 0), strerror = (\<lambda>_. []), join_rc = (\<lambda>_. 0), canceled = (\<lambda>_. False)\<rparr>"

theorem counting_mt_prints_witness:
  "\<exists>v. 1 \<le> v \<and> v \<le> (1::nat) \<and>
    counting_mt_main demo_threads (counter (run_sched [0, 0] (created 1))) [''counting'', ''1''] =
      (Exit 0, [Stdout (emit ''\<newline>counter val=%llu\<newline>'' [FUInt v])])"
proof -
  have "atoi ''1'' = int 1" by code_simp
  moreover obtain js where "run cstep (created 1) js (run_sched [0, 0] (created 1))"
    using run_sched_reach [of "[0, 0]" "created 1"] by (auto simp: created_def)
  ultimately show ?thesis
    using counting_mt_prints [of "[''counting'', ''1'']" 1 demo_threads js "run_sched [0, 0] (created 1)"]
    by (simp add: demo_threads_def MAX_THREADS_def run_sched_def created_def advance_def) blast
qed

text \<open>
  The single-threaded program counts exactly: after \<open>n\<close> rounds the counter is \<open>n\<close>, up to the
  wrap-around of 64 bits, so the program prints its \<^verbatim>\<open>COUNT\<close> twice.
\<close>

theorem single_thread_counts:
  "unat (count_loop n 0) = n mod 2 ^ 64 \<and>
   counting_single_main COUNT = emit ''COUNT=      %llu\<newline>counter val=%llu\<newline>'' [FUInt COUNT, FUInt COUNT]"
proof -
  have "count_loop m c = c + of_nat m" for m c
    by (induction m arbitrary: c) (simp_all add: algebra_simps)
  then have u: "unat (count_loop m 0) = m mod 2 ^ 64" for m
    by (simp add: unat_of_nat take_bit_eq_mod)
  have "COUNT mod 2 ^ 64 = COUNT" by (simp add: COUNT_def)
  with u show ?thesis by (simp only: counting_single_main_def)
qed

end
