(* ===== verification/Task_Details.thy ===== *)
theory Task_Details
  imports C_Format
begin

text \<open>
  \<^verbatim>\<open>taskdtl/taskdtl_raw/taskdtl.c\<close>: the module that prints a task structure to the kernel log.
  Each \<^verbatim>\<open>pr_info\<close> call is a format and a token list (arguments and commas), both assembled by the
  preprocessor from the kernel configuration, so that the model shows for which configurations a
  call is well-formed C and whether the format has a conversion for each argument. The members of the kernel's structures are
  declared outside the repository: those that are only handed to a call are numbers of either width.
\<close>

section \<open>Calls under a configuration\<close>

record config =
  X86_64 :: bool
  ARM64 :: bool
  THREAD_INFO_IN_TASK :: bool
  VMAP_STACK :: bool
  STACKLEAK :: bool
  SCHED_INFO :: bool
  MMU :: bool
  LOCKDEP :: bool
  TASK_IO_ACCOUNTING :: bool
  TASK_XACCT :: bool
  PSI :: bool
  STACKPROTECTOR :: bool
  ARM64_PTR_AUTH :: bool
  LINUX_VERSION_CODE :: nat

definition KERNEL_VERSION :: "nat \<Rightarrow> nat \<Rightarrow> nat \<Rightarrow> nat" where
  "KERNEL_VERSION a b c = a * 65536 + b * 256 + c"

text \<open>
  A call is a format and what stands between it and the closing parenthesis. A number is passed in 32 or 64 bits (the
  kernels are LP64): integers, pointers, and structures with one integer member. An argument can name a member that the
  kernel at hand does not declare.
\<close>

type_synonym ulong = "64 word"
type_synonym uint = "32 word"

datatype cnum = Half uint | Whole ulong

datatype carg = Num cnum | Str string

datatype tok = Comma | Arg carg | No_member

type_synonym call = "string \<times> tok list"

definition member_arg :: "bool \<Rightarrow> carg \<Rightarrow> tok" where
  "member_arg declared a = (if declared then Arg a else No_member)"

text \<open>The arguments, unless the compiler rejects the list.\<close>

fun call_args :: "tok list \<Rightarrow> carg list option" where
  "call_args [] = Some []"
| "call_args (Comma # Arg a # ts) = map_option (Cons a) (call_args ts)"
| "call_args ts = None"

fun commas :: "carg list \<Rightarrow> tok list" where
  "commas [] = []"
| "commas [a] = [Arg a]"
| "commas (a # as) = Arg a # Comma # commas as"

definition ul :: "ulong \<Rightarrow> carg" where "ul w = Num (Whole w)"
definition yes_no :: "bool \<Rightarrow> carg" where "yes_no b = Str (if b then ''yes'' else ''no'')"

text \<open>The letters of the conversions, and which of them have an \<^verbatim>\<open>l\<close>.\<close>

definition letters :: "string \<Rightarrow> string" where
  "letters f = concat (map (\<lambda>i. case i of Lit c \<Rightarrow> [] | Conv m z w p c \<Rightarrow> [c]) (fmt_items f))"

fun long_mods :: "bool option \<Rightarrow> string \<Rightarrow> bool list" where
  "long_mods st [] = []"
| "long_mods None (c # cs) = (if c = CHR ''%'' then long_mods (Some False) cs else long_mods None cs)"
| "long_mods (Some l) (c # cs) =
     (if c = CHR ''%'' then long_mods None cs
      else if c = CHR ''l'' then long_mods (Some True) cs
      else if c = CHR ''-'' \<or> c = CHR ''.'' \<or> is_digit c then long_mods (Some l) cs
      else l # long_mods None cs)"

text \<open>
  What a conversion reads: without an \<^verbatim>\<open>l\<close> the low half of a number. The upper half of a number passed in 32 bits
  is not determined.
\<close>

fun read_num :: "bool \<Rightarrow> cnum \<Rightarrow> (int \<times> nat) option" where
  "read_num True (Whole w) = Some (sint w, unat w)"
| "read_num False (Whole w) = (let v = ucast w :: uint in Some (sint v, unat v))"
| "read_num False (Half v) = Some (sint v, unat v)"
| "read_num True (Half v) = None"

fun read_arg :: "bool \<Rightarrow> char \<Rightarrow> carg \<Rightarrow> farg option" where
  "read_arg l c (Str s) = (if c = CHR ''s'' then Some (FStr s) else None)"
| "read_arg l c (Num n) =
     (if c = CHR ''s'' then None
      else map_option (\<lambda>(i, u). if c = CHR ''d'' then FInt i else FUInt u) (read_num l n))"

text \<open>What a call prints, if it is determined.\<close>

definition printed :: "call \<Rightarrow> string option" where
  "printed x =
     Option.bind (call_args (snd x)) (\<lambda>as.
     Option.bind (those (map (\<lambda>((l, c), a). read_arg l c a) (zip (zip (long_mods None (fst x)) (letters (fst x))) as)))
       (printf (fst x)))"

text \<open>
  The call is well-formed, and every conversion of its format has an argument of its kind, a string or a number, and no argument is left over.
\<close>

definition is_str :: "carg \<Rightarrow> bool" where
  "is_str a = (case a of Str s \<Rightarrow> True | Num n \<Rightarrow> False)"

fun suits :: "string \<Rightarrow> carg list \<Rightarrow> bool" where
  "suits [] as = (as = [])"
| "suits (c # cs) as = (case as of [] \<Rightarrow> False | a # as' \<Rightarrow> (c = CHR ''s'') = is_str a \<and> suits cs as')"

definition takes_args :: "call \<Rightarrow> bool" where
  "takes_args x \<longleftrightarrow> (case call_args (snd x) of None \<Rightarrow> False | Some as \<Rightarrow> suits (letters (fst x)) as)"

section \<open>The task\<close>

record mm_struct =
  mm_addr :: ulong
  pgd :: cnum
  mm_users :: cnum
  mm_count :: cnum
  pgtables_bytes :: cnum
  map_count :: cnum
  highest_vm_end :: cnum
  hiwater_rss :: cnum
  hiwater_vm :: cnum
  total_vm :: cnum
  locked_vm :: cnum
  pinned_vm :: cnum
  data_vm :: cnum
  exec_vm :: cnum
  stack_vm :: cnum
  def_flags :: cnum
  env_start :: ulong
  env_end :: ulong
  arg_start :: ulong
  arg_end :: ulong
  start_stack :: ulong
  start_brk :: ulong
  brk :: ulong
  start_data :: ulong
  end_data :: ulong
  start_code :: ulong
  end_code :: ulong

record thread_struct =
  thread_addr :: ulong
  th_sp :: cnum
  th_es :: cnum
  th_ds :: cnum
  th_cr2 :: cnum
  th_trap_nr :: cnum
  th_error_code :: cnum
  th_addr_limit :: ulong
  th_x :: "nat \<Rightarrow> cnum"
  th_fp :: cnum
  th_ctx_sp :: cnum
  th_pc :: cnum
  th_fault_address :: cnum
  th_fault_code :: cnum

record task_struct =
  ts_addr :: ulong
  ts_comm :: string
  ts_tgid :: cnum
  ts_pid :: cnum
  nr_threads :: cnum
  ts_uid :: cnum
  ts_euid :: cnum
  loginuid :: cnum
  ts_state :: ulong
  ts_ti :: "ulong option"
  ti_flags :: cnum
  ti_addr_limit :: ulong
  stack_end :: ulong
  lowest_stack :: cnum
  ts_flags :: cnum
  on_rq :: bool
  prio :: cnum
  static_prio :: cnum
  normal_prio :: cnum
  rt_priority :: cnum
  vruntime :: cnum
  policy :: uint
  nr_cpus_allowed :: cnum
  pcount :: cnum
  run_delay :: cnum
  ts_mm :: "mm_struct option"
  in_execve :: bool
  in_iowait :: bool
  stack_canary :: cnum
  utime :: cnum
  stime :: cnum
  nvcsw :: cnum
  nivcsw :: cnum
  min_flt :: cnum
  maj_flt :: cnum
  lockdep_depth :: cnum
  io_read :: cnum
  io_write :: cnum
  io_cancelled :: cnum
  io_syscr :: cnum
  io_syscw :: cnum
  acct_rss_mem1 :: ulong
  acct_vm_mem1 :: ulong
  psi_flags :: cnum
  ts_thread :: thread_struct

text \<open>The constants of the kernel headers that the two \<^verbatim>\<open>switch\<close> statements name.\<close>

record kconsts =
  TASK_RUNNING :: ulong
  TASK_INTERRUPTIBLE :: ulong
  TASK_UNINTERRUPTIBLE :: ulong
  TASK_STOPPED :: ulong
  TASK_TRACED :: ulong
  TASK_PARKED :: ulong
  TASK_DEAD :: ulong
  TASK_WAKEKILL :: ulong
  TASK_WAKING :: ulong
  TASK_NOLOAD :: ulong
  TASK_NEW :: ulong
  SCHED_NORMAL :: uint
  SCHED_FIFO :: uint
  SCHED_RR :: uint
  SCHED_BATCH :: uint
  SCHED_IDLE :: uint
  SCHED_DEADLINE :: uint

section \<open>disp\_task\_details, call by call\<close>

definition ids_format :: string where
  "ids_format =
      ''Task struct @ 0x%lx ::\<newline>'' @
      ''Process/Thread: %16s, TGID %6d, PID %6d\<newline>'' @
      ''# threads: %6d\<newline>'' @
      ''%26sRealUID    : %6d, EffUID : %6d\<newline>'' @
      ''%26slogin UID  : %6d\<newline>''"

definition ids_call :: "task_struct \<Rightarrow> call" where
  "ids_call p =
     (ids_format,
     (Comma # commas [ul (ts_addr p), Str (ts_comm p), Num (ts_tgid p), Num (ts_pid p), Num (nr_threads p),
        Str '' '', Num (ts_uid p), Num (ts_euid p), Str '' '', Num (loginuid p)]))"

definition state_cases :: "kconsts \<Rightarrow> (ulong \<times> string) list" where
  "state_cases k =
     [(TASK_RUNNING k, '' R: ready-to-run (on rq) OR running (on cpu)\<newline>''),
      (TASK_INTERRUPTIBLE k, '' S: interruptible sleep\<newline>''),
      (TASK_UNINTERRUPTIBLE k, '' D: uninterruptible sleep (!)\<newline>''),
      (TASK_STOPPED k, '' T: stopped\<newline>''),
      (TASK_TRACED k, '' t: traced\<newline>''),
      (TASK_PARKED k, '' .: PARKED\<newline>''),
      (TASK_DEAD k, '' X: DEAD\<newline>''),
      (TASK_WAKEKILL k, '' .: WAKEKILL\<newline>''),
      (TASK_WAKING k, '' .: WAKING\<newline>''),
      (TASK_NOLOAD k, '' .: NOLOAD\<newline>''),
      (TASK_NEW k, '' .: NEW\<newline>'')]"

definition state_text :: "kconsts \<Rightarrow> ulong \<Rightarrow> string" where
  "state_text k st = (case map_of (state_cases k) st of Some t \<Rightarrow> t | None \<Rightarrow> '' ? <unknown>\<newline>'')"

text \<open>The local variable \<^verbatim>\<open>state\<close>: an \<^verbatim>\<open>unsigned int\<close> from 5.14 on, a \<^verbatim>\<open>long\<close> before.\<close>

definition state_var :: "config \<Rightarrow> task_struct \<Rightarrow> cnum" where
  "state_var c p = (if LINUX_VERSION_CODE c \<ge> KERNEL_VERSION 5 14 0 then Half (ucast (ts_state p)) else Whole (ts_state p))"

fun num_value :: "cnum \<Rightarrow> ulong" where
  "num_value (Half v) = ucast v"
| "num_value (Whole w) = w"

definition state_calls :: "config \<Rightarrow> kconsts \<Rightarrow> task_struct \<Rightarrow> call list" where
  "state_calls c k p =
     (let st = state_var c p in [(''Task state (%d) : '', [Comma, Arg (Num st)]), (state_text k (num_value st), [])])"

definition thread_info_calls :: "config \<Rightarrow> task_struct \<Rightarrow> call list" where
  "thread_info_calls c p =
     (case ts_ti p of
        None \<Rightarrow> [(''ti invalid!\<newline>'', [])]
      | Some ti \<Rightarrow>
          [(''thread_info (0x%lx) is '' @
              (if THREAD_INFO_IN_TASK c then ''within the task struct itself\<newline>''
               else ''separate (not within the task struct)\<newline>''),
            [Comma, Arg (ul ti)]),
           ('' ti->flags : 0x%x\<newline>'', [Comma, Arg (Num (ti_flags p))])])"

definition sched_text :: "bool \<Rightarrow> bool \<Rightarrow> bool \<Rightarrow> string" where
  "sched_text vmap leak in_task =
      ''stack      : 0x%lx ; vmapped?'' @ (if vmap then '' yes\<newline>'' else '' no\<newline>'') @
      (if leak then ''  (GCC STACKLEAK) lowest stack : 0x%lx\<newline>'' else []) @
      ''task flags : 0x%x\<newline>sched ::\<newline>'' @
      (if in_task then ''  curr CPU    : %3d\<newline>'' else []) @
      ''  on RQ?      : %s\<newline>'' @
      ''  prio        : %3d\<newline>'' @
      ''  static prio : %3d\<newline>'' @
      ''  normal prio : %3d\<newline>'' @
      ''  RT priority : %3d\<newline>'' @
      ''  vruntime    : %llu\<newline>''"

definition sched_format :: "config \<Rightarrow> string" where
  "sched_format c = sched_text (VMAP_STACK c) (STACKLEAK c) (THREAD_INFO_IN_TASK c)"

definition sched_call :: "config \<Rightarrow> cnum \<Rightarrow> task_struct \<Rightarrow> call" where
  "sched_call c cpu p =
     (sched_format c,
     ([Comma, Arg (ul (stack_end p)), Comma] @
      (if STACKLEAK c then [Arg (Num (lowest_stack p)), Comma] else []) @
      [Arg (Num (ts_flags p)), Comma] @
      (if THREAD_INFO_IN_TASK c then [Arg (Num cpu), Comma] else []) @
      commas [yes_no (on_rq p), Num (prio p), Num (static_prio p), Num (normal_prio p), Num (rt_priority p), Num (vruntime p)]))"

definition policy_cases :: "kconsts \<Rightarrow> (uint \<times> string) list" where
  "policy_cases k =
     [(SCHED_NORMAL k, ''Normal/Other''), (SCHED_FIFO k, ''FIFO''), (SCHED_RR k, ''RR''), (SCHED_BATCH k, ''BATCH''),
      (SCHED_IDLE k, ''IDLE''), (SCHED_DEADLINE k, ''DEADLINE'')]"

definition policy_text :: "kconsts \<Rightarrow> uint \<Rightarrow> string" where
  "policy_text k pol = (case map_of (policy_cases k) pol of Some t \<Rightarrow> t | None \<Rightarrow> ''<Unknown>'')"

definition policy_call :: "kconsts \<Rightarrow> task_struct \<Rightarrow> call" where
  "policy_call k p = (''  policy      : %s'', [Comma, Arg (Str (policy_text k (policy p)))])"

definition cpus_format :: "config \<Rightarrow> string" where
  "cpus_format c =
      ''  cpus allowed: %3d\<newline>'' @
      (if SCHED_INFO c then ''  # times run on cpu: %4ld\<newline>  time waiting on RQ: %9llu\<newline>'' else [])"

definition cpus_call :: "config \<Rightarrow> task_struct \<Rightarrow> call" where
  "cpus_call c p =
     (cpus_format c,
     ([Comma, Arg (Num (nr_cpus_allowed p))] @
      (if SCHED_INFO c then Comma # commas [Num (pcount p), Num (run_delay p)] else [])))"

definition mm_info_text :: "bool \<Rightarrow> bool \<Rightarrow> string" where
  "mm_info_text mmu old =
      '' PGD base addr : 0x%lx\<newline> mm_users = %d, mm_count = %d\<newline>'' @
      (if mmu then '' PTE page table pages = %ld bytes\<newline>'' else []) @
      '' # of VMAs                                  =  %9d\<newline>'' @
      (if old then '' Highest VMA end address                    = 0x%lx\<newline>'' else []) @
      '' High-watermark of RSS usage                = %9lu pages\<newline>'' @
      '' High-water virtual memory usage            = %9lu pages\<newline>'' @
      '' Total pages mapped                         = %9lu pages\<newline>'' @
      '' Pages that have PG_mlocked set             = %9lu pages\<newline>'' @
      '' Refcount permanently increased             = %9lu pages\<newline>'' @
      '' data_vm: VM_WRITE & ~VM_SHARED & ~VM_STACK = %9lu pages\<newline>'' @
      '' exec_vm:   VM_EXEC & ~VM_WRITE & ~VM_STACK = %9lu pages\<newline>'' @
      '' stack_vm:                         VM_STACK = %9lu pages\<newline>'' @
      '' def_flags                                  = 0x%x\<newline>''"

definition mm_info_format :: "config \<Rightarrow> string" where
  "mm_info_format c = mm_info_text (MMU c) (LINUX_VERSION_CODE c < KERNEL_VERSION 6 1 0)"

definition mm_info_call :: "config \<Rightarrow> mm_struct \<Rightarrow> call" where
  "mm_info_call c m =
     (mm_info_format c,
     (Comma # commas [Num (pgd m), Num (mm_users m), Num (mm_count m)] @ [Comma] @
      (if MMU c then [Arg (Num (pgtables_bytes m)), Comma] else []) @
      [Arg (Num (map_count m)), Comma] @
      (if LINUX_VERSION_CODE c < KERNEL_VERSION 6 1 0 then [Arg (Num (highest_vm_end m)), Comma] else []) @
      commas [Num (hiwater_rss m), Num (hiwater_vm m), Num (total_vm m), Num (locked_vm m), Num (pinned_vm m),
        Num (data_vm m), Num (exec_vm m), Num (stack_vm m), Num (def_flags m)]))"

definition mappings_format :: string where
  "mappings_format =
      ''mm userspace mappings (high to low) ::\<newline>'' @
      '' env        : 0x%lx - 0x%lx  [%6u bytes]\<newline>'' @
      '' args       : 0x%lx - 0x%lx  [%6u bytes]\<newline>'' @
      '' start stack: 0x%lx\<newline>'' @
      '' heap       : 0x%lx - 0x%lx  [%6u KB, %6u MB]\<newline>'' @
      '' data       : 0x%lx - 0x%lx  [%6u KB, %6u MB]\<newline>'' @
      '' code       : 0x%lx - 0x%lx  [%6u KB, %6u MB]\<newline>''"

text \<open>The user mappings. The code range is printed with the end of the data segment.\<close>

definition mappings_call :: "mm_struct \<Rightarrow> call" where
  "mappings_call m =
     (mappings_format,
     (Comma # commas
       [ul (env_start m), ul (env_end m), ul (env_end m - env_start m),
        ul (arg_start m), ul (arg_end m), ul (arg_end m - arg_start m),
        ul (start_stack m),
        ul (start_brk m), ul (brk m), ul ((brk m - start_brk m) div 1024), ul ((brk m - start_brk m) div (1024 * 1024)),
        ul (start_data m), ul (end_data m), ul ((end_data m - start_data m) div 1024), ul ((end_data m - start_data m) div (1024 * 1024)),
        ul (start_code m), ul (end_data m), ul ((end_data m - start_code m) div 1024), ul ((end_data m - start_code m) div (1024 * 1024))]))"

definition mm_calls :: "config \<Rightarrow> ulong \<Rightarrow> task_struct \<Rightarrow> call list" where
  "mm_calls c sp_el1 p =
     (case ts_mm p of
        Some m \<Rightarrow>
          [(''mm info ::\<newline> not a kernel thread; mm_struct   : 0x%lx\<newline>'', [Comma, Arg (ul (mm_addr m))]),
           mm_info_call c m, mappings_call m] @
          (if ARM64 c then [('' arm64: sp_el1 = 0x%lx\<newline>'', [Comma, Arg (ul sp_el1)])] else [])
      | None \<Rightarrow> [(''is a kernel thread (mm NUL)\<newline>'', [])])"

definition acct_text :: "bool \<Rightarrow> bool \<Rightarrow> bool \<Rightarrow> bool \<Rightarrow> bool \<Rightarrow> string" where
  "acct_text canary lockdep io xacct psi =
      ''in execve()? %s\<newline>'' @
      ''in iowait  ? %s\<newline>'' @
      (if canary then ''stack canary  : 0x%lx\<newline>'' else []) @
      ''utime, stime  : %llu, %llu\<newline>'' @
      ''# vol c/s, # invol c/s : %6lu, %6lu\<newline>'' @
      ''# minor, major faults  : %6lu, %6lu\<newline>'' @
      (if lockdep then ''lockdep depth : %d\<newline>'' else []) @
      (if io then ''task I/O accounting ::\<newline>'' @
      '' read bytes               : %7llu\<newline>'' @
      '' written (or will) bytes  : %7llu\<newline>'' @
      '' cancelled write bytes    : %7llu\<newline>'' else []) @
      (if xacct then '' # read syscalls          : %7llu\<newline>'' @
      '' # write syscalls         : %7llu\<newline>'' @
      '' accumulated RSS usage    : %9llu (%6llu KB)\<newline>'' @
      '' accumulated  VM usage    : %9llu (%6llu KB)\<newline>'' else []) @
      (if psi then ''pressure stall state flags: 0x%lx\<newline>'' else [])"

definition acct_format :: "config \<Rightarrow> string" where
  "acct_format c = acct_text True (LOCKDEP c) (TASK_IO_ACCOUNTING c) (TASK_XACCT c) (PSI c)"

definition acct_call :: "config \<Rightarrow> task_struct \<Rightarrow> call" where
  "acct_call c p =
     (acct_format c,
      Comma # commas [yes_no (in_execve p), yes_no (in_iowait p)] @
      [Comma, member_arg (STACKPROTECTOR c) (Num (stack_canary p)), Comma] @
      commas [Num (utime p), Num (stime p), Num (nvcsw p), Num (nivcsw p), Num (min_flt p), Num (maj_flt p)] @ [Comma] @
      (if LOCKDEP c then [Arg (Num (lockdep_depth p)), Comma] else []) @
      (if TASK_IO_ACCOUNTING c then commas [Num (io_read p), Num (io_write p), Num (io_cancelled p)] @ [Comma] else []) @
      (if TASK_XACCT c then commas [Num (io_syscr p), Num (io_syscw p), ul (acct_rss_mem1 p), ul (acct_rss_mem1 p div 1024),
         ul (acct_vm_mem1 p), ul (acct_vm_mem1 p div 1024)] else []) @
      (if PSI c then [Comma, Arg (Num (psi_flags p))] else []))"

definition hw_text :: "bool \<Rightarrow> bool \<Rightarrow> bool \<Rightarrow> bool \<Rightarrow> string" where
  "hw_text x86 arm old auth =
     ''Hardware ctx info location is thread struct: 0x%lx\<newline>'' @
     (if x86 then ''X86_64 ::\<newline>'' @
      '' thrd info: 0x%lx\<newline>'' @
      ''  sp  : 0x%lx\<newline>'' @
      ''  es  : 0x%x, ds  : 0x%x\<newline>'' @
      ''  cr2 : 0x%lx, trap #  : 0x%lx, error code  :  0x%lx\<newline>'' @
        (if old
         then ''  mm: addr limit (user boundary) : 0x%lx (%lu GB, %lu TB)\<newline>'' else []) else []) @
     (if arm then ''ARM64 ::\<newline> thrd info: 0x%lx\<newline>'' @
        (if old then ''  addr limit : 0x%lx (%u MB, %u GB)\<newline>'' else []) @
        '' Saved registers ::\<newline>'' @
      ''  X19 = 0x%lx  X20 = 0x%lx   X21 = 0x%lx\<newline>'' @
      ''  X22 = 0x%lx  X23 = 0x%lx   X24 = 0x%lx\<newline>'' @
      ''  X25 = 0x%lx  X26 = 0x%lx   X27 = 0x%lx\<newline>'' @
      ''  X28 = 0x%lx\<newline>'' @
      ''   FP = 0x%lx   SP = 0x%lx    PC = 0x%lx\<newline>'' @
      ''  fault_address  : 0x%lx, fault code (ESR_EL1): 0x%lx\<newline>'' @
      '' arm64 pointer authentication'' @
        (if auth then '' present.\<newline>'' else '' absent.\<newline>'') else [])"

definition hw_format :: "config \<Rightarrow> string" where
  "hw_format c = hw_text (X86_64 c) (ARM64 c) (LINUX_VERSION_CODE c < KERNEL_VERSION 5 10 0) (ARM64_PTR_AUTH c)"

text \<open>The commas are where the source has them.\<close>

definition hw_tokens :: "config \<Rightarrow> task_struct \<Rightarrow> tok list" where
  "hw_tokens c p =
     (let t = ts_thread p; ti = (case ts_ti p of None \<Rightarrow> 0 | Some a \<Rightarrow> a); seg = th_addr_limit t; old = LINUX_VERSION_CODE c < KERNEL_VERSION 5 10 0
      in [Comma, Arg (ul (thread_addr t))] @
         (if X86_64 c then
            Comma # commas [ul ti, Num (th_sp t), Num (th_es t), Num (th_ds t), Num (th_cr2 t), Num (th_trap_nr t), Num (th_error_code t)] @
            (if old then Comma # commas [ul seg, ul (seg div (1024 * 1024)), ul (seg div (1024 * 1024 * 1024))] @ [Comma] else [])
          else []) @
         (if ARM64 c then
            [Arg (ul ti)] @
            (if old then Comma # commas [ul (ti_addr_limit p), ul (ti_addr_limit p div (1024 * 1024)),
               ul (ti_addr_limit p div (1024 * 1024 * 1024))] @ [Comma] else []) @
            commas (map (\<lambda>i. Num (th_x t i)) [19..<29] @ [Num (th_fp t), Num (th_ctx_sp t), Num (th_pc t), Num (th_fault_address t), Num (th_fault_code t)])
          else []))"

definition hw_call :: "config \<Rightarrow> task_struct \<Rightarrow> call" where
  "hw_call c p = (hw_format c, hw_tokens c p)"

text \<open>All the calls in order, between \<^verbatim>\<open>task_lock\<close> and \<^verbatim>\<open>task_unlock\<close>.\<close>

definition disp_task_details :: "config \<Rightarrow> kconsts \<Rightarrow> cnum \<Rightarrow> ulong \<Rightarrow> task_struct \<Rightarrow> call list" where
  "disp_task_details c k cpu sp_el1 p =
     [ids_call p] @ state_calls c k p @ thread_info_calls c p @ [sched_call c cpu p, policy_call k p, cpus_call c p] @
     mm_calls c sp_el1 p @ [acct_call c p, hw_call c p]"

text \<open>
  The entry point: the parameter \<^verbatim>\<open>pid\<close>, and \<^verbatim>\<open>pid_task(find_vpid(pid), PIDTYPE_PID)\<close> as a
  parameter.
\<close>

definition taskdtl_init ::
  "config \<Rightarrow> kconsts \<Rightarrow> cnum \<Rightarrow> ulong \<Rightarrow> (uint \<Rightarrow> task_struct option) \<Rightarrow> uint \<Rightarrow> int \<times> call list" where
  "taskdtl_init c k cpu sp_el1 find_task pid =
     (if pid = 0 then
        (- EINVAL, [(''%s: pl pass a valid PID as parameter to this kernel module\<newline>'', [Comma, Arg (Str ''taskdtl'')])])
      else case find_task pid of
        None \<Rightarrow>
          (- EINVAL, [(''%s: failed to obtain task struct pointer for PID %d\<newline>'',
             Comma # commas [Str ''taskdtl'', Num (Half pid)])])
      | Some tp \<Rightarrow> (0, disp_task_details c k cpu sp_el1 tp))"

definition taskdtl_exit :: call where
  "taskdtl_exit = (''%s: exiting now\<newline>'', [Comma, Arg (Str ''taskdtl'')])"

text \<open>A task and a configuration to try the properties on.\<close>

definition demo_thread :: thread_struct where
  "demo_thread = \<lparr>thread_addr = 0, th_sp = Whole 0, th_es = Half 0, th_ds = Half 0, th_cr2 = Whole 0, th_trap_nr = Whole 0, th_error_code = Whole 0, 
     th_addr_limit = 0, th_x = (\<lambda>_. Whole 0), th_fp = Whole 0, th_ctx_sp = Whole 0, th_pc = Whole 0, 
     th_fault_address = Whole 0, th_fault_code = Whole 0\<rparr>"

definition demo_task :: task_struct where
  "demo_task = \<lparr>ts_addr = 0, ts_comm = ''init'', ts_tgid = Half 0, ts_pid = Half 0, nr_threads = Half 0, ts_uid = Half 0, ts_euid = Half 0, 
     loginuid = Half 0, ts_state = 0, ts_ti = Some 0, ti_flags = Whole 0, ti_addr_limit = 0, stack_end = 0, 
     lowest_stack = Whole 0, ts_flags = Half 0, on_rq = False, prio = Half 0, static_prio = Half 0, normal_prio = Half 0, 
     rt_priority = Half 0, vruntime = Whole 0, policy = 0, nr_cpus_allowed = Half 0, pcount = Whole 0, run_delay = Whole 0, 
     ts_mm = None, in_execve = False, in_iowait = False, stack_canary = Whole 0, utime = Whole 0, stime = Whole 0, 
     nvcsw = Whole 0, nivcsw = Whole 0, min_flt = Whole 0, maj_flt = Whole 0, lockdep_depth = Half 0, io_read = Whole 0, io_write = Whole 0, 
     io_cancelled = Whole 0, io_syscr = Whole 0, io_syscw = Whole 0, acct_rss_mem1 = 0, acct_vm_mem1 = 0, psi_flags = Half 0, 
     ts_thread = demo_thread\<rparr>"

definition demo_config :: config where
  "demo_config = \<lparr>X86_64 = True, ARM64 = False, THREAD_INFO_IN_TASK = True, VMAP_STACK = True, STACKLEAK = False,
      SCHED_INFO = True, MMU = True, LOCKDEP = False, TASK_IO_ACCOUNTING = True, TASK_XACCT = True, PSI = True, STACKPROTECTOR = True,
      ARM64_PTR_AUTH = False, LINUX_VERSION_CODE = KERNEL_VERSION 6 1 25\<rparr>"

definition demo_consts :: kconsts where
  "demo_consts = \<lparr>TASK_RUNNING = 0, TASK_INTERRUPTIBLE = 1, TASK_UNINTERRUPTIBLE = 2, TASK_STOPPED = 4, TASK_TRACED = 8,
      TASK_PARKED = 64, TASK_DEAD = 128, TASK_WAKEKILL = 256, TASK_WAKING = 512, TASK_NOLOAD = 1024, TASK_NEW = 2048,
      SCHED_NORMAL = 0, SCHED_FIFO = 1, SCHED_RR = 2, SCHED_BATCH = 3, SCHED_IDLE = 5, SCHED_DEADLINE = 6\<rparr>"

section \<open>Every format suits its arguments\<close>

lemma call_args_commas: "as \<noteq> [] \<Longrightarrow> call_args (Comma # commas as @ ts) = map_option (\<lambda>r. as @ r) (call_args ts)"
  by (induction as rule: commas.induct) (cases "call_args ts"; auto)+

lemma call_args_commas_end [simp]: "as \<noteq> [] \<Longrightarrow> call_args (Comma # commas as) = Some as"
  using call_args_commas [of as "[]"] by simp

lemma takes_argsI: "call_args ts = Some as \<Longrightarrow> suits (letters f) as \<Longrightarrow> takes_args (f, ts)"
  by (simp add: takes_args_def)

lemma rejected_args: "call_args ts = None \<Longrightarrow> \<not> takes_args (f, ts)"
  by (simp add: takes_args_def)

lemma is_str_simps [simp]: "is_str (Str s)" "\<not> is_str (Num n)" "\<not> is_str (ul w)" "is_str (yes_no b)"
  by (simp_all add: is_str_def ul_def yes_no_def)

lemma ids_letters: "letters ids_format = ''xsdddsddsd''"
  by code_simp

lemma ids_takes: "takes_args (ids_call p)"
  unfolding ids_call_def by (rule takes_argsI, simp, simp add: ids_letters)

lemma sched_letters: "letters (sched_text v l i) = ''x'' @ (if l then ''x'' else []) @ ''x'' @ (if i then ''d'' else []) @ ''sddddu''"
proof -
  have "\<forall>v l i. letters (sched_text v l i) = ''x'' @ (if l then ''x'' else []) @ ''x'' @ (if i then ''d'' else []) @ ''sddddu''"
    by code_simp
  then show ?thesis by blast
qed

lemma sched_takes: "takes_args (sched_call c cpu p)"
  unfolding sched_call_def sched_format_def
  by (cases "STACKLEAK c"; cases "THREAD_INFO_IN_TASK c") (rule takes_argsI, simp, simp add: sched_letters)+

lemma cpus_takes: "takes_args (cpus_call c p)"
proof -
  have "letters (cpus_format c) = ''d'' @ (if SCHED_INFO c then ''du'' else [])"
    unfolding cpus_format_def by (cases "SCHED_INFO c"; (simp only: if_True if_False); code_simp)
  then show ?thesis
    unfolding cpus_call_def by (cases "SCHED_INFO c") (rule takes_argsI, simp, simp)+
qed

lemma mm_info_letters: "letters (mm_info_text mmu old) = ''xdd'' @ (if mmu then ''d'' else []) @ ''d'' @ (if old then ''x'' else []) @ ''uuuuuuuux''"
proof -
  have "\<forall>mmu old. letters (mm_info_text mmu old) = ''xdd'' @ (if mmu then ''d'' else []) @ ''d'' @ (if old then ''x'' else []) @ ''uuuuuuuux''"
    by code_simp
  then show ?thesis by blast
qed

lemma mm_info_takes: "takes_args (mm_info_call c m)"
  unfolding mm_info_call_def mm_info_format_def
  by (cases "MMU c"; cases "LINUX_VERSION_CODE c < KERNEL_VERSION 6 1 0") (rule takes_argsI, simp, simp add: mm_info_letters)+

lemma mappings_letters: "letters mappings_format = ''xxuxxuxxxuuxxuuxxuu''"
  by code_simp

lemma mappings_takes: "takes_args (mappings_call m)"
  unfolding mappings_call_def by (rule takes_argsI, simp, simp add: mappings_letters)

lemma small_letters:
  "letters ''Task state (%d) : '' = ''d''" "letters ''ti invalid!\<newline>'' = []" "letters '' ti->flags : 0x%x\<newline>'' = ''x''"
  "letters ''  policy      : %s'' = ''s''"
  "letters ''mm info ::\<newline> not a kernel thread; mm_struct   : 0x%lx\<newline>'' = ''x''"
  "letters '' arm64: sp_el1 = 0x%lx\<newline>'' = ''x''" "letters ''is a kernel thread (mm NUL)\<newline>'' = []"
  "letters (''thread_info (0x%lx) is '' @ ''within the task struct itself\<newline>'') = ''x''"
  "letters (''thread_info (0x%lx) is '' @ ''separate (not within the task struct)\<newline>'') = ''x''"
  by code_simp+

lemma policy_takes: "takes_args (policy_call k p)"
  unfolding policy_call_def by (rule takes_argsI) (simp, simp only: small_letters, simp)

lemma thread_info_takes: "x \<in> set (thread_info_calls c p) \<Longrightarrow> takes_args x"
proof -
  have "takes_args (''ti invalid!\<newline>'', [])" "takes_args ('' ti->flags : 0x%x\<newline>'', [Comma, Arg (Num n)])" for n
    by (rule takes_argsI, simp, simp only: small_letters, simp)+
  moreover have "takes_args (''thread_info (0x%lx) is '' @ (if b then ''within the task struct itself\<newline>''
      else ''separate (not within the task struct)\<newline>''), [Comma, Arg (ul w)])" for b w
    by (cases b; (simp only: if_True if_False)?; rule takes_argsI, simp, simp only: small_letters, simp)
  ultimately show "x \<in> set (thread_info_calls c p) \<Longrightarrow> takes_args x"
    by (auto simp only: thread_info_calls_def list.set split: option.splits)
qed

text \<open>The texts of the states contain no conversion.\<close>

lemma state_takes: "x \<in> set (state_calls c k p) \<Longrightarrow> takes_args x"
proof -
  have "\<forall>t \<in> set ('' ? <unknown>\<newline>'' # map snd (state_cases \<lparr>TASK_RUNNING = 0, TASK_INTERRUPTIBLE = 0, TASK_UNINTERRUPTIBLE = 0,
      TASK_STOPPED = 0, TASK_TRACED = 0, TASK_PARKED = 0, TASK_DEAD = 0, TASK_WAKEKILL = 0, TASK_WAKING = 0, TASK_NOLOAD = 0,
      TASK_NEW = 0, SCHED_NORMAL = 0, SCHED_FIFO = 0, SCHED_RR = 0, SCHED_BATCH = 0, SCHED_IDLE = 0, SCHED_DEADLINE = 0\<rparr>)).
      letters t = []"
    by code_simp
  moreover have "map snd (state_cases k) = map snd (state_cases k')" for k k' by (simp add: state_cases_def)
  ultimately have f: "\<forall>t \<in> set ('' ? <unknown>\<newline>'' # map snd (state_cases k)). letters t = []" by metis
  have m: "state_text k st \<in> set ('' ? <unknown>\<newline>'' # map snd (state_cases k))" for st
    by (auto simp: state_text_def split: option.split dest!: map_of_SomeD intro!: image_eqI [of _ snd])
  have "takes_args (state_text k st, [])" for st
    by (rule takes_argsI [of _ "[]"]) (simp_all only: call_args.simps suits.simps bspec [OF f m])
  moreover have "takes_args (''Task state (%d) : '', [Comma, Arg (Num n)])" for n
    by (rule takes_argsI) (simp, simp only: small_letters, simp)
  ultimately show "x \<in> set (state_calls c k p) \<Longrightarrow> takes_args x" by (auto simp only: state_calls_def Let_def list.set)
qed

lemma mm_takes: "x \<in> set (mm_calls c sp_el1 p) \<Longrightarrow> takes_args x"
proof -
  have "takes_args (''mm info ::\<newline> not a kernel thread; mm_struct   : 0x%lx\<newline>'', [Comma, Arg (ul w)])"
    "takes_args ('' arm64: sp_el1 = 0x%lx\<newline>'', [Comma, Arg (ul w)])" "takes_args (''is a kernel thread (mm NUL)\<newline>'', [])" for w
    by (rule takes_argsI, simp, simp only: small_letters, simp)+
  then show "x \<in> set (mm_calls c sp_el1 p) \<Longrightarrow> takes_args x"
    using mm_info_takes mappings_takes by (auto simp only: mm_calls_def list.set set_append split: option.splits if_splits)
qed

text \<open>The accounting call is well-formed C only with \<^verbatim>\<open>CONFIG_TASK_XACCT\<close>, and on a kernel that has stack canaries.\<close>

lemma acct_letters: "letters (acct_text cn lk io True ps) = ''ss'' @ (if cn then ''x'' else []) @ ''uuuuuu'' @ (if lk then ''d'' else []) @
    (if io then ''uuu'' else []) @ ''uuuuuu'' @ (if ps then ''x'' else [])"
proof -
  have "\<forall>cn lk io ps. letters (acct_text cn lk io True ps) = ''ss'' @ (if cn then ''x'' else []) @ ''uuuuuu'' @ (if lk then ''d'' else []) @
    (if io then ''uuu'' else []) @ ''uuuuuu'' @ (if ps then ''x'' else [])"
    by code_simp
  then show ?thesis by blast
qed

lemma acct_takes: "takes_args (acct_call c p) \<longleftrightarrow> TASK_XACCT c \<and> STACKPROTECTOR c"
proof (cases "TASK_XACCT c \<and> STACKPROTECTOR c")
  case True
  then have "takes_args (acct_call c p)"
    unfolding acct_call_def acct_format_def member_arg_def
    by (cases "LOCKDEP c"; cases "TASK_IO_ACCOUNTING c"; cases "PSI c") (rule takes_argsI, simp, simp add: acct_letters)+
  with True show ?thesis by simp
next
  case False
  then show ?thesis
    unfolding acct_call_def member_arg_def
    by (cases "LOCKDEP c"; cases "TASK_IO_ACCOUNTING c"; cases "PSI c"; cases "TASK_XACCT c"; cases "STACKPROTECTOR c")
      (simp_all add: takes_args_def)
qed

text \<open>The hardware call is well-formed C except on ARM64 and on x86-64 before 5.10.\<close>

lemma hw_takes:
  assumes "\<not> (X86_64 c \<and> ARM64 c)"
  shows "takes_args (hw_call c p) \<longleftrightarrow> \<not> ARM64 c \<and> (X86_64 c \<longrightarrow> KERNEL_VERSION 5 10 0 \<le> LINUX_VERSION_CODE c)"
proof (cases "\<not> ARM64 c \<and> (X86_64 c \<longrightarrow> KERNEL_VERSION 5 10 0 \<le> LINUX_VERSION_CODE c)")
  case True
  have "\<forall>x86 old auth. (x86 \<longrightarrow> \<not> old) \<longrightarrow> letters (hw_text x86 False old auth) = ''x'' @ (if x86 then ''xxxxxxx'' else [])"
    by code_simp
  from this [rule_format, of "X86_64 c" "LINUX_VERSION_CODE c < KERNEL_VERSION 5 10 0" "ARM64_PTR_AUTH c"] True
  have "takes_args (hw_call c p)"
    unfolding hw_call_def hw_format_def hw_tokens_def Let_def
    by (cases "X86_64 c") (rule takes_argsI, simp, simp)+
  with True show ?thesis by simp
next
  case False
  then have "call_args (hw_tokens c p) = None"
    using assms unfolding hw_tokens_def
    by (cases "X86_64 c"; cases "ARM64 c"; cases "LINUX_VERSION_CODE c < KERNEL_VERSION 5 10 0") (simp_all add: Let_def)
  with False show ?thesis by (simp add: hw_call_def rejected_args)
qed

lemma calls_take_args:
  assumes "x \<in> set (disp_task_details c k cpu sp_el1 p)"
  shows "takes_args x \<or> x = acct_call c p \<or> x = hw_call c p"
  using assms ids_takes sched_takes cpus_takes policy_takes state_takes [of x c k p] thread_info_takes [of x c p] mm_takes [of x c sp_el1 p]
  by (auto simp: disp_task_details_def)

text \<open>Only the memory calls look at the memory descriptor.\<close>

lemma only_mm:
  fixes p :: task_struct
  shows "ids_call (p\<lparr>ts_mm := x\<rparr>) = ids_call p" "state_calls c k (p\<lparr>ts_mm := x\<rparr>) = state_calls c k p"
    "sched_call c cpu (p\<lparr>ts_mm := x\<rparr>) = sched_call c cpu p"
    "policy_call k (p\<lparr>ts_mm := x\<rparr>) = policy_call k p" "cpus_call c (p\<lparr>ts_mm := x\<rparr>) = cpus_call c p"
    "acct_call c (p\<lparr>ts_mm := x\<rparr>) = acct_call c p" "hw_call c (p\<lparr>ts_mm := x\<rparr>) = hw_call c p"
  by (cases p, simp only: ids_call_def state_calls_def state_var_def sched_call_def policy_call_def cpus_call_def acct_call_def
      hw_call_def hw_tokens_def task_struct.simps)+

lemma thread_info_only_ti: "thread_info_calls c (p\<lparr>ts_mm := x\<rparr>) = thread_info_calls c p" for p :: task_struct
  by (cases "ts_ti p") (simp_all add: thread_info_calls_def split del: if_split)

section \<open>Properties\<close>

text \<open>
  C30: every call of the module is well-formed and its format has one conversion of the right kind, for a string or a number, per argument, precisely when task accounting
  (\<^verbatim>\<open>CONFIG_TASK_XACCT\<close>) and stack canaries (\<^verbatim>\<open>CONFIG_STACKPROTECTOR\<close>) are on, the machine is not ARM64, and on x86-64 the kernel is 5.10 or newer;
  otherwise a stray or missing comma, or the member \<^verbatim>\<open>stack_canary\<close> that is not declared, makes a \<^verbatim>\<open>pr_info\<close> call ill-formed. All
  other members are taken to be declared, and the kernel to be LP64; nothing is assumed of how wide the members are.
\<close>

theorem disp_task_details_builds:
  assumes "\<not> (X86_64 c \<and> ARM64 c)"
  shows "list_all takes_args (disp_task_details c k cpu sp_el1 p) \<longleftrightarrow>
   TASK_XACCT c \<and> STACKPROTECTOR c \<and> \<not> ARM64 c \<and> (X86_64 c \<longrightarrow> KERNEL_VERSION 5 10 0 \<le> LINUX_VERSION_CODE c)"
proof -
  have "acct_call c p \<in> set (disp_task_details c k cpu sp_el1 p)" "hw_call c p \<in> set (disp_task_details c k cpu sp_el1 p)"
    by (simp_all add: disp_task_details_def)
  then show ?thesis
    using calls_take_args [of _ c k cpu sp_el1 p] acct_takes [of c p] hw_takes [OF assms, of p] unfolding list_all_iff by metis
qed

theorem disp_task_details_builds_witness:
  "list_all takes_args (disp_task_details demo_config demo_consts (Half 0) 0 demo_task) \<and>
   \<not> list_all takes_args (disp_task_details (demo_config\<lparr>TASK_XACCT := False\<rparr>) demo_consts (Half 0) 0 demo_task)"
proof
  have v: "KERNEL_VERSION 5 10 0 \<le> KERNEL_VERSION 6 1 25" by (simp add: KERNEL_VERSION_def)
  show "list_all takes_args (disp_task_details demo_config demo_consts (Half 0) 0 demo_task)"
    by (subst disp_task_details_builds) (use v in \<open>simp_all add: demo_config_def\<close>)
  show "\<not> list_all takes_args (disp_task_details (demo_config\<lparr>TASK_XACCT := False\<rparr>) demo_consts (Half 0) 0 demo_task)"
    by (subst disp_task_details_builds) (simp_all add: demo_config_def)
qed

text \<open>
  A format can name the wrong width: the flags of the thread, an \<^verbatim>\<open>unsigned long\<close>, are printed with \<^verbatim>\<open>%x\<close>, so
  their upper half is lost; and a number passed in 32 bits to a conversion with an \<^verbatim>\<open>l\<close> is not determined.
\<close>

lemma width_matters:
  "printed ('' ti->flags : 0x%x\<newline>'', [Comma, Arg (ul w)]) = printed ('' ti->flags : 0x%x\<newline>'', [Comma, Arg (Num (Half (ucast w)))])"
  "printed (''pressure stall state flags: 0x%lx\<newline>'', [Comma, Arg (Num (Half v))]) = None"
proof -
  have "long_mods None '' ti->flags : 0x%x\<newline>'' = [False]" "letters '' ti->flags : 0x%x\<newline>'' = ''x''"
    "long_mods None ''pressure stall state flags: 0x%lx\<newline>'' = [True]" "letters ''pressure stall state flags: 0x%lx\<newline>'' = ''x''"
    by code_simp+
  then show "printed ('' ti->flags : 0x%x\<newline>'', [Comma, Arg (ul w)]) = printed ('' ti->flags : 0x%x\<newline>'', [Comma, Arg (Num (Half (ucast w)))])"
    "printed (''pressure stall state flags: 0x%lx\<newline>'', [Comma, Arg (Num (Half v))]) = None"
    by (simp_all only: printed_def fst_conv snd_conv) (simp_all add: ul_def Let_def)
qed

text \<open>
  As long as the header's constants are distinct, each task state and each scheduling policy
  the module names is shown with its own text.
\<close>

theorem state_and_policy_named:
  assumes "distinct (map fst (state_cases k))" and "distinct (map fst (policy_cases k))"
  shows "(\<forall>(v, t) \<in> set (state_cases k). state_text k v = t) \<and> (\<forall>(v, t) \<in> set (policy_cases k). policy_text k v = t)"
  using assms by (auto simp: state_text_def policy_text_def map_of_is_SomeI)

theorem state_and_policy_named_witness:
  "state_text demo_consts 8 = '' t: traced\<newline>'' \<and> policy_text demo_consts 2 = ''RR''"
proof -
  have "distinct (map fst (state_cases demo_consts))" "distinct (map fst (policy_cases demo_consts))"
    by (simp_all add: state_cases_def policy_cases_def demo_consts_def)
  from state_and_policy_named [OF this] show ?thesis by (simp add: state_cases_def policy_cases_def demo_consts_def)
qed

text \<open>
  The range the module labels as the code segment does not depend on where the code ends:
  nothing it prints does.
\<close>

theorem code_end_not_shown:
  "disp_task_details c k cpu sp_el1 (p\<lparr>ts_mm := Some (m\<lparr>end_code := x\<rparr>)\<rparr>) =
   disp_task_details c k cpu sp_el1 (p\<lparr>ts_mm := Some m\<rparr>)"
  unfolding disp_task_details_def by (simp add: only_mm thread_info_only_ti mm_calls_def mm_info_call_def mappings_call_def)

end
