(* ===== verification/Kernel_Seg.thy ===== *)
theory Kernel_Seg
  imports Convenient
begin

text \<open>
  \<^verbatim>\<open>mm/vm_show_kernel_seg/vm_show_kernel_seg.c\<close>: the module that fills two blocks of kernel memory
  with patterns and prints the layout of the kernel and of the current process. The kernel's
  constants, the answers of \<^verbatim>\<open>kzalloc\<close> and \<^verbatim>\<open>vmalloc\<close>, the hashing of \<^verbatim>\<open>%pK\<close>, \<^verbatim>\<open>print_hex_dump_bytes\<close> and
  \<^verbatim>\<open>dump_stack\<close> are parameters; the fills, the error paths, what stays allocated, and every format
  with its arguments are modelled, for 32-bit and 64-bit kernels.
\<close>

section \<open>Configuration and environment\<close>

type_synonym byte = "8 word"

record seg_config =
  w64 :: bool
  x86 :: bool
  arm :: bool
  arm64 :: bool
  mips :: bool
  ppc :: bool
  big_endian :: bool
  kasan :: bool





text \<open>A line of the log: a \<^verbatim>\<open>pr_info\<close> or \<^verbatim>\<open>pr_alert\<close> call, or text another part of the kernel prints.\<close>

datatype line = Pr string "farg list" | Other string

primrec line_text :: "line \<Rightarrow> string" where
  "line_text (Pr f as) = emit f as"
| "line_text (Other s) = s"

section \<open>Formats\<close>



definition long_bits :: "bool \<Rightarrow> nat" where
  "long_bits w = (if w then 64 else 32)"

definition ptr_size :: "bool \<Rightarrow> nat" where
  "ptr_size w = long_bits w div 8"




section \<open>Stack and patterns\<close>



definition gPattern1 :: "byte list" where
  "gPattern1 = [0xde, 0xad, 0xfa, 0xce, 0xde, 0xad, 0xfa, 0xce]"

definition gPattern2 :: "byte list" where
  "gPattern2 = [0x88, 0x99, 0xaa, 0xbb, 0xcc, 0xdd, 0xee, 0xff]"

text \<open>\<^verbatim>\<open>memcpy\<close> of \<open>n\<close> bytes of the pattern to offset \<open>off\<close> of the block.\<close>

definition memcpy_at :: "nat \<Rightarrow> byte list \<Rightarrow> nat \<Rightarrow> byte list \<Rightarrow> fault + byte list" where
  "memcpy_at off src n buf =
     (if n \<le> length src \<and> off + n \<le> length buf
      then Inr (take off buf @ take n src @ drop (off + n) buf) else Inl (OutOfBounds (off + n)))"

text \<open>
  The loop counts in pointer sizes (\<^verbatim>\<open>sizeof(u64 *)\<close>), which is what each round copies. The \<^verbatim>\<open>int\<close> length is a natural
  number: the two calls pass 512 and the page size.
\<close>

function mempattern_from :: "nat \<Rightarrow> nat \<Rightarrow> byte list \<Rightarrow> byte list \<Rightarrow> nat \<Rightarrow> fault + byte list" where
  "mempattern_from i ws pdest pattern len =
     (if i < len div ws then
        (case memcpy_at (i * ws) pattern ws pdest of
           Inl e \<Rightarrow> Inl e
         | Inr pdest' \<Rightarrow> mempattern_from (Suc i) ws pdest' pattern len)
      else Inr pdest)"
  by pat_completeness auto
termination
  by (relation "measure (\<lambda>(i, ws, d, p, len). len div ws - i)") auto

declare mempattern_from.simps [simp del]

definition mempattern :: "bool \<Rightarrow> byte list \<Rightarrow> byte list \<Rightarrow> nat \<Rightarrow> fault + byte list" where
  "mempattern w pdest pattern len = mempattern_from 0 (ptr_size w) pdest pattern len"

section \<open>Loading the module\<close>











section \<open>Unloading it\<close>




section \<open>The fill\<close>

lemma ptr_size_simps [simp]: "ptr_size True = 8" "ptr_size False = 4"
  by (simp_all add: ptr_size_def long_bits_def)

lemma ptr_size_pos [simp]: "0 < ptr_size w"
  by (cases w) simp_all

text \<open>\<open>i\<close> rounds have filled the first \<open>i * ws\<close> bytes.\<close>

definition filled :: "nat \<Rightarrow> nat \<Rightarrow> byte list \<Rightarrow> byte list \<Rightarrow> byte list" where
  "filled i ws pattern buf = concat (replicate i (take ws pattern)) @ drop (i * ws) buf"

lemma length_filled: "ws \<le> length pattern \<Longrightarrow> i * ws \<le> length buf \<Longrightarrow> length (filled i ws pattern buf) = length buf"
  by (simp add: filled_def length_concat sum_list_replicate)

lemma memcpy_filled:
  assumes "ws \<le> length pattern" and "Suc i * ws \<le> length buf"
  shows "memcpy_at (i * ws) pattern ws (filled i ws pattern buf) = Inr (filled (Suc i) ws pattern buf)"
proof -
  have len: "length (concat (replicate i (take ws pattern))) = i * ws"
    using assms(1) by (simp add: length_concat sum_list_replicate)
  have "concat (replicate (Suc i) (take ws pattern)) = concat (replicate i (take ws pattern)) @ take ws pattern"
    by (simp add: replicate_append_same [symmetric])
  moreover have "length (filled i ws pattern buf) = length buf"
    using assms by (intro length_filled) auto
  ultimately show ?thesis using assms len
    by (simp add: memcpy_at_def filled_def add.commute)
qed

lemma mempattern_from_eq:
  assumes "ws \<le> length pattern" and "len \<le> length buf" and "i \<le> len div ws"
  shows "mempattern_from i ws (filled i ws pattern buf) pattern len = Inr (filled (len div ws) ws pattern buf)"
  using assms(3)
proof (induction "len div ws - i" arbitrary: i)
  case 0
  then show ?case by (subst mempattern_from.simps) auto
next
  case (Suc n)
  then have "Suc i \<le> len div ws" by simp
  moreover from this have "Suc i * ws \<le> len"
    by (metis div_times_less_eq_dividend le_trans mult_le_mono1)
  ultimately show ?case
    using Suc.hyps(1) [of "Suc i"] Suc.hyps(2) memcpy_filled [OF assms(1), of i buf] assms(2)
    by (subst mempattern_from.simps) (simp del: mult_Suc)
qed

lemma mempattern_eq:
  assumes "ptr_size w \<le> length pattern" and "len \<le> length buf"
  shows "mempattern w buf pattern len = Inr (filled (len div ptr_size w) (ptr_size w) pattern buf)"
  using mempattern_from_eq [OF assms, of 0] by (simp add: mempattern_def filled_def)

lemma pattern_lengths [simp]: "length gPattern1 = 8" "length gPattern2 = 8" "ptr_size w \<le> 8"
  by (simp_all add: gPattern1_def gPattern2_def ptr_size_def long_bits_def)

lemma filled_nth:
  assumes "ws \<le> length pattern" and "n * ws \<le> length buf" and "i < length buf"
  shows "filled n ws pattern buf ! i = (if i < n * ws then pattern ! (i mod ws) else buf ! i)"
proof -
  have len: "length (concat (replicate n (take ws pattern))) = n * ws"
    using assms(1) by (simp add: length_concat sum_list_replicate)
  have "concat (replicate n (take ws pattern)) ! i = pattern ! (i mod ws)" if "i < n * ws" for n i
    using that
  proof (induction n arbitrary: i)
    case (Suc n)
    show ?case
    proof (cases "i < ws")
      case False
      with Suc.prems have "i - ws < n * ws" by simp
      with Suc.IH [of "i - ws"] False assms(1) show ?thesis by (simp add: nth_append le_mod_geq)
    qed (use assms(1) in \<open>simp add: nth_append\<close>)
  qed simp
  then show ?thesis unfolding filled_def using len assms by (auto simp: nth_append)
qed

lemma rounded_le: "n \<le> m \<Longrightarrow> n div ws * ws \<le> (m :: nat)"
  using div_times_less_eq_dividend le_trans by blast

section \<open>Every format takes the arguments passed\<close>

definition well_formed :: "line \<Rightarrow> bool" where
  "well_formed l = (case l of Pr f as \<Rightarrow> printf f as \<noteq> None | Other s \<Rightarrow> True)"

lemma well_formed_Other [simp]: "well_formed (Other s)"
  by (simp add: well_formed_def)



lemma plain_lines [simp]:
  "well_formed (Pr ''Platform:\<newline>'' [])" "well_formed (Pr '' x86_64 : '' [])" "well_formed (Pr '' x86-32 : '' [])"
  "well_formed (Pr '' ARM-32 : '' [])" "well_formed (Pr '' ARM64 : '' [])" "well_formed (Pr '' MIPS : '' [])"
  "well_formed (Pr '' PPC : '' [])" "well_formed (Pr '' 64-bit OS '' [])" "well_formed (Pr '' 32-bit OS '' [])"
  "well_formed (Pr '' Big-endian.\<newline>'' [])" "well_formed (Pr '' Little-endian.\<newline>'' [])" "well_formed (Pr ''\<newline>'' [])"
  "well_formed (Pr ''kzalloc failed!\<newline>'' [])" "well_formed (Pr ''vmalloc failed!\<newline>'' [])" "well_formed (Pr ''Done.\<newline>'' [])"
  "well_formed (Pr ''---------------------Stack Dump:-------------------------------\<newline>'' [])"
  "well_formed (Pr ''---------------------------------------------------------------\<newline>'' [])"
  by code_simp+







section \<open>Properties\<close>

text \<open>
  C36: \<^verbatim>\<open>mempattern\<close> terminates, writes whole copies of the pattern (of pointer size) over the first
  \<^verbatim>\<open>len\<close> bytes rounded down to a multiple of that size, leaves the rest of the block as it was, and
  stays inside the block whenever \<^verbatim>\<open>len\<close> does.
\<close>

theorem mempattern_fills:
  assumes "ptr_size w \<le> length pattern" and "len \<le> length pdest"
  shows "\<exists>buf. mempattern w pdest pattern len = Inr buf \<and> length buf = length pdest \<and>
     (\<forall>i < length pdest. buf ! i =
        (if i < len div ptr_size w * ptr_size w then pattern ! (i mod ptr_size w) else pdest ! i))"
proof -
  have "len div ptr_size w * ptr_size w \<le> length pdest" using assms(2) by (rule rounded_le)
  then show ?thesis
    using mempattern_eq [OF assms] length_filled [OF assms(1)] filled_nth [OF assms(1)] by auto
qed

theorem mempattern_fills_witness:
  "\<exists>buf. mempattern True (replicate 20 0) gPattern1 20 = Inr buf \<and> length buf = 20 \<and> buf ! 15 = 0xce \<and> buf ! 16 = 0"
proof -
  have "ptr_size True \<le> length gPattern1" "20 \<le> length (replicate 20 (0 :: byte))" by simp_all
  from mempattern_fills [OF this] obtain buf where b: "mempattern True (replicate 20 0) gPattern1 20 = Inr buf"
      "length buf = 20" "\<forall>i < 20. buf ! i = (if i < 16 then gPattern1 ! (i mod 8) else replicate 20 0 ! i)"
    by auto
  from b(3) have "buf ! 15 = 0xce" "buf ! 16 = 0" by (simp_all add: gPattern1_def)
  with b show ?thesis by blast
qed






end
