(* ===== verification/Task_Display.thy ===== *)
theory Task_Display
  imports Task_Details
begin

text \<open>
  \<^verbatim>\<open>taskdtl/taskdtl_display.c\<close>: the library version of the task printer, linked into other modules.
  It checks that the task is alive, prints under the task lock, and differs from the module of
  \<open>Task_Details\<close> in several of its calls; the calls that are the same text are shared. Three members that the
  module asks for under a version test only (\<^verbatim>\<open>state\<close>, \<^verbatim>\<open>highest_vm_end\<close>, \<^verbatim>\<open>addr_limit\<close>) are named here for every kernel.
\<close>

section \<open>What it prints\<close>

text \<open>The task, with the members only this version looks at.\<close>

record shown_task =
  sh_task :: task_struct
  sh_alive :: bool
  sh_stack :: ulong
  sh_cpu :: cnum

datatype display = Task_lock | Task_unlock | Line "call"

definition banner_call :: "task_struct \<Rightarrow> call" where
  "banner_call p = (''\<newline><--------------- %16s : %7d ------------------>\<newline>'',
     Comma # commas [Str (ts_comm p), Num (ts_pid p)])"

definition owner_format :: string where
  "owner_format =
      ''Task struct @ 0x%lx ::\<newline>'' @
      ''Process/Thread: %16s, TGID %6d, PID %6d\<newline>'' @
      ''%26sRealUID    : %6d, EffUID : %6d\<newline>'' @
      ''%26slogin UID  : %6d\<newline>''"

text \<open>\<^verbatim>\<open>task_uid\<close> and \<^verbatim>\<open>task_euid\<close> are structures with one integer member.\<close>

definition owner_call :: "task_struct \<Rightarrow> call" where
  "owner_call p = (owner_format,
     (Comma # commas [ul (ts_addr p), Str (ts_comm p), Num (ts_tgid p), Num (ts_pid p),
        Str '' '', Num (ts_uid p), Num (ts_euid p), Str '' '', Num (loginuid p)]))"

text \<open>The member \<^verbatim>\<open>state\<close> was renamed in 5.14.\<close>

definition shown_state_calls :: "config \<Rightarrow> kconsts \<Rightarrow> task_struct \<Rightarrow> call list" where
  "shown_state_calls c k p =
     [(''Task state (%d) : '', [Comma, member_arg (LINUX_VERSION_CODE c < KERNEL_VERSION 5 14 0) (ul (ts_state p))]),
      (state_text k (ts_state p), [])]"

definition where_thread_info :: "config \<Rightarrow> task_struct \<Rightarrow> call" where
  "where_thread_info c p =
     (case ts_ti p of
        None \<Rightarrow> (''ti invalid!\<newline>'', [])
      | Some ti \<Rightarrow>
          (''thread_info (0x%lx) is '' @
             (if THREAD_INFO_IN_TASK c then ''within the task struct itself\<newline>''
              else ''separate (not within the task struct)\<newline>''),
            [Comma, Arg (ul ti)]))"

definition stack_text :: "bool \<Rightarrow> bool \<Rightarrow> bool \<Rightarrow> string" where
  "stack_text vmap leak in_task =
      ''# threads  : %7d\<newline>'' @
      ''stack      : 0x%lx ; vmapped?'' @ (if vmap then '' yes\<newline>'' else '' no\<newline>'') @
      (if leak then ''  (GCC STACKLEAK) lowest stack : 0x%lx\<newline>'' else []) @
      ''flags : 0x%x\<newline>sched ::\<newline>'' @
      (if in_task then ''  curr CPU    : %3d\<newline>'' else []) @
      ''  on RQ?      : %s\<newline>'' @
      ''  prio        : %3d\<newline>'' @
      ''  static prio : %3d\<newline>'' @
      ''  normal prio : %3d\<newline>'' @
      ''  RT priority : %3d\<newline>'' @
      ''  vruntime    : %llu\<newline>''"

definition stack_call :: "config \<Rightarrow> shown_task \<Rightarrow> call" where
  "stack_call c t = (let p = sh_task t in
     (stack_text (VMAP_STACK c) (STACKLEAK c) (THREAD_INFO_IN_TASK c),
     ([Comma, Arg (Num (nr_threads p)), Comma, Arg (ul (sh_stack t)), Comma] @
      (if STACKLEAK c then [Arg (Num (lowest_stack p)), Comma] else []) @
      [Arg (Num (ts_flags p)), Comma] @
      (if THREAD_INFO_IN_TASK c then [Arg (Num (sh_cpu t)), Comma] else []) @
      commas [yes_no (on_rq p), Num (prio p), Num (static_prio p), Num (normal_prio p), Num (rt_priority p), Num (vruntime p)])))"

text \<open>The highest mapped address is asked for whatever the kernel's version; kernels have it up to 6.0.\<close>

definition mm_usage_call :: "config \<Rightarrow> mm_struct \<Rightarrow> call" where
  "mm_usage_call c m =
     (mm_info_text (MMU c) True,
     (Comma # commas [Num (pgd m), Num (mm_users m), Num (mm_count m)] @ [Comma] @
      (if MMU c then [Arg (Num (pgtables_bytes m)), Comma] else []) @
      [Arg (Num (map_count m)), Comma, member_arg (LINUX_VERSION_CODE c < KERNEL_VERSION 6 1 0) (Num (highest_vm_end m)), Comma] @
      commas [Num (hiwater_rss m), Num (hiwater_vm m), Num (total_vm m), Num (locked_vm m), Num (pinned_vm m),
        Num (data_vm m), Num (exec_vm m), Num (stack_vm m), Num (def_flags m)]))"

definition user_mappings_format :: string where
  "user_mappings_format =
      ''mm userspace mapings (high to low) ::\<newline>'' @
      '' env        : 0x%lx - 0x%lx  [%6u bytes]\<newline>'' @
      '' args       : 0x%lx - 0x%lx  [%6u bytes]\<newline>'' @
      '' start stack: 0x%lx\<newline>'' @
      '' heap       : 0x%lx - 0x%lx  [%6u KB, %6u MB]\<newline>'' @
      '' data       : 0x%lx - 0x%lx  [%6u KB, %6u MB]\<newline>'' @
      '' code       : 0x%lx - 0x%lx  [%6u KB, %6u MB]\<newline>''"

text \<open>Here too the code range is printed with the end of the data segment.\<close>

definition user_mappings_call :: "mm_struct \<Rightarrow> call" where
  "user_mappings_call m = (user_mappings_format, snd (mappings_call m))"

definition memory_calls :: "config \<Rightarrow> ulong \<Rightarrow> task_struct \<Rightarrow> call list" where
  "memory_calls c sp_el1 p =
     (case ts_mm p of
        Some m \<Rightarrow>
          [(''mm info ::\<newline> not a kernel thread; mm_struct   : 0x%lx\<newline>'', [Comma, Arg (ul (mm_addr m))]),
           mm_usage_call c m, user_mappings_call m] @
          (if ARM64 c then [('' arm64: sp_el1 = 0x%lx\<newline>'', [Comma, Arg (ul sp_el1)])] else [])
      | None \<Rightarrow> [(''is a kernel thread (mm NULL)\<newline>'', [])])"

text \<open>The stack canary is asked for only if there is one.\<close>

definition usage_call :: "config \<Rightarrow> task_struct \<Rightarrow> call" where
  "usage_call c p =
     (acct_text (STACKPROTECTOR c) (LOCKDEP c) (TASK_IO_ACCOUNTING c) (TASK_XACCT c) (PSI c),
     (Comma # commas [yes_no (in_execve p), yes_no (in_iowait p)] @ [Comma] @
      (if STACKPROTECTOR c then [Arg (Num (stack_canary p)), Comma] else []) @
      commas [Num (utime p), Num (stime p), Num (nvcsw p), Num (nivcsw p), Num (min_flt p), Num (maj_flt p)] @ [Comma] @
      (if LOCKDEP c then [Arg (Num (lockdep_depth p)), Comma] else []) @
      (if TASK_IO_ACCOUNTING c then commas [Num (io_read p), Num (io_write p), Num (io_cancelled p)] @ [Comma] else []) @
      (if TASK_XACCT c then commas [Num (io_syscr p), Num (io_syscw p), ul (acct_rss_mem1 p), ul (acct_rss_mem1 p div 1024),
         ul (acct_vm_mem1 p), ul (acct_vm_mem1 p div 1024)] else []) @
      (if PSI c then [Comma, Arg (Num (psi_flags p))] else [])))"

definition context_text :: "bool \<Rightarrow> bool \<Rightarrow> bool \<Rightarrow> string" where
  "context_text x86 arm auth =
     ''Hardware ctx info location is thread struct: 0x%lx\<newline>'' @
     (if x86 then ''X86_64 ::\<newline>'' @
      '' thrd info: 0x%lx\<newline>'' @
      ''  sp  : 0x%lx\<newline>'' @
      ''  es  : 0x%x, ds  : 0x%x\<newline>'' @
      ''  cr2 : 0x%lx, trap #  : 0x%lx, error code  :  0x%lx\<newline>'' else []) @
     (if arm then ''ARM64 ::\<newline> thrd info: 0x%lx\<newline>'' @
      ''  addr limit : 0x%lx (%u MB, %u GB)\<newline>'' @
      '' Saved registers ::\<newline>'' @
      ''  X19 = 0x%lx  X20 = 0x%lx   X21 = 0x%lx\<newline>'' @
      ''  X22 = 0x%lx  X23 = 0x%lx   X24 = 0x%lx\<newline>'' @
      ''  X25 = 0x%lx  X26 = 0x%lx   X27 = 0x%lx\<newline>'' @
      ''  X28 = 0x%lx\<newline>'' @
      ''   FP = 0x%lx   SP = 0x%lx    PC = 0x%lx\<newline>'' @
      ''  fault_address  : 0x%lx, fault code (ESR_EL1): 0x%lx\<newline>'' @
      '' arm64 pointer authentication'' @
        (if auth then '' present.\<newline>'' else '' absent.\<newline>'') else [])"

text \<open>The comma after \<^verbatim>\<open>&(p->thread)\<close> is there in every configuration, and so is \<^verbatim>\<open>ti->addr_limit\<close> on ARM64.\<close>

definition context_call :: "config \<Rightarrow> task_struct \<Rightarrow> call" where
  "context_call c p =
     (let t = ts_thread p; ti = (case ts_ti p of None \<Rightarrow> 0 | Some a \<Rightarrow> a); old = LINUX_VERSION_CODE c < KERNEL_VERSION 5 10 0
      in (context_text (X86_64 c) (ARM64 c) (ARM64_PTR_AUTH c),
         [Comma, Arg (ul (thread_addr t)), Comma] @
         (if X86_64 c then
            commas [ul ti, Num (th_sp t), Num (th_es t), Num (th_ds t), Num (th_cr2 t), Num (th_trap_nr t), Num (th_error_code t)]
          else []) @
         (if ARM64 c then
            [Arg (ul ti), Comma, member_arg old (ul (ti_addr_limit p)), Comma, member_arg old (ul (ti_addr_limit p div (1024 * 1024))),
             Comma, member_arg old (ul (ti_addr_limit p div (1024 * 1024 * 1024))), Comma] @
            commas (map (\<lambda>i. Num (th_x t i)) [19..<29] @
               [Num (th_fp t), Num (th_ctx_sp t), Num (th_pc t), Num (th_fault_address t), Num (th_fault_code t)])
          else [])))"

definition detail_calls :: "config \<Rightarrow> kconsts \<Rightarrow> ulong \<Rightarrow> shown_task \<Rightarrow> call list" where
  "detail_calls c k sp_el1 t = (let p = sh_task t in
     [banner_call p, owner_call p] @ shown_state_calls c k p @ [where_thread_info c p, stack_call c t, policy_call k p, cpus_call c p] @
     memory_calls c sp_el1 p @ [usage_call c p, context_call c p])"

definition display_task_details :: "config \<Rightarrow> kconsts \<Rightarrow> ulong \<Rightarrow> shown_task \<Rightarrow> int \<times> display list" where
  "display_task_details c k sp_el1 t =
     (if \<not> sh_alive t then
        (- EINVAL, [Line (''%s(): task not alive? aborting...\<newline>'', [Comma, Arg (Str ''disp_task_details'')])])
      else (0, [Task_lock] @ map Line (detail_calls c k sp_el1 t) @ [Task_unlock]))"

section \<open>Every format suits its arguments\<close>

lemma fixed_calls_take:
  "takes_args (banner_call p)" "takes_args (owner_call p)" "takes_args (user_mappings_call m)"
  "takes_args (''is a kernel thread (mm NULL)\<newline>'', [])"
proof -
  have f: "letters ''\<newline><--------------- %16s : %7d ------------------>\<newline>'' = ''sd''"
    "letters owner_format = ''xsddsddsd''"
    "letters user_mappings_format = ''xxuxxuxxxuuxxuuxxuu''"
    "letters ''is a kernel thread (mm NULL)\<newline>'' = []"
    by code_simp+
  show "takes_args (banner_call p)" unfolding banner_call_def
    by (rule takes_argsI, simp, simp only: f(1), simp)
  show "takes_args (owner_call p)" unfolding owner_call_def
    by (rule takes_argsI, simp, simp add: f(2))
  show "takes_args (user_mappings_call m)" unfolding user_mappings_call_def mappings_call_def snd_conv
    by (rule takes_argsI, simp, simp add: f(3))
  show "takes_args (''is a kernel thread (mm NULL)\<newline>'', [])"
    by (rule takes_argsI, simp, simp only: f(4), simp)
qed

lemma where_takes: "takes_args (where_thread_info c p)"
  using thread_info_takes [of _ c p] by (auto simp: where_thread_info_def thread_info_calls_def split: option.splits)

lemma stack_takes: "takes_args (stack_call c t)"
proof -
  have "\<forall>v l i. letters (stack_text v l i) = ''dx'' @ (if l then ''x'' else []) @ ''x'' @ (if i then ''d'' else []) @ ''sddddu''"
    by code_simp
  from this [rule_format, of "VMAP_STACK c" "STACKLEAK c" "THREAD_INFO_IN_TASK c"] show ?thesis
    unfolding stack_call_def Let_def
    by (cases "STACKLEAK c"; cases "THREAD_INFO_IN_TASK c") (rule takes_argsI, simp, simp)+
qed

lemma mm_usage_takes: "LINUX_VERSION_CODE c < KERNEL_VERSION 6 1 0 \<Longrightarrow> takes_args (mm_usage_call c m)"
  unfolding mm_usage_call_def member_arg_def
  by (cases "MMU c") (rule takes_argsI, simp, simp add: mm_info_letters)+

lemma memory_takes:
  assumes "LINUX_VERSION_CODE c < KERNEL_VERSION 6 1 0" and "x \<in> set (memory_calls c sp_el1 p)"
  shows "takes_args x"
proof -
  have "takes_args (''mm info ::\<newline> not a kernel thread; mm_struct   : 0x%lx\<newline>'', [Comma, Arg (ul w)])"
    "takes_args ('' arm64: sp_el1 = 0x%lx\<newline>'', [Comma, Arg (ul w)])" for w
    by (rule takes_argsI, simp, simp only: small_letters, simp)+
  then show ?thesis
    using assms(2) mm_usage_takes [OF assms(1)] fixed_calls_take(3,4)
    by (auto simp only: memory_calls_def list.set set_append split: option.splits if_splits)
qed

text \<open>The task's state can be asked for only before 5.14.\<close>

lemma shown_state_takes:
  assumes "x \<in> set (shown_state_calls c k p)" and "LINUX_VERSION_CODE c < KERNEL_VERSION 5 14 0"
  shows "takes_args x"
proof -
  have "x \<in> set (state_calls c k p)"
    using assms by (auto simp: shown_state_calls_def state_calls_def state_var_def member_arg_def ul_def)
  then show ?thesis by (rule state_takes)
qed

text \<open>The accounting call again needs \<^verbatim>\<open>CONFIG_TASK_XACCT\<close>.\<close>

lemma usage_takes: "takes_args (usage_call c p) \<longleftrightarrow> TASK_XACCT c"
proof (cases "TASK_XACCT c")
  case True
  then have "takes_args (usage_call c p)"
    unfolding usage_call_def
    by (cases "STACKPROTECTOR c"; cases "LOCKDEP c"; cases "TASK_IO_ACCOUNTING c"; cases "PSI c")
      (rule takes_argsI, simp, simp add: acct_letters)+
  with True show ?thesis by simp
next
  case False
  then show ?thesis
    unfolding usage_call_def
    by (cases "STACKPROTECTOR c"; cases "LOCKDEP c"; cases "TASK_IO_ACCOUNTING c"; cases "PSI c") (simp_all add: takes_args_def)
qed

text \<open>The hardware call needs one of the two architectures, and on ARM64 an old kernel.\<close>

lemma context_takes:
  assumes "\<not> (X86_64 c \<and> ARM64 c)"
  shows "takes_args (context_call c p) \<longleftrightarrow> X86_64 c \<or> ARM64 c \<and> LINUX_VERSION_CODE c < KERNEL_VERSION 5 10 0"
proof (cases "X86_64 c \<or> ARM64 c \<and> LINUX_VERSION_CODE c < KERNEL_VERSION 5 10 0")
  case True
  have f: "\<forall>x86 a. letters (context_text x86 (\<not> x86) a) = (if x86 then replicate 8 (CHR ''x'')
      else ''xxxuu'' @ replicate 15 (CHR ''x''))"
    by code_simp
  have "takes_args (context_call c p)"
    using True assms f [rule_format, of "X86_64 c" "ARM64_PTR_AUTH c"] unfolding context_call_def member_arg_def Let_def
    by (cases "X86_64 c") (rule takes_argsI, simp, simp add: numeral_eq_Suc upt_rec)+
  with True show ?thesis by simp
next
  case False
  then show ?thesis
    by (cases "ARM64 c") (simp_all add: context_call_def member_arg_def takes_args_def Let_def)
qed

lemma details_take:
  assumes "x \<in> set (detail_calls c k sp_el1 t)" and "LINUX_VERSION_CODE c < KERNEL_VERSION 5 14 0"
  shows "takes_args x \<or> x = usage_call c (sh_task t) \<or> x = context_call c (sh_task t)"
proof -
  have "LINUX_VERSION_CODE c < KERNEL_VERSION 6 1 0" using assms(2) by (simp add: KERNEL_VERSION_def)
  with assms show ?thesis
    using fixed_calls_take where_takes stack_takes cpus_takes policy_takes shown_state_takes [of x c k "sh_task t"]
      memory_takes [of c x sp_el1 "sh_task t"]
    by (auto simp: detail_calls_def Let_def)
qed

lemma late_state_rejected:
  assumes "\<not> LINUX_VERSION_CODE c < KERNEL_VERSION 5 14 0"
  shows "\<exists>x \<in> set (detail_calls c k sp_el1 t). \<not> takes_args x"
proof -
  let ?x = "(''Task state (%d) : '', [Comma, member_arg (LINUX_VERSION_CODE c < KERNEL_VERSION 5 14 0) (ul (ts_state (sh_task t)))])"
  have "?x \<in> set (detail_calls c k sp_el1 t)" by (simp add: detail_calls_def shown_state_calls_def Let_def)
  moreover have "\<not> takes_args ?x" using assms by (simp add: takes_args_def member_arg_def)
  ultimately show ?thesis by blast
qed

section \<open>Properties\<close>

text \<open>
  C31: every call the function makes for a live task is well-formed, names only members that the kernel has, and has one
  conversion of the right kind, for a string or a number, per argument, precisely when task accounting
  (\<^verbatim>\<open>CONFIG_TASK_XACCT\<close>) is on, the kernel is older than 5.14, and the machine is x86-64, or ARM64 with a kernel older
  than 5.10. Otherwise a stray comma is left, or \<^verbatim>\<open>p->state\<close> (gone from 5.14) or \<^verbatim>\<open>ti->addr_limit\<close> (gone from 5.10), which the
  module's own file asks for under a version test, is asked for without one. The members that neither file guards are taken
  to be declared, and the kernel to be LP64.
\<close>

theorem display_task_details_builds:
  assumes "\<not> (X86_64 c \<and> ARM64 c)"
  shows "list_all takes_args (detail_calls c k sp_el1 t) \<longleftrightarrow>
     TASK_XACCT c \<and> LINUX_VERSION_CODE c < KERNEL_VERSION 5 14 0 \<and>
     (X86_64 c \<or> ARM64 c \<and> LINUX_VERSION_CODE c < KERNEL_VERSION 5 10 0)"
proof -
  let ?p = "sh_task t"
  have "usage_call c ?p \<in> set (detail_calls c k sp_el1 t)" "context_call c ?p \<in> set (detail_calls c k sp_el1 t)"
    by (simp_all add: detail_calls_def Let_def)
  then show ?thesis
    using details_take [of _ c k sp_el1 t] late_state_rejected [of c k sp_el1 t] usage_takes [of c ?p] context_takes [OF assms, of ?p]
    unfolding list_all_iff by metis
qed

theorem display_task_details_builds_witness:
  "list_all takes_args (detail_calls (demo_config\<lparr>LINUX_VERSION_CODE := KERNEL_VERSION 5 4 0\<rparr>) demo_consts 0
     \<lparr>sh_task = demo_task, sh_alive = True, sh_stack = 0, sh_cpu = Half 1\<rparr>) \<and>
   \<not> list_all takes_args (detail_calls demo_config demo_consts 0
     \<lparr>sh_task = demo_task, sh_alive = True, sh_stack = 0, sh_cpu = Half 1\<rparr>)"
  using display_task_details_builds [of "demo_config\<lparr>LINUX_VERSION_CODE := KERNEL_VERSION 5 4 0\<rparr>" demo_consts 0
      "\<lparr>sh_task = demo_task, sh_alive = True, sh_stack = 0, sh_cpu = Half 1\<rparr>"]
    display_task_details_builds [of demo_config demo_consts 0
      "\<lparr>sh_task = demo_task, sh_alive = True, sh_stack = 0, sh_cpu = Half 1\<rparr>"]
  by (simp add: demo_config_def KERNEL_VERSION_def)

end
