(* ===== verification/Alloc_Tests.thy ===== *)
theory Alloc_Tests
  imports C_Format
begin

text \<open>
  The programs and modules that only exercise an allocator: \<^verbatim>\<open>mm/allocsize_tests\<close> (\<^verbatim>\<open>ksz_test.c\<close> and
  \<^verbatim>\<open>kmalloc_test.c\<close>), \<^verbatim>\<open>mm/slab_custom\<close>, \<^verbatim>\<open>mm/vmallc\<close>, \<^verbatim>\<open>mm/vm_usermode/oom_try\<close>, \<^verbatim>\<open>malloc_brk_test.c\<close> and
  \<^verbatim>\<open>gen_malloc_pgfault.c\<close>. The allocators are parameters, functions from the number of the attempt
  (and the size asked for) to the answer. The theory shows when the loops end and with what, which
  sizes they report, and where an unchecked answer or parameter makes them crash.
\<close>

section \<open>kmalloc in a loop\<close>

text \<open>
  The loop that \<^verbatim>\<open>ksz_test.c\<close> and \<^verbatim>\<open>kmalloc_test.c\<close> share: allocate \<^verbatim>\<open>num\<close> bytes, print a row, free the
  block, add \<^verbatim>\<open>step\<close>. The \<^verbatim>\<open>int\<close> arithmetic of the kernel wraps; \<^verbatim>\<open>kmalloc\<close> takes a \<^verbatim>\<open>size_t\<close>.
\<close>

definition size_t :: "int \<Rightarrow> nat" where
  "size_t n = nat (n mod 2 ^ 64)"

partial_function (option) kmalloc_loop ::
  "(nat \<Rightarrow> nat \<Rightarrow> addr option) \<Rightarrow> (nat \<Rightarrow> addr \<Rightarrow> int \<Rightarrow> fault + string) \<Rightarrow> int \<Rightarrow> nat \<Rightarrow> int \<Rightarrow> string list \<Rightarrow>
   (fault + int \<times> string list) option" where
  "kmalloc_loop kmalloc row step i num log =
     (case kmalloc i (size_t num) of
        None \<Rightarrow> Some (Inr (- ENOMEM, log @ [emit ''kmalloc fail, num=%d\<newline>'' [FInt num]]))
      | Some p \<Rightarrow>
          (case row i p num of
             Inl e \<Rightarrow> Some (Inl e)
           | Inr line \<Rightarrow> kmalloc_loop kmalloc row step (Suc i) (to_int32 (num + step)) (log @ [line])))"

text \<open>
  \<^verbatim>\<open>ksz_test.c\<close>: the row divides by the size asked for, and the processor traps on 0 and on the one
  quotient that does not fit.
\<close>

definition ksz_row :: "(nat \<Rightarrow> addr \<Rightarrow> nat) \<Rightarrow> nat \<Rightarrow> addr \<Rightarrow> int \<Rightarrow> fault + string" where
  "ksz_row ksize i p num =
     (let actual_alloc = to_int32 (int (ksize i p)); waste = to_int32 (actual_alloc - num) in
      if num = 0 \<or> num = -1 \<and> to_int32 (waste * 100) = INT_MIN then Inl DivideByZero
      else Inr (emit ''kmalloc(%7d) : %7d : %7d : %3d%%\<newline>''
             [FInt num, FInt actual_alloc, FInt waste, FInt (to_int32 (to_int32 (waste * 100) sdiv num))]))"

text \<open>The module parameter, unless the caller sets it.\<close>

definition default_stepsz :: int where
  "default_stepsz = 10000"

definition hdr :: string where
  "hdr = ''[1] kmalloc(n)   :[2]actual: wastage : %age\<newline>'' @
         ''      bytes      :   bytes :  [2-1]  : waste\<newline>''"

definition ksz_init ::
  "(nat \<Rightarrow> nat \<Rightarrow> addr option) \<Rightarrow> (nat \<Rightarrow> addr \<Rightarrow> nat) \<Rightarrow> string \<Rightarrow> int \<Rightarrow> int \<Rightarrow> (fault + int \<times> string list) option" where
  "ksz_init kmalloc ksize comm pid stepsz =
     kmalloc_loop kmalloc (ksz_row ksize) stepsz 0 100
       [emit ''context: %s:%d\<newline>'' [FStr comm, FInt pid], emit ''%s'' [FStr hdr]]"

definition ksz_exit :: "string \<Rightarrow> int \<Rightarrow> string list" where
  "ksz_exit comm pid = [emit ''context: %s:%d\<newline>'' [FStr comm, FInt pid], emit ''Goodbye\<newline>'' []]"

text \<open>\<^verbatim>\<open>kmalloc_test.c\<close> prints the size after adding 1000 to it.\<close>

definition kmt_row :: "nat \<Rightarrow> addr \<Rightarrow> int \<Rightarrow> fault + string" where
  "kmt_row i p num = Inr (emit ''kmalloc(%7d) = %p\<newline>'' [FInt (to_int32 (num + 1000)), FUInt p])"

definition kmt_init :: "(nat \<Rightarrow> nat \<Rightarrow> addr option) \<Rightarrow> (fault + int \<times> string list) option" where
  "kmt_init kmalloc = kmalloc_loop kmalloc kmt_row 1000 0 100 []"

definition kmt_exit :: "string list" where
  "kmt_exit = [emit ''Goodbye\<newline>'' []]"

section \<open>slab\_custom.c, vmallc.c\<close>

text \<open>
  What the slab layer answers: the object size of the cache it created (at least the one asked for,
  more when it merges the cache with an existing one) and the object. Kernels before 2.6.39 still
  print the name.
\<close>

record slab_answers =
  cache_create :: "nat option"
  cache_alloc :: "addr option"
  old_kernel :: bool
  hex_dump_text :: string

definition sizeof_MyStruct :: nat where
  "sizeof_MyStruct = 376"

definition slab_msg :: "string \<Rightarrow> string \<Rightarrow> farg list \<Rightarrow> string" where
  "slab_msg func fmt args = emit (''%s:%s(): '' @ fmt) (FStr ''slab_custom'' # FStr func # args)"

text \<open>Neither the cache nor the object is checked before it is used.\<close>

definition mycache_use :: "slab_answers \<Rightarrow> nat option \<Rightarrow> fault + string list" where
  "mycache_use A my_cachep =
     (case my_cachep of
        None \<Rightarrow> Inl NullDeref
      | Some object_size \<Rightarrow>
          (case cache_alloc A of
             None \<Rightarrow> Inl NullDeref
           | Some obj \<Rightarrow>
               Inr [if old_kernel A then slab_msg ''mycache_use'' ''Cache name is %s\<newline>'' [FStr ''slab_custom'']
                    else slab_msg ''mycache_use'' ''[ker ver > 2.6.38 cache name deprecated...]\<newline>'' [],
                    slab_msg ''mycache_use'' ''Cache object size is %u\<newline>'' [FUInt object_size], hex_dump_text A]))"

text \<open>\<^verbatim>\<open>pr_debug\<close> prints nothing in the default build.\<close>

definition init_my_cache :: "slab_answers \<Rightarrow> nat option" where
  "init_my_cache A = map_option (\<lambda>object_size. max object_size sizeof_MyStruct) (cache_create A)"

definition slabsee_init :: "slab_answers \<Rightarrow> fault + int \<times> nat option \<times> string list" where
  "slabsee_init A =
     (let my_cachep = init_my_cache A in
      case mycache_use A my_cachep of
        Inl e \<Rightarrow> Inl e
      | Inr log \<Rightarrow> Inr (0, my_cachep, log @ [slab_msg ''slabsee_init'' ''initialized\<newline>'' []]))"

text \<open>\<^verbatim>\<open>kmem_cache_destroy\<close> takes the null pointer too.\<close>

definition slabsee_exit :: "nat option \<Rightarrow> nat option \<times> string list" where
  "slabsee_exit my_cachep = (None, [slab_msg ''slabsee_exit'' ''removed\<newline>'' []])"

text \<open>\<^verbatim>\<open>vmallc.c\<close>: the answer of \<^verbatim>\<open>vmalloc\<close> is kept, and freed when the module goes; \<^verbatim>\<open>vfree\<close> takes the null pointer too.\<close>

definition vmallc_init :: "(nat \<Rightarrow> addr option) \<Rightarrow> nat \<Rightarrow> int \<times> addr option" where
  "vmallc_init vmalloc page_size = (0, vmalloc (8 * page_size))"

definition vmallc_exit :: "addr option \<Rightarrow> addr list \<times> string list" where
  "vmallc_exit vp = (case vp of None \<Rightarrow> [] | Some p \<Rightarrow> [p], [emit ''%s removed\<newline>'' [FStr ''vmallc'']])"

section \<open>oom-killer-try.c and rdpg\_oom\_try.c\<close>

text \<open>
  What the programs ask of the system: the answer of the \<open>k\<close>-th \<^verbatim>\<open>malloc\<close>, the break, and whether
  the process survives touching its \<open>k\<close>-th block.
\<close>

record oom_world =
  w_malloc :: "nat \<Rightarrow> addr option"
  w_sbrk :: "nat \<Rightarrow> addr"
  w_survives :: "nat \<Rightarrow> bool"
  w_pid :: int
  w_pagesize :: nat

definition step_val :: int where "step_val = 5000"

text \<open>The addresses that are touched, 4000 and 8000 bytes into the block, must lie inside it.\<close>

definition touch_block :: "nat \<Rightarrow> bool \<Rightarrow> fault + bool" where
  "touch_block blk survives = (if blk \<le> 8000 then Inl (OutOfBounds 8000) else Inr survives)"

definition block_line :: "oom_world \<Rightarrow> nat \<Rightarrow> int \<Rightarrow> message" where
  "block_line W k i = Stdout (emit (''%06d'' @ [CHR 0x09] @ ''addr p = %p   break = %p\<newline>'')
     [FInt i, FUInt (case w_malloc W k of None \<Rightarrow> NULL | Some p \<Rightarrow> p), FUInt (w_sbrk W k)])"

definition fail_line :: "string \<Rightarrow> int \<Rightarrow> message" where
  "fail_line prog i = Stderr (emit ''%s: loop #%d: malloc failure.\<newline>'' [FStr prog, FInt i])"

text \<open>The loop of \<^verbatim>\<open>oom-killer-try.c\<close>; the result counts the blocks that were allocated.\<close>

function oom_loop ::
  "oom_world \<Rightarrow> string \<Rightarrow> nat \<Rightarrow> int \<Rightarrow> bool \<Rightarrow> bool \<Rightarrow> nat \<Rightarrow> int \<Rightarrow> message list \<Rightarrow> fault + ending \<times> nat \<times> message list" where
  "oom_loop W prog blk n force verbose k i out =
     (let out1 = out @ (if verbose \<and> i smod step_val = 0 then [block_line W k i] else []) in
      case w_malloc W k of
        None \<Rightarrow> Inr (Exit 0, k, out1 @ [fail_line prog i])
      | Some p \<Rightarrow>
          (case (if force then touch_block blk (w_survives W k) else Inr True) of
             Inl e \<Rightarrow> Inl e
           | Inr alive \<Rightarrow>
               if \<not> alive then Inr (Killed, Suc k, out1)
               else if i + 1 < n then oom_loop W prog blk n force verbose (Suc k) (i + 1) out1
               else Inr (Exit 0, Suc k, out1)))"
  by pat_completeness auto
termination
  by (relation "measure (\<lambda>(W, prog, blk, n, force, verbose, k, i, out). nat (n - i))") auto

declare oom_loop.simps [simp del]

text \<open>
  The loop of \<^verbatim>\<open>rdpg_oom_try.c\<close> only reads from the block; with \<^verbatim>\<open>verbose\<close> the counter is
  incremented in the \<^verbatim>\<open>printf\<close> too.
\<close>

function rdpg_loop ::
  "oom_world \<Rightarrow> string \<Rightarrow> int \<Rightarrow> bool \<Rightarrow> bool \<Rightarrow> nat \<Rightarrow> int \<Rightarrow> message list \<Rightarrow> fault + ending \<times> nat \<times> message list" where
  "rdpg_loop W prog n force verbose k i out =
     (let i1 = (if verbose then i + 1 else i); out1 = out @ (if verbose then [block_line W k i1] else []) in
      case w_malloc W k of
        None \<Rightarrow> Inr (Exit 0, k, out1 @ [fail_line prog i1])
      | Some p \<Rightarrow>
          (case (if force then touch_block 8192 (w_survives W k) else Inr True) of
             Inl e \<Rightarrow> Inl e
           | Inr alive \<Rightarrow>
               (let out2 = out1 @ (if i1 smod step_val = 0 then [Stdout (emit ''%d...\<newline>'' [FInt i1])] else []) in
                if \<not> alive then Inr (Killed, Suc k, out1)
                else if i1 + 1 < n then rdpg_loop W prog n force verbose (Suc k) (i1 + 1) out2
                else Inr (Exit 0, Suc k, out2))))"
  by pat_completeness auto
termination
  by (relation "measure (\<lambda>(W, prog, n, force, verbose, k, i, out). nat (n - i))") (auto split: if_splits)

declare rdpg_loop.simps [simp del]

definition oom_usage :: "string \<Rightarrow> message" where
  "oom_usage prog = Stderr (emit ''Usage: %s alloc-loop-count force-page-fault[0|1] [verbose_flag[0|1]]\<newline>'' [FStr prog])"

definition flag_set :: "string list \<Rightarrow> nat \<Rightarrow> bool" where
  "flag_set argv k = (k < length argv \<and> atoi (argv ! k) = 1)"

definition oom_main :: "oom_world \<Rightarrow> string list \<Rightarrow> fault + ending \<times> nat \<times> message list" where
  "oom_main W argv =
     (if length argv < 3 then Inr (Exit 1, 0, [oom_usage (argv ! 0)])
      else oom_loop W (argv ! 0) (w_pagesize W * 2) (atoi (argv ! 1)) (flag_set argv 2) (flag_set argv 3) 0 0
             [Stdout (emit ''%s: PID %d\<newline>'' [FStr (argv ! 0), FInt (w_pid W)])])"

definition rdpg_main :: "oom_world \<Rightarrow> string list \<Rightarrow> fault + ending \<times> nat \<times> message list" where
  "rdpg_main W argv =
     (if length argv < 3 then Inr (Exit 1, 0, [oom_usage (argv ! 0)])
      else rdpg_loop W (argv ! 0) (atoi (argv ! 1)) (flag_set argv 2) (flag_set argv 3) 0 0
             [Stdout (emit ''%s: PID %d\<newline>'' [FStr (argv ! 0), FInt (w_pid W)])])"

section \<open>malloc\_brk\_test.c, gen\_malloc\_pgfault.c\<close>

text \<open>
  The answers of the five \<^verbatim>\<open>malloc\<close> calls, the break after each, what \<^verbatim>\<open>malloc_stats\<close> prints, and how
  many bytes behind the first block are mapped (the block itself has 8).
\<close>

record brk_world =
  b_malloc :: "nat \<Rightarrow> addr option"
  b_brk :: "nat \<Rightarrow> nat"
  b_stats :: "nat \<Rightarrow> message"
  b_pagesize :: nat
  b_mapped :: nat

definition TRIES :: nat where "TRIES = 5"

text \<open>\<^verbatim>\<open>%d\<close> of the difference of two pointers, and \<^verbatim>\<open>%u\<close> of a \<^verbatim>\<open>size_t\<close>, print the low half.\<close>

definition alloctest :: "brk_world \<Rightarrow> nat \<Rightarrow> nat \<Rightarrow> (addr list \<times> message list) \<Rightarrow> message list + addr list \<times> message list" where
  "alloctest W index num st =
     (case b_malloc W index of
        None \<Rightarrow> Inl (snd st @ [Stdout (emit ''out of memory!\<newline>'' [])])
      | Some p \<Rightarrow>
          Inr ((fst st)[index := p],
               snd st @ [Stdout (emit ''\<newline>%d: malloc'' [FInt (int index)] @
                                 emit ''(%6u) successful. Heap pointer: %8p\<newline>'' [FUInt (num mod 2 ^ 32), FUInt p]),
                         Stdout (emit ''Current break: %8p [delta: %d]\<newline>''
                           [FUInt (b_brk W (Suc index)), FInt (to_int32 (int (b_brk W (Suc index)) - int (b_brk W 0)))]),
                         b_stats W index]))"

text \<open>The store 3000 bytes into the block of 8 bytes works only if that address is mapped.\<close>

definition poke :: "brk_world \<Rightarrow> (addr list \<times> message list) \<Rightarrow> fault + addr list \<times> message list" where
  "poke W st =
     (if b_mapped W \<le> 3000 then Inl (OutOfBounds 3000)
      else Inr (fst st, snd st @ [Stdout (emit ''\<newline>### q=0x%08x. (q+3000) is the mem loc 0x%08x. Mem here is: 0x%08x\<newline>''
             [FUInt (fst st ! 0 mod 2 ^ 32), FUInt ((fst st ! 0 + 3000) mod 2 ^ 32), FUInt 0x61])]))"

text \<open>The remaining calls, in order; \<^verbatim>\<open>out of memory!\<close> exits with 1.\<close>

fun alloctests :: "brk_world \<Rightarrow> (nat \<times> nat) list \<Rightarrow> (addr list \<times> message list) \<Rightarrow> message list + addr list \<times> message list" where
  "alloctests W [] st = Inr st"
| "alloctests W ((index, num) # cs) st =
     (case alloctest W index num st of Inl m \<Rightarrow> Inl m | Inr st' \<Rightarrow> alloctests W cs st')"

text \<open>How the program ends, what it printed, and the blocks it frees at the end.\<close>

definition brk_main :: "brk_world \<Rightarrow> fault + ending \<times> addr list \<times> message list" where
  "brk_main W =
     (case alloctest W 0 8 (replicate TRIES NULL, [Stdout (emit ''Current break: %8p\<newline>'' [FUInt (b_brk W 0)])]) of
        Inl m \<Rightarrow> Inr (Exit 1, [], m)
      | Inr st \<Rightarrow>
          (case poke W st of
             Inl e \<Rightarrow> Inl e
           | Inr st1 \<Rightarrow>
               (case alloctests W [(1, b_pagesize W - 8 - 5), (2, 3), (3, b_brk W 3 - b_brk W 0 + 1000), (4, 200000)] st1 of
                  Inl m \<Rightarrow> Inr (Exit 1, [], m)
                | Inr st2 \<Rightarrow> Inr (Exit 0, fst st2, snd st2))))"

definition pgfault_main :: "string \<Rightarrow> nat \<Rightarrow> addr option \<Rightarrow> fault + ending \<times> message list" where
  "pgfault_main prog pagesize p =
     (case p of
        None \<Rightarrow> Inr (Exit 1, [Stderr (emit ''%s: out of memory!'' [FStr prog])])
      | Some a \<Rightarrow> if pagesize \<le> 200 then Inl (OutOfBounds 200) else Inr (Exit 0, []))"

section \<open>The kmalloc loop\<close>

text \<open>Up to the first attempt that fails, every row is printed.\<close>

lemma kmalloc_loop_rows:
  assumes "\<And>j. j < k \<Longrightarrow> \<exists>p. kmalloc (i + j) (size_t (num + int j * step)) = Some p \<and> row (i + j) p (num + int j * step) = Inr (f j)"
    and "\<And>j. j \<le> k \<Longrightarrow> is_int (num + int j * step)"
  shows "kmalloc_loop kmalloc row step i num log =
    kmalloc_loop kmalloc row step (i + k) (num + int k * step) (log @ map f [0..<k])"
  using assms
proof (induction k arbitrary: i num log f)
  case (Suc k)
  from Suc.prems(1) [of 0] obtain p where "kmalloc i (size_t num) = Some p" "row i p num = Inr (f 0)" by auto
  moreover have "to_int32 (num + step) = num + step" using Suc.prems(2) [of 1] by (intro to_int32_id) simp
  ultimately have "kmalloc_loop kmalloc row step i num log = kmalloc_loop kmalloc row step (Suc i) (num + step) (log @ [f 0])"
    by (subst kmalloc_loop.simps) simp
  also have "\<dots> = kmalloc_loop kmalloc row step (Suc i + k) (num + step + int k * step) ((log @ [f 0]) @ map (\<lambda>j. f (Suc j)) [0..<k])"
    by (rule Suc.IH) (use Suc.prems(1) [of "Suc _"] Suc.prems(2) [of "Suc _"] in \<open>auto simp: algebra_simps\<close>)
  finally have "kmalloc_loop kmalloc row step i num log =
      kmalloc_loop kmalloc row step (i + Suc k) (num + int (Suc k) * step) (log @ (f 0 # map (\<lambda>j. f (Suc j)) [0..<k]))"
    by (simp add: algebra_simps)
  then show ?case by (simp only: map_upt_Suc)
qed simp

lemma kmalloc_loop_fails:
  "kmalloc i (size_t num) = None \<Longrightarrow>
   kmalloc_loop kmalloc row step i num log = Some (Inr (- ENOMEM, log @ [emit ''kmalloc fail, num=%d\<newline>'' [FInt num]]))"
  by (subst kmalloc_loop.simps) simp

lemma size_t_nonneg: "0 \<le> n \<Longrightarrow> n \<le> INT_MAX \<Longrightarrow> size_t n = nat n"
  by (simp add: size_t_def int_limits)

lemma ksz_row_ok: "0 < num \<Longrightarrow> \<exists>l. ksz_row ksize i p num = Inr l"
  by (simp add: ksz_row_def Let_def)

text \<open>An allocator with a limit refuses some attempt, and until then the sizes fit an \<^verbatim>\<open>int\<close>.\<close>

lemma first_refusal:
  assumes lim: "\<forall>i n. lim < n \<longrightarrow> kmalloc i n = None" and "0 < stepsz" and "int lim + stepsz \<le> INT_MAX"
  shows "\<exists>k. kmalloc k (nat (100 + int k * stepsz)) = None \<and>
     (\<forall>j < k. \<exists>p. kmalloc j (nat (100 + int j * stepsz)) = Some p) \<and> (\<forall>j \<le> k. is_int (100 + int j * stepsz))"
proof -
  let ?num = "\<lambda>j. 100 + int j * stepsz"
  have "lim < nat (?num (Suc lim))"
  proof -
    have "int lim < int (Suc lim) * 1" by simp
    also have "\<dots> \<le> int (Suc lim) * stepsz" using assms(2) by (intro mult_left_mono) auto
    finally show ?thesis by linarith
  qed
  then have ex: "kmalloc (Suc lim) (nat (?num (Suc lim))) = None" using lim by blast
  define k where "k = (LEAST k. kmalloc k (nat (?num k)) = None)"
  have k: "kmalloc k (nat (?num k)) = None" unfolding k_def by (rule LeastI [of _ "Suc lim"]) (rule ex)
  have before: "\<exists>p. kmalloc j (nat (?num j)) = Some p" if "j < k" for j
    using not_less_Least [of j] that unfolding k_def by blast
  have small: "?num j \<le> int lim" if "j < k" for j
  proof (rule ccontr)
    assume "\<not> ?thesis"
    then have "lim < nat (?num j)" by linarith
    with lim before [OF that] show False by simp
  qed
  have ints: "is_int (?num j)" if "j \<le> k" for j
  proof (cases j)
    case 0
    then show ?thesis by (simp add: is_int_def int_limits)
  next
    case (Suc i)
    then have "?num j = ?num i + stepsz" by (simp add: algebra_simps)
    moreover have "0 \<le> int j * stepsz" using assms(2) by simp
    ultimately show ?thesis using small [of i] that Suc assms(3) unfolding is_int_def int_limits by linarith
  qed
  with k before show ?thesis by blast
qed

section \<open>The oom loops\<close>

text \<open>
  A run that starts at attempt \<open>k\<close> and may make \<open>c\<close> attempts ends with all of them made, or at the
  first one that finds no memory.
\<close>

definition attempts :: "oom_world \<Rightarrow> nat \<Rightarrow> int \<Rightarrow> nat \<Rightarrow> bool" where
  "attempts W k c m \<longleftrightarrow> k \<le> m \<and> (\<forall>j. k \<le> j \<and> j < m \<longrightarrow> w_malloc W j \<noteq> None) \<and>
     (m = k + nat c \<or> m < k + nat c \<and> w_malloc W m = None)"

lemma attempts_none: "w_malloc W k = None \<Longrightarrow> 0 < c \<Longrightarrow> attempts W k c k"
  by (auto simp: attempts_def)

lemma attempts_last: "w_malloc W k = Some p \<Longrightarrow> attempts W k 1 (Suc k)"
  by (auto simp: attempts_def less_Suc_eq le_less)

lemma attempts_more:
  assumes "w_malloc W k = Some p" and "0 \<le> c" and "attempts W (Suc k) c m" shows "attempts W k (c + 1) m"
proof -
  have "w_malloc W j \<noteq> None" if "k \<le> j" "j < m" for j
    using assms(1,3) that by (cases "j = k") (auto simp: attempts_def)
  moreover have "nat (c + 1) = Suc (nat c)" using assms(2) by simp
  ultimately show ?thesis using assms(3) by (auto simp: attempts_def)
qed

lemma oom_loop_attempts:
  assumes "\<And>j. w_survives W j" and "8000 < blk"
  shows "\<exists>m out'. oom_loop W prog blk n force verbose k i out = Inr (Exit 0, m, out') \<and> attempts W k (max 1 (n - i)) m"
proof (induction "nat (n - i)" arbitrary: k i out rule: less_induct)
  case less
  show ?case
  proof (cases "w_malloc W k")
    case None
    then show ?thesis using attempts_none [of W k "max 1 (n - i)"] by (subst oom_loop.simps) (auto simp: Let_def)
  next
    case (Some p)
    have ok: "(if force then touch_block blk (w_survives W k) else Inr True) = Inr True"
      using assms by (simp add: touch_block_def)
    show ?thesis
    proof (cases "i + 1 < n")
      case True
      let ?out = "out @ (if verbose \<and> i smod step_val = 0 then [block_line W k i] else [])"
      from less [of "i + 1" "Suc k" ?out] True
      obtain m out' where "oom_loop W prog blk n force verbose (Suc k) (i + 1) ?out = Inr (Exit 0, m, out')"
          "attempts W (Suc k) (max 1 (n - (i + 1))) m" by auto
      then show ?thesis using True Some ok attempts_more [OF Some, of "n - (i + 1)" m]
        by (subst oom_loop.simps) (auto simp: Let_def max_def)
    next
      case False
      then have "max 1 (n - i) = 1" by (simp add: max_def)
      with False show ?thesis using Some ok attempts_last [OF Some] by (subst oom_loop.simps) (auto simp: Let_def)
    qed
  qed
qed

lemma rdpg_loop_attempts:
  assumes "\<And>j. w_survives W j"
  shows "\<exists>m out'. rdpg_loop W prog n force verbose k i out = Inr (Exit 0, m, out') \<and>
    attempts W k (max 1 (if verbose then (n - i + 1) div 2 else n - i)) m"
proof (induction "nat (n - i)" arbitrary: k i out rule: less_induct)
  case less
  let ?i = "if verbose then i + 1 else i"
  show ?case
  proof (cases "w_malloc W k")
    case None
    then show ?thesis using attempts_none [of W k "max 1 (if verbose then (n - i + 1) div 2 else n - i)"]
      by (subst rdpg_loop.simps) (auto simp: Let_def)
  next
    case (Some p)
    have ok: "(if force then touch_block 8192 (w_survives W k) else Inr True) = Inr True"
      using assms by (simp add: touch_block_def)
    show ?thesis
    proof (cases "?i + 1 < n")
      case True
      let ?out = "(out @ (if verbose then [block_line W k ?i] else [])) @
        (if ?i smod step_val = 0 then [Stdout (emit ''%d...\<newline>'' [FInt ?i])] else [])"
      let ?c = "max 1 (if verbose then (n - (?i + 1) + 1) div 2 else n - (?i + 1))"
      have c: "?c + 1 = max 1 (if verbose then (n - i + 1) div 2 else n - i)" using True by (auto simp: max_def)
      from True less [of "?i + 1" "Suc k" ?out]
      obtain m out' where "rdpg_loop W prog n force verbose (Suc k) (?i + 1) ?out = Inr (Exit 0, m, out')"
          "attempts W (Suc k) ?c m" by (auto split: if_splits)
      then show ?thesis using True Some ok attempts_more [OF Some, of ?c m] c
        by (subst rdpg_loop.simps) (auto simp: Let_def)
    next
      case False
      then have "max 1 (if verbose then (n - i + 1) div 2 else n - i) = 1" by (auto simp: max_def)
      with False show ?thesis using Some ok attempts_last [OF Some] by (subst rdpg_loop.simps) (auto simp: Let_def)
    qed
  qed
qed

section \<open>Properties\<close>

text \<open>
  With a positive step, on a kernel whose \<^verbatim>\<open>kmalloc\<close> fails above some limit that leaves room for one
  more step below \<^verbatim>\<open>INT_MAX\<close>, the load of \<^verbatim>\<open>ksz_test\<close> always ends, with \<^verbatim>\<open>-ENOMEM\<close> at the first attempt that
  fails: it prints one row for each of the sizes 100, 100 + step, ... before that, and the size that failed.
\<close>

theorem ksz_test_ends:
  assumes lim: "\<forall>i n. lim < n \<longrightarrow> kmalloc i n = None" and "0 < stepsz" and "int lim + stepsz \<le> INT_MAX"
  shows "\<exists>k rows. ksz_init kmalloc ksize comm pid stepsz =
       Some (Inr (- ENOMEM, [emit ''context: %s:%d\<newline>'' [FStr comm, FInt pid], emit ''%s'' [FStr hdr]] @ rows @
                            [emit ''kmalloc fail, num=%d\<newline>'' [FInt (100 + int k * stepsz)]])) \<and>
     length rows = k \<and> kmalloc k (nat (100 + int k * stepsz)) = None \<and>
     (\<forall>j < k. \<exists>p. kmalloc j (nat (100 + int j * stepsz)) = Some p \<and>
        ksz_row ksize j p (100 + int j * stepsz) = Inr (rows ! j))"
proof -
  let ?num = "\<lambda>j. 100 + int j * stepsz"
  obtain k where k: "kmalloc k (nat (?num k)) = None" and before: "\<And>j. j < k \<Longrightarrow> \<exists>p. kmalloc j (nat (?num j)) = Some p"
      and ints: "\<And>j. j \<le> k \<Longrightarrow> is_int (?num j)"
    using first_refusal [OF assms] by blast
  have size: "size_t (?num j) = nat (?num j)" if "j \<le> k" for j
    using ints [OF that] assms(2) by (intro size_t_nonneg) (auto simp: is_int_def)
  have nz: "0 < ?num j" for j
  proof -
    have "0 \<le> int j * stepsz" using assms(2) by simp
    then show ?thesis by linarith
  qed
  have "\<exists>f. \<forall>j < k. \<exists>p. kmalloc j (nat (?num j)) = Some p \<and> ksz_row ksize j p (?num j) = Inr (f j)"
    using before ksz_row_ok [OF nz] by (intro choice) metis
  then obtain f where f: "\<forall>j < k. \<exists>p. kmalloc j (nat (?num j)) = Some p \<and> ksz_row ksize j p (?num j) = Inr (f j)" ..
  let ?h = "[emit ''context: %s:%d\<newline>'' [FStr comm, FInt pid], emit ''%s'' [FStr hdr]]"
  have "ksz_init kmalloc ksize comm pid stepsz = kmalloc_loop kmalloc (ksz_row ksize) stepsz (0 + k) (?num k) (?h @ map f [0..<k])"
    unfolding ksz_init_def by (rule kmalloc_loop_rows) (use f size ints in auto)
  also have "\<dots> = Some (Inr (- ENOMEM, (?h @ map f [0..<k]) @ [emit ''kmalloc fail, num=%d\<newline>'' [FInt (?num k)]]))"
    by (rule kmalloc_loop_fails) (use k size [of k] in simp)
  finally show ?thesis using f k by (intro exI [of _ k] exI [of _ "map f [0..<k]"]) simp
qed

definition demo_kmalloc :: "nat \<Rightarrow> nat \<Rightarrow> addr option" where
  "demo_kmalloc i n = (if n \<le> 4194304 then Some 4096 else None)"

theorem ksz_test_ends_witness:
  "\<exists>k rows. ksz_init demo_kmalloc (\<lambda>i p. 8192) ''insmod'' 42 10000 =
     Some (Inr (- ENOMEM, [emit ''context: %s:%d\<newline>'' [FStr ''insmod'', FInt 42], emit ''%s'' [FStr hdr]] @ rows @
                          [emit ''kmalloc fail, num=%d\<newline>'' [FInt (100 + int k * 10000)]])) \<and> length rows = k"
  using ksz_test_ends [of 4194304 demo_kmalloc 10000 "\<lambda>i p. 8192" "''insmod''" 42]
  by (auto simp: demo_kmalloc_def int_limits)

text \<open>
  The module parameter is not checked. A negative step that divides 100 makes the size reach 0,
  for which \<^verbatim>\<open>kmalloc\<close> returns a non-null pointer, and the load divides by zero.
\<close>

theorem ksz_test_divides_by_zero:
  assumes "stepsz < 0" and "100 mod stepsz = 0" and "\<forall>i n. n \<le> 100 \<longrightarrow> kmalloc i n \<noteq> None"
  shows "ksz_init kmalloc ksize comm pid stepsz = Some (Inl DivideByZero)"
proof -
  define k where "k = nat (100 div - stepsz)"
  have "stepsz dvd 100" using assms(2) by (simp add: dvd_eq_mod_eq_0)
  then have "- stepsz dvd 100" by simp
  then have "100 div - stepsz * - stepsz = 100" by (rule dvd_div_mult_self)
  moreover have "int k = 100 div - stepsz" using assms(1) unfolding k_def by (simp add: pos_imp_zdiv_nonneg_iff)
  ultimately have k: "int k * - stepsz = 100" by simp
  let ?num = "\<lambda>j. 100 + int j * stepsz"
  have pos: "0 < ?num j \<and> ?num j \<le> 100" if "j < k" for j
  proof -
    have "int j * - stepsz < int k * - stepsz" using that assms(1) by (intro mult_strict_right_mono) auto
    moreover have "0 \<le> int j * - stepsz" using assms(1) by (intro mult_nonneg_nonneg) auto
    ultimately show ?thesis using k by linarith
  qed
  have zero: "?num k = 0" using k by simp
  have ints: "is_int (?num j)" if "j \<le> k" for j
    using pos [of j] zero that by (cases "j = k") (auto simp: is_int_def int_limits)
  have size: "size_t (?num j) \<le> 100" if "j \<le> k" for j
    using pos [of j] zero that size_t_nonneg [of "?num j"] by (cases "j = k") (auto simp: size_t_def int_limits)
  have "\<exists>f. \<forall>j < k. \<exists>p. kmalloc j (size_t (?num j)) = Some p \<and> ksz_row ksize j p (?num j) = Inr (f j)"
    using assms(3) size pos ksz_row_ok by (intro choice) (metis less_le_not_le not_None_eq)
  then obtain f where f: "\<forall>j < k. \<exists>p. kmalloc j (size_t (?num j)) = Some p \<and> ksz_row ksize j p (?num j) = Inr (f j)" ..
  obtain p where p: "kmalloc k (size_t 0) = Some p" using assms(3) by (auto simp: size_t_def)
  let ?h = "[emit ''context: %s:%d\<newline>'' [FStr comm, FInt pid], emit ''%s'' [FStr hdr]]"
  have "ksz_init kmalloc ksize comm pid stepsz = kmalloc_loop kmalloc (ksz_row ksize) stepsz (0 + k) (?num k) (?h @ map f [0..<k])"
    unfolding ksz_init_def by (rule kmalloc_loop_rows) (use f ints in auto)
  also have "\<dots> = Some (Inl DivideByZero)" unfolding zero using p by (subst kmalloc_loop.simps) (simp add: ksz_row_def)
  finally show ?thesis .
qed

theorem ksz_test_divides_by_zero_witness:
  "ksz_init demo_kmalloc (\<lambda>i p. 8192) ''insmod'' 42 (-50) = Some (Inl DivideByZero)"
  using ksz_test_divides_by_zero [of "-50" demo_kmalloc "\<lambda>i p. 8192" "''insmod''" 42]
  by (simp add: demo_kmalloc_def)

text \<open>
  As long as the process is not killed, both programs always return 0, also when \<^verbatim>\<open>malloc\<close> fails,
  after having made the attempts the count asks for or stopping at the first that fails. The count is
  taken as at least 1; and with the verbose flag \<^verbatim>\<open>rdpg_oom_try\<close> counts each block twice and makes only
  half of the attempts.
\<close>

theorem oom_programs_stop:
  assumes "\<forall>j. w_survives W j" and "8000 < w_pagesize W * 2" and "3 \<le> length argv"
    and "n = atoi (argv ! 1)"
  shows "\<exists>m out m' out'. oom_main W argv = Inr (Exit 0, m, out) \<and> attempts W 0 (max 1 n) m \<and>
     rdpg_main W argv = Inr (Exit 0, m', out') \<and>
     attempts W 0 (max 1 (if flag_set argv 3 then (n + 1) div 2 else n)) m'"
proof -
  let ?out = "[Stdout (emit ''%s: PID %d\<newline>'' [FStr (argv ! 0), FInt (w_pid W)])]"
  obtain m out where "oom_loop W (argv ! 0) (w_pagesize W * 2) n (flag_set argv 2) (flag_set argv 3) 0 0 ?out = Inr (Exit 0, m, out)"
      "attempts W 0 (max 1 n) m"
    using oom_loop_attempts [of W "w_pagesize W * 2" "argv ! 0" n "flag_set argv 2" "flag_set argv 3" 0 0 ?out] assms(1,2) by auto
  moreover obtain m' out' where "rdpg_loop W (argv ! 0) n (flag_set argv 2) (flag_set argv 3) 0 0 ?out = Inr (Exit 0, m', out')"
      "attempts W 0 (max 1 (if flag_set argv 3 then (n + 1) div 2 else n)) m'"
    using rdpg_loop_attempts [of W "argv ! 0" n "flag_set argv 2" "flag_set argv 3" 0 0 ?out] assms(1)
    by (metis diff_zero)
  ultimately show ?thesis using assms(3,4) by (auto simp: oom_main_def rdpg_main_def)
qed

definition demo_oom :: oom_world where
  "demo_oom = \<lparr>w_malloc = (\<lambda>k. Some (4096 + 8192 * k)), w_sbrk = (\<lambda>k. 4096 + 8192 * Suc k), w_survives = (\<lambda>k. True),
     w_pid = 7, w_pagesize = 4096\<rparr>"

lemma demo_attempts: "attempts demo_oom k c m \<longleftrightarrow> m = k + nat c"
  by (auto simp: attempts_def demo_oom_def)

lemma demo_survives: "w_survives demo_oom j" "w_pagesize demo_oom = 4096"
  by (simp_all add: demo_oom_def)

theorem oom_programs_stop_witness:
  "\<exists>out out'. oom_main demo_oom [''oom'', ''10'', ''1'', ''1''] = Inr (Exit 0, 10, out) \<and>
     rdpg_main demo_oom [''rdpg'', ''10'', ''1'', ''1''] = Inr (Exit 0, 5, out')"
proof -
  have n: "atoi ''10'' = 10" and f: "flag_set [x, ''10'', ''1'', ''1''] 3" for x
    by (code_simp, simp add: flag_set_def, code_simp)
  show ?thesis
    using oom_programs_stop [of demo_oom "[''oom'', ''10'', ''1'', ''1'']" 10]
      oom_programs_stop [of demo_oom "[''rdpg'', ''10'', ''1'', ''1'']" 10] n f
    by (auto simp: demo_attempts demo_survives)
qed

text \<open>The slab module loads only if it gets both its cache and its object; otherwise it oopses.\<close>

lemma slab_init_unchecked:
  "(\<exists>e. slabsee_init A = Inl e) \<longleftrightarrow> cache_create A = None \<or> cache_alloc A = None"
  by (cases "cache_create A"; cases "cache_alloc A") (simp_all add: slabsee_init_def init_my_cache_def mycache_use_def)

text \<open>
  \<^verbatim>\<open>malloc_brk_test\<close> frees exactly the blocks it got, in order, whenever all requests succeed and the
  byte it pokes is mapped.
\<close>

lemma brk_main_frees:
  assumes "\<And>k. k < TRIES \<Longrightarrow> b_malloc W k = Some (f k)" and "3000 < b_mapped W"
  shows "\<exists>out. brk_main W = Inr (Exit 0, map f [0..<TRIES], out)"
proof -
  have "b_malloc W 0 = Some (f 0)" "b_malloc W 1 = Some (f 1)" "b_malloc W 2 = Some (f 2)"
    "b_malloc W 3 = Some (f 3)" "b_malloc W 4 = Some (f 4)" using assms(1) by (simp_all add: TRIES_def)
  moreover have "replicate TRIES NULL = [NULL, NULL, NULL, NULL, NULL]" "[0..<TRIES] = [0, 1, 2, 3, 4]"
    by (simp_all add: TRIES_def numeral_eq_Suc upt_rec)
  ultimately show ?thesis using assms(2) by (simp add: brk_main_def alloctest_def poke_def del: upt_Suc)
qed

end
