(* ===== verification/Vcpu_Check.thy ===== *)
theory Vcpu_Check
  imports Convenient Transitions
begin

text \<open>
  The module \<^verbatim>\<open>vcpu_check/vcpu_check.c\<close>: a kernel timer whose callback \<^verbatim>\<open>ding\<close> looks for threads that
  run as virtual processors and re-arms the timer. The timer layer is a step relation: time
  passes, a pending timer that is due is detached and its callback called, the callback runs and
  returns, and \<^verbatim>\<open>del_timer_sync\<close> detaches the timer only while the callback is not running, as its documentation
  says. Times count ticks since boot without bound: the kernel compares wrapping times by their distance. The
  theory shows what holds in every reachable state, how often the callback runs and that it never stops.
\<close>

section \<open>State\<close>

text \<open>Where the callback stands: not running, called, past its body.\<close>

datatype callback = Idle | Called | Rearmed

record st_ctx =
  jiffies :: nat
  tmr :: "nat option"
  cb :: callback
  data :: int
  inserted :: bool
  kmsgs :: "string list"

text \<open>
  The world of the module: \<^verbatim>\<open>msecs_to_jiffies(exp_ms)\<close>, the flag, and, at each time, the flags of all
  threads and the context in which the callback runs.
\<close>

record vworld =
  period :: nat
  PF_VCPU :: "32 word"
  task_flags :: "nat \<Rightarrow> 32 word list"
  ding_ctx :: "nat \<Rightarrow> kctx"

definition INITIAL_VALUE :: int where "INITIAL_VALUE = 120"

definition exp_ms :: int where "exp_ms = 10"

section \<open>Operations\<close>

definition vc_msg :: "string \<Rightarrow> string \<Rightarrow> farg list \<Rightarrow> string" where
  "vc_msg func fmt args = emit (''%s:%s(): '' @ fmt) (FStr ''vcpu_check'' # FStr func # args)"

definition mod_timer :: "nat \<Rightarrow> st_ctx \<Rightarrow> st_ctx" where
  "mod_timer e s = s\<lparr>tmr := Some e\<rparr>"

text \<open>
  The body of \<^verbatim>\<open>for_each_process_thread\<close>; \<^verbatim>\<open>PRINT_CTX\<close> shows the running context and not the thread
  that is its argument.
\<close>

definition ding_thread :: "vworld \<Rightarrow> nat \<Rightarrow> 32 word \<Rightarrow> string list \<Rightarrow> string list" where
  "ding_thread V now flags log =
     (if and flags (PF_VCPU V) \<noteq> 0
      then log @ [PRINT_CTX (ding_ctx V now) ''ding'', vc_msg ''ding'' ''*** PF_VCPU set ***\<newline>'' []]
      else log)"

definition ding :: "vworld \<Rightarrow> st_ctx \<Rightarrow> st_ctx" where
  "ding V s =
     (let s1 = s\<lparr>kmsgs := fold (ding_thread V (jiffies s)) (task_flags V (jiffies s)) (kmsgs s)\<rparr>
      in mod_timer (jiffies s1 + period V) s1)"

definition timer_simple_init :: "vworld \<Rightarrow> st_ctx \<Rightarrow> int \<times> st_ctx" where
  "timer_simple_init V s =
     (let s1 = s\<lparr>data := INITIAL_VALUE\<rparr>;
          expires = jiffies s1 + period V;
          s2 = s1\<lparr>kmsgs := kmsgs s1 @ [vc_msg ''timer_simple_init'' ''timer set to expire in %ld ms\<newline>'' [FInt exp_ms]]\<rparr>
      in (0, mod_timer expires s2))"

definition del_timer_sync :: "st_ctx \<Rightarrow> st_ctx option" where
  "del_timer_sync s = (if cb s = Idle then Some (s\<lparr>tmr := None\<rparr>) else None)"

text \<open>\<^term>\<open>None\<close> while \<^verbatim>\<open>del_timer_sync\<close> waits for the callback.\<close>

definition timer_simple_exit :: "st_ctx \<Rightarrow> st_ctx option" where
  "timer_simple_exit s =
     map_option (\<lambda>s1. s1\<lparr>kmsgs := kmsgs s1 @ [vc_msg ''timer_simple_exit'' ''removed\<newline>'' []]\<rparr>) (del_timer_sync s)"

section \<open>Steps\<close>

datatype tmr_event = Insmod | Tick | Expire | Ding | Callback_return | Rmmod

inductive vstep :: "vworld \<Rightarrow> st_ctx \<Rightarrow> tmr_event \<Rightarrow> st_ctx \<Rightarrow> bool" for V where
  insmod: "\<not> inserted s \<Longrightarrow> timer_simple_init V s = (0, s') \<Longrightarrow> vstep V s Insmod (s'\<lparr>inserted := True\<rparr>)"
| tick: "vstep V s Tick (s\<lparr>jiffies := Suc (jiffies s)\<rparr>)"
| expire: "tmr s = Some e \<Longrightarrow> e \<le> jiffies s \<Longrightarrow> cb s = Idle \<Longrightarrow> vstep V s Expire (s\<lparr>tmr := None, cb := Called\<rparr>)"
| ding: "cb s = Called \<Longrightarrow> vstep V s Ding ((ding V s)\<lparr>cb := Rearmed\<rparr>)"
| return: "cb s = Rearmed \<Longrightarrow> vstep V s Callback_return (s\<lparr>cb := Idle\<rparr>)"
| rmmod: "inserted s \<Longrightarrow> timer_simple_exit s = Some s' \<Longrightarrow> vstep V s Rmmod (s'\<lparr>inserted := False\<rparr>)"

inductive_cases vstep_cases: "vstep V s ev s'"

text \<open>The steps as a function.\<close>

fun vnext :: "vworld \<Rightarrow> st_ctx \<Rightarrow> tmr_event \<Rightarrow> st_ctx option" where
  "vnext V s Insmod = (if inserted s then None else Some ((snd (timer_simple_init V s))\<lparr>inserted := True\<rparr>))"
| "vnext V s Tick = Some (s\<lparr>jiffies := Suc (jiffies s)\<rparr>)"
| "vnext V s Expire =
     (case tmr s of
        None \<Rightarrow> None
      | Some e \<Rightarrow> if e \<le> jiffies s \<and> cb s = Idle then Some (s\<lparr>tmr := None, cb := Called\<rparr>) else None)"
| "vnext V s Ding = (if cb s = Called then Some ((ding V s)\<lparr>cb := Rearmed\<rparr>) else None)"
| "vnext V s Callback_return = (if cb s = Rearmed then Some (s\<lparr>cb := Idle\<rparr>) else None)"
| "vnext V s Rmmod = (if inserted s then map_option (\<lambda>s'. s'\<lparr>inserted := False\<rparr>) (timer_simple_exit s) else None)"

definition booted :: st_ctx where
  "booted = \<lparr>jiffies = 0, tmr = None, cb = Idle, data = 0, inserted = False, kmsgs = []\<rparr>"

lemma init_returns_0: "timer_simple_init V s = (0, snd (timer_simple_init V s))"
  by (simp add: timer_simple_init_def Let_def)

lemma vnext_iff: "vnext V s ev = Some s' \<longleftrightarrow> vstep V s ev s'"
proof
  show "vnext V s ev = Some s' \<Longrightarrow> vstep V s ev s'"
    by (cases ev) (auto intro: vstep.intros init_returns_0 split: if_splits option.splits)
  show "vstep V s ev s' \<Longrightarrow> vnext V s ev = Some s'"
    by (cases rule: vstep.cases) auto
qed

interpretation vcpu: playable "vstep V" "vnext V" for V
  by unfold_locales (rule vnext_iff)

section \<open>The invariant\<close>

definition timer_inv :: "vworld \<Rightarrow> st_ctx \<Rightarrow> bool" where
  "timer_inv V s \<longleftrightarrow>
     (if inserted s then data s = INITIAL_VALUE \<and> (tmr s = None \<longleftrightarrow> cb s = Called) \<and>
        (\<forall>e. tmr s = Some e \<longrightarrow> e \<le> jiffies s + period V)
      else tmr s = None \<and> cb s = Idle)"

lemmas vstep_defs = ding_def timer_simple_init_def timer_simple_exit_def del_timer_sync_def mod_timer_def

lemma vstep_inv: "vstep V s ev s' \<Longrightarrow> timer_inv V s \<Longrightarrow> timer_inv V s'"
  by (erule vstep_cases) (auto simp: timer_inv_def vstep_defs Let_def split: if_splits)

interpretation vcpu: inductive_invariant "\<lambda>s. s = booted" "timer_inv V" "vstep V" for V
  by unfold_locales (simp add: timer_inv_def booted_def, erule (1) vstep_inv)

lemma after_boot: "run (vstep V) booted evs s \<Longrightarrow> timer_inv V s"
  using vcpu.reached_inv by blast

section \<open>The rate\<close>

text \<open>The earliest time at which the next callback body can run.\<close>

definition due :: "st_ctx \<Rightarrow> nat" where
  "due s = (case tmr s of None \<Rightarrow> jiffies s | Some e \<Rightarrow> e)"

lemma vstep_due:
  assumes "vstep V s ev s'" and "timer_inv V s" and "inserted s" and "ev \<noteq> Rmmod"
  shows "inserted s' \<and> due s + (if ev = Ding then period V else 0) \<le> due s'"
  using assms
  by (cases rule: vstep.cases) (auto simp: timer_inv_def due_def vstep_defs Let_def split: option.splits)

interpretation vcpu_due: rising_level "vstep V" "\<lambda>s. timer_inv V s \<and> inserted s" "\<lambda>ev. ev \<noteq> Rmmod"
    "\<lambda>ev. if ev = Ding then period V else 0" due for V
  by unfold_locales (use vstep_due vstep_inv in fastforce)

lemma due_sum: "sum_list (map (\<lambda>ev. if ev = Ding then n else 0) evs) = count_list evs Ding * n"
  by (induction evs) auto

lemma due_bound: "timer_inv V s \<Longrightarrow> inserted s \<Longrightarrow> due s \<le> jiffies s + period V"
  by (auto simp: timer_inv_def due_def split: option.splits)

section \<open>Progress\<close>

lemma run_ticks: "run (vstep V) s (replicate n Tick) (s\<lparr>jiffies := jiffies s + n\<rparr>)"
proof (induction n arbitrary: s)
  case (Suc n)
  from Suc [of "s\<lparr>jiffies := Suc (jiffies s)\<rparr>"] show ?case by (auto intro: run.intros vstep.tick)
qed (auto intro: run_nil)

text \<open>From every state of the loaded module one more callback can be reached.\<close>

definition settle :: "st_ctx \<Rightarrow> tmr_event list" where
  "settle s = (if cb s = Rearmed then [Callback_return] else [])"

definition to_ding :: "st_ctx \<Rightarrow> tmr_event list" where
  "to_ding s =
     (if cb s = Called then [Ding]
      else settle s @ replicate (due s - jiffies s) Tick @ [Expire, Ding])"

lemma run_to_ding:
  assumes "timer_inv V s" and "inserted s"
  shows "\<exists>s'. run (vstep V) s (to_ding s) s' \<and> inserted s'"
proof (cases "cb s = Called")
  case True
  then have "run (vstep V) s (to_ding s) ((ding V s)\<lparr>cb := Rearmed\<rparr>)"
    unfolding to_ding_def by (auto intro: run.intros vstep.ding)
  then show ?thesis using assms(2) by (auto simp: vstep_defs Let_def)
next
  case False
  then obtain e where e: "tmr s = Some e" using assms by (auto simp: timer_inv_def)
  define s1 where "s1 = s\<lparr>cb := Idle\<rparr>"
  have "run (vstep V) s (settle s) s1"
  proof (cases "cb s = Rearmed")
    case True
    then show ?thesis unfolding settle_def s1_def by (auto intro: run.intros vstep.return)
  next
    case not_done: False
    then have "s1 = s" using False by (cases "cb s") (auto simp: s1_def)
    then show ?thesis using not_done by (auto simp: settle_def intro: run_nil)
  qed
  moreover define s2 where "s2 = s1\<lparr>jiffies := jiffies s1 + (due s - jiffies s)\<rparr>"
  have "run (vstep V) s1 (replicate (due s - jiffies s) Tick) s2" unfolding s2_def by (rule run_ticks)
  moreover have "tmr s2 = Some e" "e \<le> jiffies s2" "cb s2 = Idle" using e by (simp_all add: s2_def s1_def due_def)
  then have "vstep V s2 Expire (s2\<lparr>tmr := None, cb := Called\<rparr>)" by (rule vstep.expire)
  moreover let ?s3 = "s2\<lparr>tmr := None, cb := Called\<rparr>"
  have "vstep V ?s3 Ding ((ding V ?s3)\<lparr>cb := Rearmed\<rparr>)" by (rule vstep.ding) simp
  ultimately have "run (vstep V) s (to_ding s) ((ding V ?s3)\<lparr>cb := Rearmed\<rparr>)"
    using False unfolding to_ding_def by (auto intro!: run_trans simp: run_append)
  then show ?thesis using assms(2) by (auto simp: vstep_defs Let_def s2_def s1_def)
qed

lemma count_to_ding: "count_list (to_ding s) Ding = 1" "Rmmod \<notin> set (to_ding s)"
  by (auto simp: to_ding_def settle_def count_list_0_iff)

interpretation vcpu: recurring "vstep V" "\<lambda>s. timer_inv V s \<and> inserted s" "\<lambda>ev. ev \<noteq> Rmmod" Ding for V
proof
  fix s assume s: "timer_inv V s \<and> inserted s"
  then obtain s' where s': "run (vstep V) s (to_ding s) s'" "inserted s'" using run_to_ding by blast
  with s vcpu.run_inv have "timer_inv V s'" by blast
  with s' count_to_ding [of s]
  show "\<exists>es s'. run (vstep V) s es s' \<and> (timer_inv V s' \<and> inserted s') \<and> list_all (\<lambda>ev. ev \<noteq> Rmmod) es \<and> count_list es Ding = 1"
    by (auto simp: list_all_iff)
qed

section \<open>A concrete life of the module\<close>

definition demo_kctx :: kctx where
  "demo_kctx = \<lparr>in_task = False, in_hardirq = False, in_serving_softirq = True, in_interrupt = True, in_softirq = True,
     irqs_disabled = False, need_resched = False, preempt_count = 256, cpu_id = 0, cur_has_mm = True, cur_comm = ''cc1'',
     cur_pid = 9\<rparr>"

definition demo_vworld :: vworld where
  "demo_vworld = \<lparr>period = 2, PF_VCPU = 1, task_flags = (\<lambda>j. [1, 2]), ding_ctx = (\<lambda>j. demo_kctx)\<rparr>"

definition demo_life :: "tmr_event list" where
  "demo_life = [Tick, Tick, Expire, Ding, Callback_return]"

definition demo_loaded :: st_ctx where
  "demo_loaded = (snd (timer_simple_init demo_vworld booted))\<lparr>inserted := True\<rparr>"

definition demo_final :: st_ctx where
  "demo_final = the (play (vnext demo_vworld) demo_loaded demo_life)"

lemma demo_insmod: "vstep demo_vworld booted Insmod demo_loaded"
  by (simp add: vnext_iff [symmetric] demo_loaded_def booted_def)

lemma demo_runs: "run (vstep demo_vworld) demo_loaded demo_life demo_final" "inserted demo_final" "jiffies demo_final = 2"
  unfolding vcpu.play_iff [symmetric]
  by (simp_all add: demo_final_def demo_life_def demo_loaded_def demo_vworld_def booted_def vstep_defs Let_def)

lemma demo_life_run: "run (vstep demo_vworld) booted (Insmod # demo_life) demo_final"
  by (rule run_cons [OF demo_insmod demo_runs(1)])

section \<open>Properties\<close>

text \<open>
  C12: after every run from boot, the callback runs only while the module is loaded, so
  removing the module never leaves a timer behind that calls into freed code; and while it is
  loaded the timer is pending, not more than one period ahead, or its callback is about to re-arm it.
\<close>

theorem timer_never_outlives_module:
  assumes "run (vstep V) booted evs s"
  shows "(\<not> inserted s \<longrightarrow> tmr s = None \<and> cb s = Idle) \<and>
     (inserted s \<longrightarrow> (tmr s = None \<longleftrightarrow> cb s = Called) \<and> (\<forall>e. tmr s = Some e \<longrightarrow> e \<le> jiffies s + period V))"
  using after_boot [OF assms] by (auto simp: timer_inv_def)

theorem timer_never_outlives_module_witness:
  "run (vstep demo_vworld) booted (Insmod # demo_life) demo_final \<and> (tmr demo_final = None) = (cb demo_final = Called)"
  using timer_never_outlives_module [OF demo_life_run] demo_life_run demo_runs(2) by simp

text \<open>
  C24: the timer does not fire more often than once per period: the callback has run at most as
  many times as periods have passed since the module was loaded.
\<close>

theorem timer_rate_bounded:
  assumes "run (vstep V) booted evs s" and "vstep V s Insmod s1" and "run (vstep V) s1 evs' s2" and "Rmmod \<notin> set evs'"
  shows "jiffies s1 + count_list evs' Ding * period V \<le> jiffies s2"
proof -
  have inv: "timer_inv V s" using after_boot [OF assms(1)] .
  then have inv1: "timer_inv V s1" using vstep_inv [OF assms(2)] by simp
  have s1: "inserted s1" "due s1 = jiffies s1 + period V"
    using assms(2) by (auto elim!: vstep_cases simp: due_def vstep_defs Let_def)
  from assms(4) have "list_all (\<lambda>ev. ev \<noteq> Rmmod) evs'" by (auto simp: list_all_iff)
  with vcpu_due.run_rises [OF assms(3)] inv1 s1(1)
  have s2: "timer_inv V s2" "inserted s2" "due s1 + count_list evs' Ding * period V \<le> due s2" by (simp_all add: due_sum)
  moreover have "due s2 \<le> jiffies s2 + period V" using due_bound s2 by blast
  ultimately show ?thesis using s1(2) by linarith
qed

theorem timer_rate_bounded_witness:
  "jiffies demo_loaded + count_list demo_life Ding * period demo_vworld \<le> jiffies demo_final"
  using timer_rate_bounded [OF run_nil demo_insmod demo_runs(1)] by (simp add: demo_life_def)

text \<open>
  The countdown announced in the header never happens: whatever has happened since boot, while the
  module is loaded \<^verbatim>\<open>data\<close> still has its initial value, and the callback can run any number of times more.
\<close>

theorem countdown_never_ends:
  assumes "run (vstep V) booted evs s" and "inserted s"
  shows "data s = INITIAL_VALUE \<and>
    (\<exists>evs' s'. run (vstep V) s evs' s' \<and> count_list evs' Ding = n \<and> inserted s' \<and> data s' = INITIAL_VALUE)"
proof -
  have inv: "timer_inv V s" using after_boot [OF assms(1)] .
  with vcpu.any_number [of V s n] assms(2) obtain evs' s' where
      "run (vstep V) s evs' s'" "count_list evs' Ding = n" "inserted s'" by blast
  moreover from this inv have "timer_inv V s'" using vcpu.run_inv by blast
  ultimately show ?thesis using inv assms(2) by (auto simp: timer_inv_def)
qed

theorem countdown_never_ends_witness:
  "\<exists>evs' s'. run (vstep demo_vworld) demo_final evs' s' \<and> count_list evs' Ding = 1000 \<and> data s' = 120"
  using countdown_never_ends [OF demo_life_run demo_runs(2), of 1000] by (auto simp: INITIAL_VALUE_def)

text \<open>
  Each run of the callback logs two lines for every thread with the flag, in the order of the
  thread list, and nothing for the others; the lines are the same for all of them, since the macro
  that should show the thread shows the context the timer happened to interrupt.
\<close>

theorem ding_reports_flagged:
  "kmsgs (ding V s) = kmsgs s @ concat (replicate (length (filter (\<lambda>f. and f (PF_VCPU V) \<noteq> 0) (task_flags V (jiffies s))))
     [PRINT_CTX (ding_ctx V (jiffies s)) ''ding'', vc_msg ''ding'' ''*** PF_VCPU set ***\<newline>'' []])"
proof -
  have "fold (ding_thread V now) fs log = log @ concat (replicate (length (filter (\<lambda>f. and f (PF_VCPU V) \<noteq> 0) fs))
      [PRINT_CTX (ding_ctx V now) ''ding'', vc_msg ''ding'' ''*** PF_VCPU set ***\<newline>'' []])" for now fs log
    by (induction fs arbitrary: log) (simp_all add: ding_thread_def)
  then show ?thesis by (simp add: ding_def mod_timer_def Let_def)
qed

end
