(* ===== verification/Segv_Pgfault.thy ===== *)
theory Segv_Pgfault
  imports C_Format
begin

text \<open>
  \<^verbatim>\<open>mm/vm_usermode/segv_pgfault.c\<close>, which accesses an invalid user or kernel address and reports the signal
  it gets. What an access does (a value, or the signal information of the fault) and whether the
  handler can be installed are parameters. The theory shows which of the four accesses the two
  arguments select, what the program prints and how it ends on every path.
\<close>

section \<open>Addresses and signals\<close>

text \<open>The word size of the build decides on the two addresses and the format.\<close>

definition rubbish_uaddr :: "bool \<Rightarrow> addr" where
  "rubbish_uaddr x86_64 = 0x100000"

definition rubbish_kaddr :: "bool \<Rightarrow> addr" where
  "rubbish_kaddr x86_64 = (if x86_64 then 0xffff0a8700100000 else 0xd0100000)"

definition ADDR_FMT :: "bool \<Rightarrow> string" where
  "ADDR_FMT x86_64 = (if x86_64 then ''%016lx'' else ''%08lx'')"

record siginfo =
  si_errno :: int
  si_code :: int
  si_addr :: addr

text \<open>The codes of \<^verbatim>\<open><signal.h>\<close>.\<close>

definition SI_USER :: int where "SI_USER = 0"
definition SI_KERNEL :: int where "SI_KERNEL = 0x80"
definition SI_QUEUE :: int where "SI_QUEUE = -1"
definition SI_TIMER :: int where "SI_TIMER = -2"
definition SI_MESGQ :: int where "SI_MESGQ = -3"
definition SI_ASYNCIO :: int where "SI_ASYNCIO = -4"
definition SI_SIGIO :: int where "SI_SIGIO = -5"
definition SI_TKILL :: int where "SI_TKILL = -6"
definition SEGV_MAPERR :: int where "SEGV_MAPERR = 1"
definition SEGV_ACCERR :: int where "SEGV_ACCERR = 2"
definition SIGSEGV :: int where "SIGSEGV = 11"

lemmas si_codes = SI_USER_def SI_KERNEL_def SI_QUEUE_def SI_TIMER_def SI_MESGQ_def SI_ASYNCIO_def SI_SIGIO_def
  SI_TKILL_def SEGV_MAPERR_def SEGV_ACCERR_def

section \<open>The handler\<close>

definition cause :: "int \<Rightarrow> string" where
  "cause code =
     (if code = SI_USER then ''user\<newline>''
      else if code = SI_KERNEL then ''kernel\<newline>''
      else if code = SI_QUEUE then ''queue\<newline>''
      else if code = SI_TIMER then ''timer\<newline>''
      else if code = SI_MESGQ then ''mesgq\<newline>''
      else if code = SI_ASYNCIO then ''async io\<newline>''
      else if code = SI_SIGIO then ''sigio\<newline>''
      else if code = SI_TKILL then ''t[g]kill\<newline>''
      else if code = SEGV_MAPERR then ''SEGV_MAPERR: address not mapped to object\<newline>''
      else if code = SEGV_ACCERR then ''SEGV_ACCERR: invalid permissions for mapped object\<newline>''
      else ''-none-\<newline>'')"

text \<open>The static counter \<^verbatim>\<open>c\<close> goes in and, incremented, comes out; the handler does not return.\<close>

definition myfault :: "bool \<Rightarrow> int \<Rightarrow> siginfo \<Rightarrow> int \<Rightarrow> ending \<times> message list \<times> int" where
  "myfault x86_64 signum si c =
     (Exit 1,
      [Stdout (emit (''*** %s: [%d] received signal %d. errno=%d\<newline>'' @ '' Cause/Origin: (si_code=%d): '')
         [FStr ''myfault'', FInt (c + 1), FInt signum, FInt (si_errno si), FInt (si_code si)]),
       Stdout (cause (si_code si)),
       Stdout (emit ('' Faulting addr=0x'' @ ADDR_FMT x86_64 @ ''\<newline>'') [FUInt (si_addr si)])],
      c + 1)"

section \<open>The main program\<close>

datatype region = User | Kernel
datatype access = Read | Write

text \<open>The machine: what reading or writing an address does, and where the code of \<^verbatim>\<open>main\<close> lies.\<close>

record machine =
  x86_64 :: bool
  load :: "addr \<Rightarrow> siginfo + nat"
  store :: "addr \<Rightarrow> nat \<Rightarrow> siginfo option"
  main_at :: addr
  sigaction_ok :: bool

definition usage :: "string \<Rightarrow> message" where
  "usage nm = Stderr (emit (''Usage: %s u|k r|w\<newline>'' @ ''u => user mode\<newline>'' @ ''k => kernel mode\<newline>'' @
     '' r => read attempt\<newline>'' @ '' w => write attempt\<newline>'') [FStr nm])"

text \<open>\<^verbatim>\<open>tolower\<close> in the C locale, and the first character of an argument as an \<^verbatim>\<open>int\<close>.\<close>

definition tolower :: "int \<Rightarrow> int" where
  "tolower c = (if 65 \<le> c \<and> c \<le> 90 then c + 32 else c)"

definition char0 :: "string \<Rightarrow> int" where
  "char0 s = (case s of [] \<Rightarrow> 0 | c # cs \<Rightarrow> of_char c)"

definition of_bool_int :: "bool \<Rightarrow> int" where
  "of_bool_int b = (if b then 1 else 0)"

text \<open>The four conditions, with the parentheses where the source has them.\<close>

definition selected :: "string \<Rightarrow> string \<Rightarrow> (region \<times> access) option" where
  "selected a1 a2 =
     (if tolower (char0 a1) = of_char CHR ''u'' \<and> tolower (of_bool_int (char0 a2 = of_char CHR ''r'')) \<noteq> 0 then Some (User, Read)
      else if tolower (char0 a1) = of_char CHR ''u'' \<and> tolower (of_bool_int (char0 a2 = of_char CHR ''w'')) \<noteq> 0 then Some (User, Write)
      else if tolower (char0 a1) = of_char CHR ''k'' \<and> tolower (of_bool_int (char0 a2 = of_char CHR ''r'')) \<noteq> 0 then Some (Kernel, Read)
      else if tolower (char0 a1) = of_char CHR ''k'' \<and> tolower (of_bool_int (char0 a2 = of_char CHR ''w'')) \<noteq> 0 then Some (Kernel, Write)
      else None)"

definition victim :: "machine \<Rightarrow> region \<times> access \<Rightarrow> addr" where
  "victim M ra =
     (case ra of
        (User, Read) \<Rightarrow> rubbish_uaddr (x86_64 M)
      | (User, Write) \<Rightarrow> main_at M
      | (Kernel, _) \<Rightarrow> rubbish_kaddr (x86_64 M))"

definition announce :: "region \<times> access \<Rightarrow> string" where
  "announce ra =
     (case ra of
        (User, Read) \<Rightarrow> ''Attempting to read contents of arbitrary usermode va uptr = 0x''
      | (User, Write) \<Rightarrow> ''Attempting to write into arbitrary usermode va uptr (&main actually) = 0x''
      | (Kernel, Read) \<Rightarrow> ''Attempting to read contents of arbitrary kernel va kptr = 0x''
      | (Kernel, Write) \<Rightarrow> ''Attempting to write into arbitrary kernel va kptr = 0x'')"

text \<open>The access itself: the signal, or what is printed of the value.\<close>

definition perform :: "machine \<Rightarrow> region \<times> access \<Rightarrow> siginfo + message list" where
  "perform M ra =
     (case ra of
        (r, Read) \<Rightarrow>
          (case load M (victim M ra) of
             Inl si \<Rightarrow> Inl si
           | Inr v \<Rightarrow> Inr [Stdout (emit ((case r of User \<Rightarrow> ''*uptr = 0x'' | Kernel \<Rightarrow> ''*kptr = 0x'') @ ADDR_FMT (x86_64 M) @ ''\<newline>'')
                          [FUInt v])])
      | (r, Write) \<Rightarrow>
          (case store M (victim M ra) (case r of User \<Rightarrow> 40 | Kernel \<Rightarrow> 0x62) of
             Some si \<Rightarrow> Inl si
           | None \<Rightarrow> Inr []))"

definition segv_main :: "machine \<Rightarrow> string list \<Rightarrow> ending \<times> message list" where
  "segv_main M argv =
     (if length argv \<noteq> 3 then (Exit 1, [usage (argv ! 0)])
      else if \<not> sigaction_ok M then (Exit 1, [Perror ''sigaction''])
      else
        (case selected (argv ! 1) (argv ! 2) of
           None \<Rightarrow> (Exit 0, [usage (argv ! 0)])
         | Some ra \<Rightarrow>
             (let out = [Stdout (emit (announce ra @ ADDR_FMT (x86_64 M) @ '':\<newline>'') [FUInt (victim M ra)])] in
              case perform M ra of
                Inl si \<Rightarrow> (case myfault (x86_64 M) SIGSEGV si 0 of (e, m, c) \<Rightarrow> (e, out @ m))
              | Inr m \<Rightarrow> (Exit 0, out @ m))))"

section \<open>Selecting the access\<close>

lemma of_char_eq: "(of_char c :: int) = of_char d \<longleftrightarrow> c = d"
proof -
  have "(of_char c :: int) = of_char d \<longleftrightarrow> int (of_char c) = int (of_char d)" by simp
  also have "\<dots> \<longleftrightarrow> (of_char c :: nat) = of_char d" by (simp only: of_nat_eq_iff)
  finally show ?thesis by simp
qed

definition either_case :: "char \<Rightarrow> char \<Rightarrow> string \<Rightarrow> bool" where
  "either_case lower upper s \<longleftrightarrow> s \<noteq> [] \<and> (hd s = lower \<or> hd s = upper)"

lemma tolower_flag [simp]: "tolower (of_bool_int b) \<noteq> 0 \<longleftrightarrow> b"
  by (simp add: tolower_def of_bool_int_def)

lemma char0_iff: "c \<noteq> CHR 0x00 \<Longrightarrow> char0 s = of_char c \<longleftrightarrow> s \<noteq> [] \<and> hd s = c"
  using of_char_eq [of "CHR 0x00" c] by (cases s) (auto simp: char0_def of_char_eq)

lemma tolower_char0:
  "tolower (char0 s) = of_char CHR ''u'' \<longleftrightarrow> either_case CHR ''u'' CHR ''U'' s"
  "tolower (char0 s) = of_char CHR ''k'' \<longleftrightarrow> either_case CHR ''k'' CHR ''K'' s"
proof -
  have "tolower (char0 s) = of_char CHR ''u'' \<longleftrightarrow> char0 s = of_char CHR ''u'' \<or> char0 s = of_char CHR ''U''"
    by (auto simp: tolower_def)
  then show "tolower (char0 s) = of_char CHR ''u'' \<longleftrightarrow> either_case CHR ''u'' CHR ''U'' s"
    using char0_iff [of "CHR ''u''" s] char0_iff [of "CHR ''U''" s] by (auto simp: either_case_def)
  have "tolower (char0 s) = of_char CHR ''k'' \<longleftrightarrow> char0 s = of_char CHR ''k'' \<or> char0 s = of_char CHR ''K''"
    by (auto simp: tolower_def)
  then show "tolower (char0 s) = of_char CHR ''k'' \<longleftrightarrow> either_case CHR ''k'' CHR ''K'' s"
    using char0_iff [of "CHR ''k''" s] char0_iff [of "CHR ''K''" s] by (auto simp: either_case_def)
qed

lemma selected_iff:
  "selected a1 a2 = Some (r, a) \<longleftrightarrow>
     (case r of User \<Rightarrow> either_case CHR ''u'' CHR ''U'' a1 | Kernel \<Rightarrow> either_case CHR ''k'' CHR ''K'' a1) \<and>
     a2 \<noteq> [] \<and> hd a2 = (case a of Read \<Rightarrow> CHR ''r'' | Write \<Rightarrow> CHR ''w'')"
  unfolding selected_def tolower_flag tolower_char0
  using char0_iff [of "CHR ''r''" a2] char0_iff [of "CHR ''w''" a2]
  by (cases r; cases a) (auto simp: either_case_def)

section \<open>Properties\<close>

text \<open>
  With two arguments and the handler installed, the program makes exactly the access that the
  arguments name. If the access is refused, it reports the code and the address of the signal and exits
  with 1; otherwise it exits with 0. The first either_case of the first argument may be upper or lower case.
\<close>

theorem segv_main_reports:
  assumes "sigaction_ok M" and "selected a1 a2 = Some ra"
  shows "segv_main M [prog, a1, a2] =
    (let out = Stdout (emit (announce ra @ ADDR_FMT (x86_64 M) @ '':\<newline>'') [FUInt (victim M ra)]) in
     case perform M ra of
       Inl si \<Rightarrow>
         (Exit 1,
          [out,
           Stdout (emit (''*** %s: [%d] received signal %d. errno=%d\<newline>'' @ '' Cause/Origin: (si_code=%d): '')
             [FStr ''myfault'', FInt 1, FInt 11, FInt (si_errno si), FInt (si_code si)]),
           Stdout (cause (si_code si)), Stdout (emit ('' Faulting addr=0x'' @ ADDR_FMT (x86_64 M) @ ''\<newline>'') [FUInt (si_addr si)])])
     | Inr m \<Rightarrow> (Exit 0, out # m))"
  using assms by (simp add: segv_main_def myfault_def SIGSEGV_def Let_def split: sum.split)

definition demo_machine :: machine where
  "demo_machine = \<lparr>x86_64 = True, load = (\<lambda>a. Inl \<lparr>si_errno = 0, si_code = SEGV_MAPERR, si_addr = a\<rparr>),
     store = (\<lambda>a v. Some \<lparr>si_errno = 0, si_code = SEGV_ACCERR, si_addr = a\<rparr>), main_at = 0x401136, sigaction_ok = True\<rparr>"

theorem segv_main_reports_witness:
  "\<exists>m1 m2 m4. segv_main demo_machine [''segv_pgfault'', ''Usermode'', ''r''] =
     (Exit 1, [m1, m2, Stdout ''SEGV_MAPERR: address not mapped to object\<newline>'', m4])"
proof -
  have sel: "selected ''Usermode'' ''r'' = Some (User, Read)" by (simp add: selected_iff either_case_def)
  show ?thesis
    using segv_main_reports [of demo_machine "''Usermode''" "''r''" "(User, Read)" "''segv_pgfault''"] sel
    by (simp add: demo_machine_def perform_def victim_def rubbish_uaddr_def cause_def si_codes Let_def)
qed

text \<open>
  The two arguments are not read alike. The case of the first is ignored, but a misplaced
  parenthesis lowers the case of a comparison's result instead of the second argument's letter:
  the access is selected exactly by a lower-case r or w, and for an upper-case one the program prints its
  usage and exits with 0, without any access.
\<close>

theorem segv_case_of_arguments:
  assumes "sigaction_ok M"
  shows "selected (c # a1) (d # a2) =
      (case (if c \<in> {CHR ''u'', CHR ''U''} then Some User else if c \<in> {CHR ''k'', CHR ''K''} then Some Kernel else None,
             if d = CHR ''r'' then Some Read else if d = CHR ''w'' then Some Write else None)
       of (Some r, Some a) \<Rightarrow> Some (r, a) | _ \<Rightarrow> None) \<and>
    segv_main M [prog, a, ''R''] = (Exit 0, [usage prog]) \<and> segv_main M [prog, a, ''W''] = (Exit 0, [usage prog])"
proof -
  have sel: "selected x (d # a2) = (if either_case CHR ''u'' CHR ''U'' x
      then (if d = CHR ''r'' then Some (User, Read) else if d = CHR ''w'' then Some (User, Write) else None)
      else if either_case CHR ''k'' CHR ''K'' x
      then (if d = CHR ''r'' then Some (Kernel, Read) else if d = CHR ''w'' then Some (Kernel, Write) else None) else None)" for x d a2
    unfolding selected_def tolower_flag tolower_char0
    using char0_iff [of "CHR ''r''" "d # a2"] char0_iff [of "CHR ''w''" "d # a2"] by simp
  moreover have "selected a ''R'' = None" "selected a ''W'' = None" using sel by simp_all
  ultimately show ?thesis using assms by (simp add: segv_main_def either_case_def)
qed

theorem segv_case_of_arguments_witness:
  "selected ''K'' ''w'' = Some (Kernel, Write) \<and>
   segv_main demo_machine [''segv_pgfault'', ''u'', ''R''] = (Exit 0, [usage ''segv_pgfault''])"
  using segv_case_of_arguments [of demo_machine "CHR ''K''" "[]" "CHR ''w''" "[]" "''segv_pgfault''" "''u''"]
  by (simp add: demo_machine_def)

text \<open>
  The kernel address of the 64-bit build is not canonical with 48-bit virtual addresses (the bits above
  bit 47 must equal it), so that access never reaches the page fault handler there.
\<close>

definition canonical48 :: "addr \<Rightarrow> bool" where
  "canonical48 a \<longleftrightarrow> a div 2 ^ 47 = 0 \<or> a div 2 ^ 47 = 2 ^ 17 - 1"

lemma rubbish_kaddr_not_canonical: "\<not> canonical48 (rubbish_kaddr True)" "canonical48 (rubbish_uaddr True)"
  by (simp_all add: canonical48_def rubbish_kaddr_def rubbish_uaddr_def)

end
