(* ===== verification/Pthread_Lib.thy ===== *)
theory Pthread_Lib
  imports Convenient
begin

text \<open>
  The routines of \<^verbatim>\<open>sched/sched_pthrd_app/libpk.h\<close>: \<^verbatim>\<open>beep\<close>, \<^verbatim>\<open>DELAY_LOOP\<close> and \<^verbatim>\<open>sleepsafe\<close>, which sleeps on after
  signals until the time asked for has passed. The system call \<^verbatim>\<open>nanosleep\<close> is a parameter; its
  contract is a locale, in which \<^verbatim>\<open>sleepsafe\<close> is shown to return and not to return early.
\<close>

section \<open>beep, DELAY\_LOOP\<close>

definition pk_beep :: "int \<Rightarrow> string" where
  "pk_beep what = (let buf = [char_of (nat (what mod 256)), CHR 0x00] in take 1 buf)"

text \<open>
  The counter is unsigned, so \<^verbatim>\<open>loop_count\<close> is compared as an unsigned number; the value the inner
  loop computes is kept, to show what it is.
\<close>

definition delay_x :: "nat \<Rightarrow> int" where
  "delay_x inner_index = (int inner_index mod 2) * ((22 div 7) mod 3)"

primrec pk_loop :: "nat \<Rightarrow> int \<Rightarrow> string \<Rightarrow> nat \<Rightarrow> string \<times> nat" where
  "pk_loop 0 val out c = (out, c)"
| "pk_loop (Suc n) val out c = pk_loop n val (out @ pk_beep val) (c + 1)"

definition pk_DELAY_LOOP :: "int \<Rightarrow> int \<Rightarrow> string \<times> nat" where
  "pk_DELAY_LOOP val loop_count = pk_loop (nat (loop_count mod 2 ^ 32)) val [] 0"

section \<open>sleepsafe\<close>

record timespec =
  ts_seconds :: int
  ts_nanos :: int

text \<open>A call returns its result, \<^verbatim>\<open>errno\<close>, the remaining time and the new world.\<close>

type_synonym 'w nanosleep = "timespec \<Rightarrow> 'w \<Rightarrow> (int \<times> int \<times> timespec) \<times> 'w"

definition rem_line :: "timespec \<Rightarrow> string" where
  "rem_line t = emit ''nanosleep interrupted: rem time: %07lu.%07lu\<newline>'' [FUInt (nat (ts_seconds t mod 2 ^ 64)), FUInt (nat (ts_nanos t mod 2 ^ 64))]"

partial_function (option) sleep_loop ::
  "'w nanosleep \<Rightarrow> bool \<Rightarrow> timespec \<Rightarrow> string list \<Rightarrow> 'w \<Rightarrow> (string list \<times> 'w) option" where
  "sleep_loop nanosleep verbose req out w =
     (let r = nanosleep req w in
      if fst (fst r) = -1 \<and> fst (snd (fst r)) = EINTR then
        sleep_loop nanosleep verbose (snd (snd (fst r))) (out @ (if verbose then [rem_line (snd (snd (fst r)))] else [])) (snd r)
      else Some (out, snd r))"

definition sleepsafe :: "'w nanosleep \<Rightarrow> int \<Rightarrow> int \<Rightarrow> bool \<Rightarrow> 'w \<Rightarrow> (int \<times> string list \<times> 'w) option" where
  "sleepsafe nanosleep sec nsec verbose w =
     map_option (\<lambda>(out, w'). (0, out, w')) (sleep_loop nanosleep verbose \<lparr>ts_seconds = sec, ts_nanos = nsec\<rparr> [] w)"

section \<open>The contract of nanosleep\<close>

definition nanos :: "timespec \<Rightarrow> int" where
  "nanos t = ts_seconds t * 10 ^ 9 + ts_nanos t"

definition valid_time :: "timespec \<Rightarrow> bool" where
  "valid_time t \<longleftrightarrow> 0 \<le> ts_seconds t \<and> 0 \<le> ts_nanos t \<and> ts_nanos t < 10 ^ 9"

text \<open>
  A valid request is slept through, or interrupted by one of the signals to come, with the rest
  reported; an invalid one is refused.
\<close>

locale nanosleeping =
  fixes nanosleep :: "'w nanosleep" and clock :: "'w \<Rightarrow> int" and to_come :: "'w \<Rightarrow> nat"
  assumes slept: "valid_time req \<Longrightarrow> nanosleep req w = ((0, e, rem), w') \<Longrightarrow> clock w + nanos req \<le> clock w'"
    and result: "valid_time req \<Longrightarrow> nanosleep req w = ((r, e, rem), w') \<Longrightarrow> r = 0 \<or> r = -1 \<and> e = EINTR"
    and interrupted: "valid_time req \<Longrightarrow> nanosleep req w = ((-1, e, rem), w') \<Longrightarrow>
      valid_time rem \<and> clock w + nanos req \<le> clock w' + nanos rem \<and> to_come w' < to_come w"
    and refused: "\<not> valid_time req \<Longrightarrow> \<exists>rem. nanosleep req w = ((-1, EINVAL, rem), w)"
begin

lemma loop_sleeps:
  assumes "valid_time req"
  shows "\<exists>out' w'. sleep_loop nanosleep verbose req out w = Some (out', w') \<and> clock w + nanos req \<le> clock w' \<and>
    length out' \<le> length out + (if verbose then to_come w else 0)"
  using assms
proof (induction "to_come w" arbitrary: req out w rule: less_induct)
  case less
  obtain r e rem w1 where call: "nanosleep req w = ((r, e, rem), w1)" by (metis prod.exhaust)
  show ?case
  proof (cases "r = 0")
    case True
    with call less.prems slept show ?thesis by (subst sleep_loop.simps) auto
  next
    case False
    with result [OF less.prems call] have r: "r = -1" "e = EINTR" by auto
    with interrupted [OF less.prems] call have
      rem: "valid_time rem" "clock w + nanos req \<le> clock w1 + nanos rem" "to_come w1 < to_come w" by auto
    from less.hyps [OF rem(3,1), of "out @ (if verbose then [rem_line rem] else [])"] obtain out' w' where
      "sleep_loop nanosleep verbose rem (out @ (if verbose then [rem_line rem] else [])) w1 = Some (out', w')"
      "clock w1 + nanos rem \<le> clock w'"
      "length out' \<le> length (out @ (if verbose then [rem_line rem] else [])) + (if verbose then to_come w1 else 0)" by blast
    with r call rem show ?thesis by (subst sleep_loop.simps) auto
  qed
qed

lemma sleepsafe_waits:
  assumes "0 \<le> sec" and "0 \<le> nsec" and "nsec < 10 ^ 9"
  shows "\<exists>out w'. sleepsafe nanosleep sec nsec verbose w = Some (0, out, w') \<and> clock w + sec * 10 ^ 9 + nsec \<le> clock w' \<and>
    length out \<le> (if verbose then to_come w else 0)"
  using loop_sleeps [of "\<lparr>ts_seconds = sec, ts_nanos = nsec\<rparr>" verbose "[]" w] assms
  by (auto simp: sleepsafe_def valid_time_def nanos_def algebra_simps)

lemma sleepsafe_refused:
  assumes "\<not> valid_time \<lparr>ts_seconds = sec, ts_nanos = nsec\<rparr>"
  shows "sleepsafe nanosleep sec nsec verbose w = Some (0, [], w)"
  unfolding sleepsafe_def using refused [OF assms, of w] by (subst sleep_loop.simps) auto

end

text \<open>
  A kernel that keeps the contract: a clock, and the delays after which the signals to come interrupt a sleep.
\<close>

record alarm_world =
  now_ns :: int
  alarms :: "nat list"

definition of_nanos :: "int \<Rightarrow> timespec" where
  "of_nanos n = \<lparr>ts_seconds = n div 10 ^ 9, ts_nanos = n mod 10 ^ 9\<rparr>"

definition alarm_sleep :: "alarm_world nanosleep" where
  "alarm_sleep req w =
     (if \<not> valid_time req then ((-1, EINVAL, req), w)
      else case alarms w of
        [] \<Rightarrow> ((0, 0, req), w\<lparr>now_ns := now_ns w + nanos req\<rparr>)
      | d # ds \<Rightarrow>
          if int d < nanos req then ((-1, EINTR, of_nanos (nanos req - int d)), w\<lparr>now_ns := now_ns w + int d, alarms := ds\<rparr>)
          else ((0, 0, req), w\<lparr>now_ns := now_ns w + nanos req\<rparr>))"

lemma nanos_of_nanos: "nanos (of_nanos n) = n"
  by (simp add: nanos_def of_nanos_def)

lemma valid_of_nanos: "0 \<le> n \<Longrightarrow> valid_time (of_nanos n)"
  by (simp add: valid_time_def of_nanos_def pos_imp_zdiv_nonneg_iff)

interpretation alarm: nanosleeping alarm_sleep now_ns "\<lambda>w. length (alarms w)"
proof unfold_locales
qed (auto simp: alarm_sleep_def nanos_of_nanos valid_of_nanos split: list.splits if_splits)

section \<open>Properties\<close>

lemma delay_x_zero: "delay_x n = 0"
  by (simp add: delay_x_def)

lemma pk_loop_eq: "pk_loop n val out c = (out @ replicate n (char_of (nat (val mod 256))), c + n)"
  by (induction n arbitrary: out c) (simp_all add: pk_beep_def replicate_append_same)

text \<open>A negative count, read as an unsigned number, is a very long delay.\<close>

lemma pk_DELAY_LOOP_beeps:
  "pk_DELAY_LOOP val loop_count =
     (replicate (nat (loop_count mod 2 ^ 32)) (char_of (nat (val mod 256))), nat (loop_count mod 2 ^ 32))"
  by (simp add: pk_DELAY_LOOP_def pk_loop_eq)

text \<open>
  C26: on every kernel whose \<^verbatim>\<open>nanosleep\<close> keeps its contract, \<^verbatim>\<open>sleepsafe\<close> with a valid time always returns 0, not
  before that time has passed, however many signals interrupt it, and prints at most one line per signal, if \<^verbatim>\<open>verbose\<close>.
  With an invalid time it returns 0 as well, but at once.
\<close>

theorem sleepsafe_correct:
  assumes "nanosleeping ns clock to_come"
  shows "if 0 \<le> sec \<and> 0 \<le> nsec \<and> nsec < 10 ^ 9
    then \<exists>out w'. sleepsafe ns sec nsec verbose w = Some (0, out, w') \<and> clock w + sec * 10 ^ 9 + nsec \<le> clock w' \<and>
      length out \<le> (if verbose then to_come w else 0)
    else sleepsafe ns sec nsec verbose w = Some (0, [], w)"
  using nanosleeping.sleepsafe_waits [OF assms, of sec nsec verbose w] nanosleeping.sleepsafe_refused [OF assms, of sec nsec verbose w]
  by (auto simp: valid_time_def)

theorem sleepsafe_correct_witness:
  "\<exists>out w'. sleepsafe alarm_sleep 2 500 True \<lparr>now_ns = 7, alarms = [100, 300]\<rparr> = Some (0, out, w') \<and> 2000000507 \<le> now_ns w' \<and> length out \<le> 2"
  using sleepsafe_correct [OF alarm.nanosleeping_axioms, of 2 500 True "\<lparr>now_ns = 7, alarms = [100, 300]\<rparr>"]
  by (simp add: numeral_2_eq_2)

end
