(* ===== verification/Small_Programs.thy ===== *)
theory Small_Programs
  imports C_Format
begin

text \<open>
  The smallest programs and modules: the two versions of \<^verbatim>\<open>vm_user.c\<close>, which print the addresses of a
  process, \<^verbatim>\<open>ptr1.c\<close>, \<^verbatim>\<open>trick.c\<close>, which reads the address given on its command line, and the modules
  \<^verbatim>\<open>show_monolithic\<close>, \<^verbatim>\<open>helloworld_lkm\<close> and \<^verbatim>\<open>lkm_template\<close>. Addresses and the memory are parameters.
\<close>

section \<open>vm\_user.c, ptr1.c\<close>

record places =
  main_addr :: addr
  g_addr :: addr
  u_addr :: addr
  heapptr :: addr
  local_addr :: addr

definition u32 :: "addr \<Rightarrow> farg" where
  "u32 a = FUInt (a mod 2 ^ 32)"

definition u64 :: "addr \<Rightarrow> farg" where
  "u64 a = FUInt (a mod 2 ^ 64)"

definition row_of :: "(addr \<Rightarrow> farg) \<Rightarrow> places \<Rightarrow> farg list" where
  "row_of cast P = map cast [main_addr P, g_addr P, u_addr P, heapptr P, local_addr P]"

text \<open>The program in \<^verbatim>\<open>vm_usermode\<close>.\<close>

definition vm_user_main :: "nat \<Rightarrow> places \<Rightarrow> ending \<times> message list" where
  "vm_user_main wordsize P =
     (Exit 0,
      Stdout (emit ''wordsize : %d\<newline>'' [FInt (int wordsize)]) #
      (if wordsize = 32 then
         [Stdout (emit ''&main = 0x%08x &g = 0x%08x &u = 0x%08x &heapptr = 0x%08x &loc = 0x%08x\<newline>'' (row_of u32 P))]
       else if wordsize = 64 then
         [Stdout (emit ''&main = 0x%016lx &g = 0x%016lx &u = 0x%016lx &heapptr = 0x%016lx &loc = 0x%016lx\<newline>'' (row_of u64 P))]
       else []))"

text \<open>The program in \<^verbatim>\<open>xtras/vm_vas\<close>.\<close>

definition vm_vas_main :: "nat \<Rightarrow> places \<Rightarrow> ending \<times> message list" where
  "vm_vas_main wordsize P =
     (Exit 0,
      if wordsize = 32 then
        [Stdout (emit ''32-bit: &main = 0x%08x &g = 0x%08x &u = 0x%08x &heapptr = 0x%08x &loc = 0x%08x\<newline>'' (row_of u32 P))]
      else if wordsize = 64 then
        [Stdout (emit ''64-bit: &main = 0x%016lx &g = 0x%016lx &u = %016lx &heapptr = 0x%016lx &loc = 0x%016lx\<newline>'' (row_of u64 P))]
      else [])"

text \<open>\<^verbatim>\<open>gp\<close> itself is printed where its address is announced.\<close>

definition gp :: addr where "gp = 0x42000"

definition ptr1_main :: "places \<Rightarrow> ending \<times> message list" where
  "ptr1_main P = (Paused, [Stdout (emit ''&gp = %p, &g=%p &loc=%p\<newline>'' [FUInt gp, FUInt (g_addr P), FUInt (local_addr P)])])"

section \<open>trick.c\<close>

definition is_xdigit :: "char \<Rightarrow> bool" where
  "is_xdigit c \<longleftrightarrow> c \<in> set ''0123456789abcdefABCDEF''"

definition xdigit :: "char \<Rightarrow> nat" where
  "xdigit c = (if is_digit c then of_char c - 48 else if c \<in> set ''abcdef'' then of_char c - 87 else of_char c - 55)"

text \<open>
  \<^verbatim>\<open>strtoul\<close> in base 16: white space, a sign, an optional \<^verbatim>\<open>0x\<close>, and the digits up to the first other
  character; a value that does not fit is \<^verbatim>\<open>ULONG_MAX\<close>, and a minus sign negates modulo \<^verbatim>\<open>2^64\<close>.
\<close>

definition skip_0x :: "string \<Rightarrow> string" where
  "skip_0x s = (if take 2 s \<in> {''0x'', ''0X''} \<and> drop 2 s \<noteq> [] \<and> is_xdigit (hd (drop 2 s)) then drop 2 s else s)"

definition hex_value :: "string \<Rightarrow> nat" where
  "hex_value s = of_radix 16 (map xdigit (takeWhile is_xdigit (skip_0x s)))"

definition strtoul16 :: "string \<Rightarrow> nat" where
  "strtoul16 s =
     (let t = dropWhile is_space s; neg = (t \<noteq> [] \<and> hd t = CHR ''-'');
          u = (if t \<noteq> [] \<and> hd t \<in> {CHR ''-'', CHR ''+''} then tl t else t); v = hex_value u
      in if 2 ^ 64 \<le> v then 2 ^ 64 - 1 else if neg then (2 ^ 64 - v) mod 2 ^ 64 else v)"

text \<open>The program ends with the value it read unused, and 0; \<^term>\<open>readable\<close> says which addresses it may read.\<close>

datatype trick_end = Ended ending "message list" | Segfault addr

definition trick_main :: "(addr \<Rightarrow> bool) \<Rightarrow> string list \<Rightarrow> trick_end" where
  "trick_main readable argv =
     (if length argv = 1 then Ended (Exit 1) [Stderr (emit ''Usage: %s kernel|user-va\<newline>'' [FStr (argv ! 0)])]
      else (let ptr = strtoul16 (argv ! 1) in if readable ptr then Ended (Exit 0) [] else Segfault ptr))"

section \<open>The small modules\<close>

definition monolithic_init :: "string \<Rightarrow> int \<Rightarrow> int \<times> string list" where
  "monolithic_init comm pid = (0, [emit ''init: Process context :: %s PID %d\<newline>'' [FStr comm, FInt pid]])"

definition monolithic_exit :: "string \<Rightarrow> int \<Rightarrow> string list" where
  "monolithic_exit comm pid = [emit ''exit: Process context :: %s PID %d\<newline>'' [FStr comm, FInt pid]]"

definition hello_init :: "int \<times> string list" where
  "hello_init = (0, [''Hello, LKM world\<newline>''])"

definition hello_exit :: "string list" where
  "hello_exit = [''Goodbye, cruel world\<newline>'']"

definition hello_main :: "ending \<times> message list" where
  "hello_main = (Paused, [Stdout ''Hello, world\<newline>''])"

definition lkm_template_init :: "int \<times> string list" where
  "lkm_template_init = (0, [emit ''%s:%s(): inserted\<newline>'' [FStr ''lkm_template'', FStr ''lkm_template_init'']])"

definition lkm_template_exit :: "string list" where
  "lkm_template_exit = [emit ''%s:%s(): removed\<newline>'' [FStr ''lkm_template'', FStr ''lkm_template_exit'']]"

section \<open>Reading a printed address\<close>

lemma xdigit_digit: "d < 16 \<Longrightarrow> is_xdigit (digit d) \<and> xdigit (digit d) = d"
proof -
  have "\<forall>d \<in> {0..<16}. is_xdigit (digit d) \<and> xdigit (digit d) = d" by code_simp
  then show "d < 16 \<Longrightarrow> ?thesis" by simp
qed

lemma hex_xdigits: "c \<in> set (hex n) \<Longrightarrow> is_xdigit c"
  using radix_digits [of 16 _ n] xdigit_digit by (auto simp: hex_def)

lemma hex_value_digits: "skip_0x s = hex n \<Longrightarrow> hex_value s = n"
proof -
  assume "skip_0x s = hex n"
  moreover have "takeWhile is_xdigit (hex n) = hex n" using hex_xdigits by (auto simp only: takeWhile_eq_all_conv)
  moreover have "map xdigit (hex n) = radix 16 n"
    using radix_digits [of 16 _ n] xdigit_digit by (simp add: hex_def map_idI)
  ultimately show ?thesis by (simp only: hex_value_def of_radix_radix)
qed

lemma not_space: "is_xdigit c \<Longrightarrow> \<not> is_space c \<and> c \<noteq> CHR ''-'' \<and> c \<noteq> CHR ''+'' \<and> c \<noteq> CHR ''x'' \<and> c \<noteq> CHR ''X''"
  by (auto simp: is_xdigit_def is_space_def)

lemma hex_split: obtains c cs where "hex n = c # cs" "is_xdigit c" "\<forall>d \<in> set cs. is_xdigit d"
proof -
  have "hex n \<noteq> []" by (simp add: hex_def)
  then obtain c cs where "hex n = c # cs" by (cases "hex n") auto
  with hex_xdigits [of _ n] show ?thesis by (intro that) auto
qed

lemma skip_plain: "skip_0x (hex n) = hex n"
proof -
  obtain c cs where h: "hex n = c # cs" "\<forall>d \<in> set cs. is_xdigit d" by (rule hex_split)
  have "take 2 (c # cs) \<notin> {''0x'', ''0X''}" using h(2) not_space by (cases cs) auto
  with h(1) show ?thesis by (simp only: skip_0x_def) auto
qed

lemma skip_prefix: "skip_0x (''0x'' @ hex n) = hex n"
proof -
  obtain c cs where "hex n = c # cs" "is_xdigit c" by (rule hex_split)
  then show ?thesis by (simp add: skip_0x_def numeral_2_eq_2)
qed

section \<open>Properties\<close>

text \<open>
  An address printed in hexadecimal, with or without \<^verbatim>\<open>0x\<close>, is the address \<^verbatim>\<open>trick\<close> reads: it dies of the
  access exactly when that address is not readable, and then at that address.
\<close>

theorem trick_reads_printed_address:
  assumes "a < 2 ^ 64" and "s = hex a \<or> s = ''0x'' @ hex a"
  shows "trick_main readable [prog, s] = (if readable a then Ended (Exit 0) [] else Segfault a)"
proof -
  obtain c cs where h: "hex a = c # cs" "is_xdigit c" by (rule hex_split)
  have "hex_value s = a" using assms(2) skip_plain skip_prefix hex_value_digits by auto
  moreover have "s \<noteq> []" "\<not> is_space (hd s)" "hd s \<noteq> CHR ''-''" "hd s \<noteq> CHR ''+''"
    using assms(2) h not_space [of c] by (auto simp: is_space_def)
  moreover from this have "dropWhile is_space s = s" by (cases s) auto
  ultimately have "strtoul16 s = a" using assms(1) by (simp add: strtoul16_def Let_def)
  then show ?thesis by (simp add: trick_main_def)
qed

lemma demo_hex: "hex 16 = ''10''"
  by code_simp

theorem trick_reads_printed_address_witness:
  "trick_main (\<lambda>a. a = 16) [''trick'', ''0x10''] = Ended (Exit 0) [] \<and>
   trick_main (\<lambda>a. False) [''trick'', ''10''] = Segfault 16"
  using trick_reads_printed_address [of 16 "''0x10''" "\<lambda>a. a = 16" "''trick''"]
    trick_reads_printed_address [of 16 "''10''" "\<lambda>a. False" "''trick''"]
  by (simp add: demo_hex)

text \<open>Both versions of \<^verbatim>\<open>vm_user\<close> print one well-formed row of addresses for either word size.\<close>

definition vm_formats :: "string list" where
  "vm_formats =
     [''&main = 0x%08x &g = 0x%08x &u = 0x%08x &heapptr = 0x%08x &loc = 0x%08x\<newline>'',
      ''&main = 0x%016lx &g = 0x%016lx &u = 0x%016lx &heapptr = 0x%016lx &loc = 0x%016lx\<newline>'',
      ''32-bit: &main = 0x%08x &g = 0x%08x &u = 0x%08x &heapptr = 0x%08x &loc = 0x%08x\<newline>'',
      ''64-bit: &main = 0x%016lx &g = 0x%016lx &u = %016lx &heapptr = 0x%016lx &loc = 0x%016lx\<newline>'']"

lemma vm_formats_fit: "\<forall>f \<in> set vm_formats. fits (fmt_items f) [KUInt, KUInt, KUInt, KUInt, KUInt]"
  by code_simp

lemma vm_rows_render:
  assumes "f \<in> set vm_formats" and "cast \<in> {u32, u64}"
  shows "\<exists>s. printf f (row_of cast P) = Some s"
  using assms vm_formats_fit by (intro fits_prints) (auto simp: row_of_def u32_def u64_def)

end
