(* ===== verification/Spec2Isabelle.thy ===== *)
theory Spec2Isabelle
  imports Prelude Transitions C_Format Convenient Debug_Print Mem_Sequence Restart_Lib File_Copy Kernel_API List_Module Rcu_Books Rcu_Concurrent Rcu_Races Rcu_Interleaving Rcu_Atomic Rcu_Views Taskinfo_Driver Hex_Dump Counting Task_Details Kernel_Seg Task_Display Alloc_Tests Vcpu_Check Segv_Pgfault Pthread_Lib Small_Programs
begin

text \<open>
  The repository is the code of a Linux kernel training: kernel modules, user programs that
  exercise the kernel, and two headers that they share. The programs are independent of each other
  but for the headers, the restart library and the pairs of a driver and its reader. This development
  translates the C code definition by definition and proves what makes each program correct, or
  where it is not.

  \<^bold>\<open>Conventions.\<close> A C structure is a record, an operation a function of the same name. A step that
  would have undefined behaviour or crash (a null pointer, a freed block, an index past a buffer or in front of it, a
  signed overflow, a division by zero, a sleep in atomic context) returns a value of the datatype \<^verbatim>\<open>fault\<close> of
  \<open>Prelude\<close>; a program ends with a value of \<^verbatim>\<open>ending\<close>. Integers keep their width where it matters:
  \<open>to_int32\<close> narrows, words of HOL-Library wrap, and buffers carry their size. Text is the
  exact text: \<open>C_Format\<close> interprets the format strings as they stand in the sources, and fails on a
  missing or wrong argument. What is not in the repository (the kernel's lists, allocators, timers,
  system calls, the task list) is a parameter; where a program relies on its behaviour, the contract is a locale, the
  program's lemmas are proved in it, and it is interpreted on a concrete implementation.
  Loops that a hostile kernel can keep running are \<^verbatim>\<open>partial_function (option)\<close> definitions, for
  which returning is proved (the value is \<^verbatim>\<open>Some\<close>); all other recursion has a termination proof.
  There is no fuel.

  \<^bold>\<open>Theories.\<close>

  \<^item> \<open>Prelude\<close>, \<open>C_Format\<close>: faults, C integers, numerals, \<^verbatim>\<open>printf\<close>, \<^verbatim>\<open>snprintf\<close>, \<^verbatim>\<open>strncat\<close>, \<^verbatim>\<open>atol\<close>, \<^verbatim>\<open>atoi\<close>.
  \<^item> \<open>Transitions\<close>: runs of labelled steps and the arguments about them as locales (\<open>inductive_invariant\<close>, \<open>playable\<close>,
    \<open>rising_level\<close>, \<open>recurring\<close>), interpreted on the step relations of \<open>Counting\<close>, \<open>Vcpu_Check\<close>, \<open>Rcu_Concurrent\<close> and \<open>Rcu_Views\<close>.
  \<^item> \<open>Convenient\<close>: \<^verbatim>\<open>convenient.h\<close> and \<^verbatim>\<open>mm/vm_show_kernel_seg/convenient.h\<close>: \<^verbatim>\<open>SHOW_DELTA\<close>, \<^verbatim>\<open>PRINT_CTX\<close>, \<^verbatim>\<open>dec2bin\<close>,
    \<^verbatim>\<open>timeval_subtract\<close>, \<^verbatim>\<open>err_exit\<close>. \<open>Debug_Print\<close>: their printing macros under the symbols of the build.
    Shown: \<^verbatim>\<open>dec2bin\<close> spells every number and then reads in front of its buffer, the time difference is exact, the documented
    switch to \<^verbatim>\<open>trace_printk\<close> has no effect.
  \<^item> \<open>Kernel_API\<close>: commands with faults, the kernel's circular list and \<^verbatim>\<open>kzalloc\<close>/\<^verbatim>\<open>kfree\<close> as the contracts \<open>kernel_list\<close>,
    \<open>rcu_list\<close> and \<open>kernel_memory\<close>, and a pointer implementation that satisfies them.
  \<^item> \<open>List_Module\<close>: \<^verbatim>\<open>list/list.c\<close>. Shown: what adding and searching do; that unloading reads freed nodes.
  \<^item> \<open>Rcu_Books\<close>: \<^verbatim>\<open>ksync/rcu_example/list_rcu_example.c\<close> called from one thread. The abstract specification is a list of books
    and the number of callbacks queued; every operation refines it, keeps the invariant and loses no book; loading the module, with whatever the
    allocator answers, logs what the specification says and leaves no book and no block.
    \<open>Rcu_Concurrent\<close>: the same operations cut into atomic steps and interleaved, with grace periods. Shown, by
    induction on the reachable states: the invariant of links, ownership and readers; safety with one remover
    except for one read after the section; no deadlock. \<open>Rcu_Races\<close>: with two removers, a replacement whose book has just left the
    list relinks it, and a block is freed twice.
    \<open>Rcu_Interleaving\<close>: the two agree: a call of a thread that moves alone is the operation of \<open>Rcu_Books\<close>, and every sequence of
    operations and grace periods is one of the interleavings.
    \<open>Rcu_Atomic\<close>, \<open>Rcu_Views\<close>: the interleavings seen by the callers, with one remover at a time. A ledger beside the run
    records what each thread asked, the events of its call, what the call has added to the kernel's log and the states the library
    was in since the call began. Shown: every
    call has exactly one event; the changes are made at single moves and give the books on the list in that order; what a
    call logs and returns (a book printed, missing or refused) was true of the list at some instant of the call.
  \<^item> \<open>Counting\<close>: \<^verbatim>\<open>ksync/counting\<close>. Shown: the values the unlocked counter can end with are exactly 1 to n.
  \<^item> \<open>Restart_Lib\<close>: \<^verbatim>\<open>restart_lib.h\<close>, over any kernel; contracts \<open>fd_streams\<close>, \<open>reliable_fds\<close>, \<open>advancing_clock\<close>. Shown: the
    wrappers return the first result that is not an interruption; reads, writes, lines, blocks and copies move
    exactly the bytes they report, or the \<^verbatim>\<open>int\<close> count of \<^verbatim>\<open>copyfile\<close> overflows; timed waits return. \<open>File_Copy\<close>: \<^verbatim>\<open>reg_fileio.c\<close> on top of
    it, for every kernel and on a file system that keeps the contract and honours the flags of \<^verbatim>\<open>open\<close>, and \<^verbatim>\<open>mmap_fileio.c\<close> on the same files. Shown: what each copies, and
    that the two leave the same files up to \<^verbatim>\<open>INT_MAX\<close> bytes.
  \<^item> \<open>Hex_Dump\<close>: \<^verbatim>\<open>mmap_simple.c\<close>, on the restart library. Shown: the dump equals a reference layout and can be read back; which part of
    the file is dumped; where the buffer and the offset arithmetic overflow.
  \<^item> \<open>Mem_Sequence\<close>: \<^verbatim>\<open>mem_sequence.c\<close>. Shown: the table is sorted and a permutation, and each of its rows is printed.
  \<^item> \<open>Taskinfo_Driver\<close>: \<^verbatim>\<open>foreach.c\<close>, \<^verbatim>\<open>rdtasks.c\<close>, \<^verbatim>\<open>showthreads.c\<close>. Shown: the listing is complete below a number of processes and
    overruns its buffer above; when the reader's buffer suffices.
  \<^item> \<open>Task_Details\<close>, \<open>Task_Display\<close>: \<^verbatim>\<open>taskdtl.c\<close> and \<^verbatim>\<open>taskdtl_display.c\<close>. The calls are assembled from the kernel configuration as the preprocessor
    does; shown: for which configurations and kernel versions they are well-formed and have a conversion for each argument. The kernels are LP64;
    the kernel's structures are not in the repository, so their members are numbers of either width, declared unless one of the
    two files makes a member depend on the configuration or the version.
  \<^item> \<open>Kernel_Seg\<close>: \<^verbatim>\<open>vm_show_kernel_seg.c\<close>. Shown: what the two blocks hold, that none leaks on any path, that the patterns stay in their block, and that all formats fit.
  \<^item> \<open>Alloc_Tests\<close>: \<^verbatim>\<open>ksz_test.c\<close>, \<^verbatim>\<open>kmalloc_test.c\<close>, \<^verbatim>\<open>slab_custom.c\<close>, \<^verbatim>\<open>vmallc.c\<close>, \<^verbatim>\<open>oom-killer-try.c\<close>, \<^verbatim>\<open>rdpg_oom_try.c\<close>, \<^verbatim>\<open>malloc_brk_test.c\<close>,
    \<^verbatim>\<open>gen_malloc_pgfault.c\<close>. Shown: when the allocation loops end and with what.
  \<^item> \<open>Vcpu_Check\<close>: \<^verbatim>\<open>vcpu_check.c\<close> as a step relation with the timer layer. Shown: the timer never outlives the module,
    its rate, and that it never stops by itself.
  \<^item> \<open>Segv_Pgfault\<close>: \<^verbatim>\<open>segv_pgfault.c\<close>. \<open>Pthread_Lib\<close>: \<^verbatim>\<open>libpk.h\<close>, with the contract \<open>nanosleeping\<close>. \<open>Small_Programs\<close>: \<^verbatim>\<open>vm_user.c\<close>, \<^verbatim>\<open>ptr1.c\<close>,
    \<^verbatim>\<open>trick.c\<close>, \<^verbatim>\<open>hello.c\<close> and the modules \<^verbatim>\<open>show_monolithic\<close>, \<^verbatim>\<open>helloworld_lkm\<close> and \<^verbatim>\<open>lkm_template\<close>.

  \<^bold>\<open>Not modelled.\<close> The copies \<^verbatim>\<open>mmap_simple/restart_lib.h\<close>, \<^verbatim>\<open>xtras/malloc_brk_test.c\<close> and \<^verbatim>\<open>xtras/segv_pgfault.c\<close>, whose code is
  that of the originals; code under \<^verbatim>\<open>#if 0\<close> and the sample output in comments; shell scripts and Makefiles. Log levels and
  rate limiting do not change the text and are left out; memory ordering is that of interleaved atomic steps.
\<close>

end
